(* ===== verification/Prelude.thy ===== *)
theory Prelude
  imports Main "HOL-Library.Word"
begin

text \<open>
  Shared vocabulary of the development: the machine types of the C code, byte buffers as lists,
  the big-endian loads and stores of \<open>crypto/fipsmodule/modes/internal.h\<close>, buffer writes
  (\<open>memcpy\<close>, \<open>memset\<close>), the byte-wise exclusive or of two buffers, and the
  generic lemmas on lists and words that the component theories use. The collections
  \<open>buffer_simps\<close> (lengths and splits of buffers) and \<open>xor_simps\<close> (cancellation of
  exclusive or) gather the facts that the component proofs hand to the simplifier.
\<close>

unbundle bit_operations_syntax

named_theorems buffer_simps
named_theorems xor_simps

section \<open>Machine types\<close>

type_synonym u8 = "8 word"
type_synonym u32 = "32 word"
type_synonym u64 = "64 word"
type_synonym bytes = "u8 list"

section \<open>Exclusive or\<close>

text \<open>
  With commutativity, associativity and these two rules the simplifier brings every exclusive or
  of words to a normal form in which equal operands have cancelled.
\<close>

lemma xor_cancel_left [xor_simps]: "x XOR (x XOR y) = (y :: 'a::len word)"
  by (simp add: xor.assoc [symmetric])

lemma xor_self_word [xor_simps]: "x XOR x = (0 :: 'a::len word)"
  by simp

lemmas xor_ac [xor_simps] =
  xor.assoc [where 'a = "'a::len word"]
  xor.commute [where 'a = "'a::len word"]
  xor.left_commute [where 'a = "'a::len word"]

definition xor_bytes :: "bytes \<Rightarrow> bytes \<Rightarrow> bytes" where
  "xor_bytes xs ys = map2 (XOR) xs ys"

lemma xor_bytes_simps [simp]:
  "xor_bytes [] ys = []"
  "xor_bytes xs [] = []"
  "xor_bytes (x # xs) (y # ys) = (x XOR y) # xor_bytes xs ys"
  by (simp_all add: xor_bytes_def)

lemma length_xor_bytes [simp, buffer_simps]:
  "length (xor_bytes xs ys) = min (length xs) (length ys)"
  by (simp add: xor_bytes_def)

lemma xor_bytes_commute: "xor_bytes xs ys = xor_bytes ys xs"
  by (induction xs ys rule: list_induct2') (auto simp: xor.commute)

lemma xor_bytes_cancel:
  "length xs \<le> length ys \<Longrightarrow> xor_bytes (xor_bytes xs ys) ys = xs"
  by (induction xs ys rule: list_induct2') (auto simp: xor.assoc)

lemma xor_bytes_cancel_left:
  "length xs \<le> length ys \<Longrightarrow> xor_bytes ys (xor_bytes xs ys) = xs"
  by (metis xor_bytes_cancel xor_bytes_commute)

lemma xor_bytes_append:
  "length xs = length us \<Longrightarrow> xor_bytes (xs @ ys) (us @ vs) = xor_bytes xs us @ xor_bytes ys vs"
  by (simp add: xor_bytes_def)

lemma nth_xor_bytes [simp]:
  "i < length xs \<Longrightarrow> i < length ys \<Longrightarrow> xor_bytes xs ys ! i = xs ! i XOR ys ! i"
  by (simp add: xor_bytes_def)

section \<open>Bytes as indices\<close>

lemma unat_u8_less [simp]: "unat (x :: u8) < 256"
  by (rule order_less_le_trans [OF unsigned_less]) simp

lemma bit_u8_less: "bit (x :: u8) n \<Longrightarrow> n < 8"
  using bit_imp_le_length [of x n] by simp

lemma bit_u8_beyond [simp]: "8 \<le> n \<Longrightarrow> bit (x :: u8) n = False"
  by (auto dest: bit_u8_less)

text \<open>
  The C code indexes its tables with \<open>w >> 24\<close> and \<open>(w >> k) & 0xff\<close>; each index is the value of
  one byte of \<open>w\<close>.
\<close>

lemma unat_and_ff [simp]: "unat (w AND 0xff) = unat (ucast w :: u8)" for w :: u32
proof -
  have "w AND 0xff = take_bit 8 w"
    by (simp add: take_bit_eq_mask mask_eq_exp_minus_1)
  then show ?thesis
    by (simp add: unsigned_ucast_eq unsigned_take_bit_eq)
qed

lemma bit_u32_beyond [simp]: "32 \<le> n \<Longrightarrow> bit (x :: u32) n = False"
  using bit_imp_le_length [of x n] by auto

lemma unat_drop_24 [simp]: "unat (drop_bit 24 w) = unat (ucast (drop_bit 24 w) :: u8)" for w :: u32
proof -
  have "drop_bit 24 w = take_bit 8 (drop_bit 24 w)"
    by (rule bit_word_eqI) (auto simp: bit_simps dest: bit_imp_le_length)
  then have "unat (drop_bit 24 w) = take_bit 8 (unat (drop_bit 24 w))"
    by (metis unsigned_take_bit_eq)
  then show ?thesis
    by (simp add: unsigned_ucast_eq)
qed

section \<open>Buffers\<close>

text \<open>
  A C buffer is the list of its bytes. \<open>memcpy_at d k s\<close> is the buffer \<open>d\<close> after
  \<open>memcpy (d + k, s, n)\<close> with \<open>n = length s\<close>; \<open>memset_at d k v n\<close> is \<open>d\<close> after
  \<open>memset (d + k, v, n)\<close>. Both are within bounds exactly when \<open>k + n \<le> length d\<close>, and then
  keep the length of the buffer.
\<close>

definition memcpy_at :: "'a list \<Rightarrow> nat \<Rightarrow> 'a list \<Rightarrow> 'a list" where
  "memcpy_at d k s = take k d @ s @ drop (k + length s) d"

definition memset_at :: "'a list \<Rightarrow> nat \<Rightarrow> 'a \<Rightarrow> nat \<Rightarrow> 'a list" where
  "memset_at d k v n = memcpy_at d k (replicate n v)"

lemma length_memcpy_at [simp, buffer_simps]:
  "k + length s \<le> length d \<Longrightarrow> length (memcpy_at d k s) = length d"
  by (simp add: memcpy_at_def)

lemma length_memset_at [simp, buffer_simps]:
  "k + n \<le> length d \<Longrightarrow> length (memset_at d k v n) = length d"
  by (simp add: memset_at_def)

lemma take_memcpy_at_end [buffer_simps]:
  "k \<le> length d \<Longrightarrow> take (k + length s) (memcpy_at d k s) = take k d @ s"
  by (simp add: memcpy_at_def)

lemma take_memcpy_at_before [buffer_simps]:
  "n \<le> k \<Longrightarrow> k \<le> length d \<Longrightarrow> take n (memcpy_at d k s) = take n d"
  by (simp add: memcpy_at_def min_def)

lemma memcpy_at_full:
  "k + length s = length d \<Longrightarrow> memcpy_at d k s = take k d @ s"
  by (simp add: memcpy_at_def)

section \<open>Big-endian loads and stores\<close>

text \<open>
  \<open>GETU32\<close> and \<open>PUTU32\<close> copy four bytes and swap them (\<open>CRYPTO_bswap4\<close>) on the
  little-endian targets of the application, so they read and write the most significant byte first.
\<close>

definition GETU32 :: "bytes \<Rightarrow> u32" where
  "GETU32 p =
     push_bit 24 (ucast (p ! 0)) OR push_bit 16 (ucast (p ! 1)) OR
     push_bit 8 (ucast (p ! 2)) OR ucast (p ! 3)"

definition PUTU32 :: "u32 \<Rightarrow> bytes" where
  "PUTU32 v = [ucast (drop_bit 24 v), ucast (drop_bit 16 v), ucast (drop_bit 8 v), ucast v]"

lemma length_PUTU32 [simp, buffer_simps]: "length (PUTU32 v) = 4"
  by (simp add: PUTU32_def)

lemma GETU32_PUTU32 [simp]: "GETU32 (PUTU32 v @ r) = v"
proof (rule bit_word_eqI)
  fix n :: nat
  assume "n < LENGTH(32)"
  then consider "n < 8" | "8 \<le> n" "n < 16" | "16 \<le> n" "n < 24" | "24 \<le> n" "n < 32"
    by fastforce
  then show "bit (GETU32 (PUTU32 v @ r)) n = bit v n"
    by cases (auto simp: GETU32_def PUTU32_def bit_simps)
qed

lemma PUTU32_GETU32:
  assumes "length p = 4"
  shows "PUTU32 (GETU32 p) = p"
proof -
  from assms obtain a b c d where p: "p = [a, b, c, d]"
    by (auto simp: numeral_eq_Suc length_Suc_conv)
  show ?thesis
    unfolding p PUTU32_def GETU32_def
    by (auto intro!: bit_word_eqI simp: bit_simps)
qed

section \<open>Lists\<close>

lemma list4_cases:
  assumes "length xs = 4"
  obtains a b c d where "xs = [a, b, c, d]"
  using assms by (auto simp: numeral_eq_Suc length_Suc_conv)

lemma fold_invariant:
  "\<lbrakk>P s; \<And>x t. x \<in> set xs \<Longrightarrow> P t \<Longrightarrow> P (f x t)\<rbrakk> \<Longrightarrow> P (fold f xs s)"
  by (induction xs arbitrary: s) auto

lemma fold_upt_induct:
  assumes "P i s" "i \<le> j" "\<And>k t. i \<le> k \<Longrightarrow> k < j \<Longrightarrow> P k t \<Longrightarrow> P (Suc k) (f k t)"
  shows "P j (fold f [i..<j] s)"
  using assms(2,3)
proof (induction j)
  case 0
  with assms(1) show ?case by simp
next
  case (Suc j)
  show ?case
  proof (cases "i = Suc j")
    case True
    with assms(1) show ?thesis by simp
  next
    case False
    with Suc show ?thesis by (simp add: upt_Suc_append)
  qed
qed

end
