(* ===== verification/Memory.thy ===== *)
theory Memory
  imports Prelude
begin

text \<open>
  A flat byte memory for the routines whose result depends on how their buffers overlap: the modes
  of operation that the code runs in place or from one buffer to another. A memory is a list of
  bytes and a pointer is an offset into it. Loads and stores are within bounds exactly when the
  region lies inside the list; every caller below assumes that for its regions, as the C code does.
\<close>

type_synonym mem = bytes

definition load :: "nat \<Rightarrow> mem \<Rightarrow> nat \<Rightarrow> bytes" where
  "load n m p = take n (drop p m)"

definition store :: "mem \<Rightarrow> nat \<Rightarrow> bytes \<Rightarrow> mem" where
  "store m p b = memcpy_at m p b"

text \<open>Two regions with no byte in common.\<close>

definition apart :: "nat \<Rightarrow> nat \<Rightarrow> nat \<Rightarrow> nat \<Rightarrow> bool" where
  "apart p n q k \<longleftrightarrow> p + n \<le> q \<or> q + k \<le> p"

named_theorems mem_simps

lemma length_load [simp]: "p + n \<le> length m \<Longrightarrow> length (load n m p) = n"
  by (simp add: load_def)

lemma length_store [simp]: "p + length b \<le> length m \<Longrightarrow> length (store m p b) = length m"
  by (simp add: store_def)

lemma load_store_same [mem_simps]:
  "p + length b \<le> length m \<Longrightarrow> length b = n \<Longrightarrow> load n (store m p b) p = b"
  by (simp add: load_def store_def memcpy_at_def)

lemma nth_store:
  "p + length b \<le> length m \<Longrightarrow> i < length m \<Longrightarrow>
     store m p b ! i = (if p \<le> i \<and> i < p + length b then b ! (i - p) else m ! i)"
  by (auto simp: store_def memcpy_at_def nth_append min_def)

lemma nth_stores_outside:
  assumes "p + length b \<le> length m" "q + length c \<le> length m" "i < length m"
    "i < p \<or> p + length b \<le> i" "i < q \<or> q + length c \<le> i"
  shows "store (store m p b) q c ! i = m ! i"
  using assms by (auto simp: nth_store)

lemma nth_load: "p + n \<le> length m \<Longrightarrow> i < n \<Longrightarrow> load n m p ! i = m ! (p + i)"
  by (simp add: load_def)

lemma load_store_apart [mem_simps]:
  assumes "apart q n p (length b)" "p + length b \<le> length m" "q + n \<le> length m"
  shows "load n (store m p b) q = load n m q"
proof (rule nth_equalityI)
  fix i
  assume "i < length (load n (store m p b) q)"
  then have "i < n" using assms by simp
  then show "load n (store m p b) q ! i = load n m q ! i"
    using assms by (auto simp: nth_load nth_store apart_def)
qed (use assms in simp)

lemma store_append [mem_simps]:
  assumes "p + length b + length c \<le> length m" "q = p + length b"
  shows "store (store m p b) q c = store m p (b @ c)"
proof (rule nth_equalityI)
  fix i
  assume "i < length (store (store m p b) q c)"
  then have "i < length m" using assms by simp
  then show "store (store m p b) q c ! i = store m p (b @ c) ! i"
    using assms by (auto simp: nth_store nth_append)
qed (use assms in simp)

lemma store_store_same [mem_simps]:
  assumes "p + length b \<le> length m" "length c = length b"
  shows "store (store m p b) p c = store m p c"
  using assms by (intro nth_equalityI) (auto simp: nth_store)

lemma store_commute:
  assumes "apart p (length b) q (length c)" "p + length b \<le> length m" "q + length c \<le> length m"
  shows "store (store m p b) q c = store (store m q c) p b"
  using assms by (intro nth_equalityI) (auto simp: nth_store apart_def)

lemma store_load_same [mem_simps]: "p + n \<le> length m \<Longrightarrow> store m p (load n m p) = m"
  by (intro nth_equalityI) (auto simp: nth_store nth_load)

lemma store_Nil [simp]: "store m p [] = m"
  by (simp add: store_def memcpy_at_def)

lemma load_append: "load (n + k) m p = load n m p @ load k m (p + n)"
  by (simp add: load_def take_add) (simp add: add.commute)

section \<open>Runs of sixteen-byte blocks\<close>

text \<open>\<open>blocks m p n\<close>: the \<open>n\<close> blocks of memory that start at \<open>p\<close>.\<close>

fun blocks :: "mem \<Rightarrow> nat \<Rightarrow> nat \<Rightarrow> bytes list" where
  "blocks m p 0 = []"
| "blocks m p (Suc n) = load 16 m p # blocks m (p + 16) n"

abbreviation all_blocks :: "bytes list \<Rightarrow> bool" where
  "all_blocks \<equiv> list_all (\<lambda>b. length b = 16)"

lemma length_blocks [simp]: "length (blocks m p n) = n"
  by (induction n arbitrary: p) auto

lemma blocks_Nil_iff [simp]: "blocks m p n = [] \<longleftrightarrow> n = 0"
  by (cases n) auto

lemma all_blocks_blocks [simp]: "p + 16 * n \<le> length m \<Longrightarrow> all_blocks (blocks m p n)"
  by (induction n arbitrary: p) auto

lemma length_concat_blocks: "all_blocks bs \<Longrightarrow> length (concat bs) = 16 * length bs"
  by (induction bs) auto

lemma concat_blocks: "concat (blocks m p n) = load (16 * n) m p"
proof (induction n arbitrary: p)
  case (Suc n)
  then show ?case
    using load_append [of 16 "16 * n" m p] by simp
qed (simp add: load_def)

lemma blocks_store_apart:
  assumes "apart q (16 * n) p (length b)" "p + length b \<le> length m" "q + 16 * n \<le> length m"
  shows "blocks (store m p b) q n = blocks m q n"
  using assms
proof (induction n arbitrary: q)
  case (Suc n)
  have "blocks (store m p b) (q + 16) n = blocks m (q + 16) n"
    using Suc.prems by (intro Suc.IH) (auto simp: apart_def)
  moreover have "load 16 (store m p b) q = load 16 m q"
    using Suc.prems by (intro load_store_apart) (auto simp: apart_def)
  ultimately show ?case by simp
qed simp

lemma blocks_append: "blocks m p (n + k) = blocks m p n @ blocks m (p + 16 * n) k"
  by (induction n arbitrary: p) (simp_all add: add.assoc)

lemma blocks_store_same:
  "all_blocks bs \<Longrightarrow> p + 16 * length bs \<le> length m \<Longrightarrow>
     blocks (store m p (concat bs)) p (length bs) = bs"
proof (induction bs arbitrary: m p)
  case (Cons b bs)
  let ?m = "store m p b"
  have len: "length b = 16" "length (concat bs) = 16 * length bs"
    using Cons.prems(1) by (simp_all add: length_concat_blocks)
  have eq: "store m p (concat (b # bs)) = store ?m (p + 16) (concat bs)"
    using Cons.prems len by (simp add: store_append)
  have "load 16 (store ?m (p + 16) (concat bs)) p = load 16 ?m p"
    using Cons.prems len by (intro load_store_apart) (auto simp: apart_def)
  moreover have "load 16 ?m p = b"
    using Cons.prems len by (simp add: load_store_same)
  moreover have "blocks (store ?m (p + 16) (concat bs)) (p + 16) (length bs) = bs"
    using Cons.prems len by (intro Cons.IH) auto
  ultimately show ?case
    by (simp only: eq length_Cons blocks.simps)
qed simp

end
