(* ===== verification/FIPS197.thy ===== *)
theory FIPS197
  imports Prelude
begin

text \<open>
  The abstract specification of AES: the cipher, the inverse cipher and the key expansion of
  FIPS-197, written over columns of four bytes and independent of the C code. The C routines of
  \<open>crypto/fipsmodule/aes/aes.c\<close> merge these steps into table lookups on 32-bit words; the theory
  \<open>AES\<close> proves that they compute these functions. The first result here is that the inverse cipher
  undoes the cipher, for every number of rounds and every key schedule.
\<close>

section \<open>Bytes as elements of the field\<close>

text \<open>
  \<open>xtime\<close> multiplies by \<open>{02}\<close> modulo \<open>x^8 + x^4 + x^3 + x + 1\<close>; the other
  constants of \<open>MixColumns\<close> and its inverse are sums of its iterates.
\<close>

definition xtime :: "u8 \<Rightarrow> u8" where
  "xtime x = push_bit 1 x XOR (if bit x 7 then 0x1b else 0)"

definition mul3 :: "u8 \<Rightarrow> u8" where
  "mul3 x = xtime x XOR x"

definition mul9 :: "u8 \<Rightarrow> u8" where
  "mul9 x = xtime (xtime (xtime x)) XOR x"

definition mul11 :: "u8 \<Rightarrow> u8" where
  "mul11 x = xtime (xtime (xtime x)) XOR xtime x XOR x"

definition mul13 :: "u8 \<Rightarrow> u8" where
  "mul13 x = xtime (xtime (xtime x)) XOR xtime (xtime x) XOR x"

definition mul14 :: "u8 \<Rightarrow> u8" where
  "mul14 x = xtime (xtime (xtime x)) XOR xtime (xtime x) XOR xtime x"

lemmas mul_defs = mul3_def mul9_def mul11_def mul13_def mul14_def

lemma xtime_xor: "xtime (x XOR y) = xtime x XOR xtime y"
  by (rule bit_word_eqI) (auto simp: xtime_def bit_simps)

section \<open>The substitution box\<close>

definition sbox_table :: bytes where
  "sbox_table = [
     0x63, 0x7c, 0x77, 0x7b, 0xf2, 0x6b, 0x6f, 0xc5, 0x30, 0x01, 0x67, 0x2b, 0xfe, 0xd7, 0xab, 0x76,
     0xca, 0x82, 0xc9, 0x7d, 0xfa, 0x59, 0x47, 0xf0, 0xad, 0xd4, 0xa2, 0xaf, 0x9c, 0xa4, 0x72, 0xc0,
     0xb7, 0xfd, 0x93, 0x26, 0x36, 0x3f, 0xf7, 0xcc, 0x34, 0xa5, 0xe5, 0xf1, 0x71, 0xd8, 0x31, 0x15,
     0x04, 0xc7, 0x23, 0xc3, 0x18, 0x96, 0x05, 0x9a, 0x07, 0x12, 0x80, 0xe2, 0xeb, 0x27, 0xb2, 0x75,
     0x09, 0x83, 0x2c, 0x1a, 0x1b, 0x6e, 0x5a, 0xa0, 0x52, 0x3b, 0xd6, 0xb3, 0x29, 0xe3, 0x2f, 0x84,
     0x53, 0xd1, 0x00, 0xed, 0x20, 0xfc, 0xb1, 0x5b, 0x6a, 0xcb, 0xbe, 0x39, 0x4a, 0x4c, 0x58, 0xcf,
     0xd0, 0xef, 0xaa, 0xfb, 0x43, 0x4d, 0x33, 0x85, 0x45, 0xf9, 0x02, 0x7f, 0x50, 0x3c, 0x9f, 0xa8,
     0x51, 0xa3, 0x40, 0x8f, 0x92, 0x9d, 0x38, 0xf5, 0xbc, 0xb6, 0xda, 0x21, 0x10, 0xff, 0xf3, 0xd2,
     0xcd, 0x0c, 0x13, 0xec, 0x5f, 0x97, 0x44, 0x17, 0xc4, 0xa7, 0x7e, 0x3d, 0x64, 0x5d, 0x19, 0x73,
     0x60, 0x81, 0x4f, 0xdc, 0x22, 0x2a, 0x90, 0x88, 0x46, 0xee, 0xb8, 0x14, 0xde, 0x5e, 0x0b, 0xdb,
     0xe0, 0x32, 0x3a, 0x0a, 0x49, 0x06, 0x24, 0x5c, 0xc2, 0xd3, 0xac, 0x62, 0x91, 0x95, 0xe4, 0x79,
     0xe7, 0xc8, 0x37, 0x6d, 0x8d, 0xd5, 0x4e, 0xa9, 0x6c, 0x56, 0xf4, 0xea, 0x65, 0x7a, 0xae, 0x08,
     0xba, 0x78, 0x25, 0x2e, 0x1c, 0xa6, 0xb4, 0xc6, 0xe8, 0xdd, 0x74, 0x1f, 0x4b, 0xbd, 0x8b, 0x8a,
     0x70, 0x3e, 0xb5, 0x66, 0x48, 0x03, 0xf6, 0x0e, 0x61, 0x35, 0x57, 0xb9, 0x86, 0xc1, 0x1d, 0x9e,
     0xe1, 0xf8, 0x98, 0x11, 0x69, 0xd9, 0x8e, 0x94, 0x9b, 0x1e, 0x87, 0xe9, 0xce, 0x55, 0x28, 0xdf,
     0x8c, 0xa1, 0x89, 0x0d, 0xbf, 0xe6, 0x42, 0x68, 0x41, 0x99, 0x2d, 0x0f, 0xb0, 0x54, 0xbb, 0x16]"

definition inv_sbox_table :: bytes where
  "inv_sbox_table = [
     0x52, 0x09, 0x6a, 0xd5, 0x30, 0x36, 0xa5, 0x38, 0xbf, 0x40, 0xa3, 0x9e, 0x81, 0xf3, 0xd7, 0xfb,
     0x7c, 0xe3, 0x39, 0x82, 0x9b, 0x2f, 0xff, 0x87, 0x34, 0x8e, 0x43, 0x44, 0xc4, 0xde, 0xe9, 0xcb,
     0x54, 0x7b, 0x94, 0x32, 0xa6, 0xc2, 0x23, 0x3d, 0xee, 0x4c, 0x95, 0x0b, 0x42, 0xfa, 0xc3, 0x4e,
     0x08, 0x2e, 0xa1, 0x66, 0x28, 0xd9, 0x24, 0xb2, 0x76, 0x5b, 0xa2, 0x49, 0x6d, 0x8b, 0xd1, 0x25,
     0x72, 0xf8, 0xf6, 0x64, 0x86, 0x68, 0x98, 0x16, 0xd4, 0xa4, 0x5c, 0xcc, 0x5d, 0x65, 0xb6, 0x92,
     0x6c, 0x70, 0x48, 0x50, 0xfd, 0xed, 0xb9, 0xda, 0x5e, 0x15, 0x46, 0x57, 0xa7, 0x8d, 0x9d, 0x84,
     0x90, 0xd8, 0xab, 0x00, 0x8c, 0xbc, 0xd3, 0x0a, 0xf7, 0xe4, 0x58, 0x05, 0xb8, 0xb3, 0x45, 0x06,
     0xd0, 0x2c, 0x1e, 0x8f, 0xca, 0x3f, 0x0f, 0x02, 0xc1, 0xaf, 0xbd, 0x03, 0x01, 0x13, 0x8a, 0x6b,
     0x3a, 0x91, 0x11, 0x41, 0x4f, 0x67, 0xdc, 0xea, 0x97, 0xf2, 0xcf, 0xce, 0xf0, 0xb4, 0xe6, 0x73,
     0x96, 0xac, 0x74, 0x22, 0xe7, 0xad, 0x35, 0x85, 0xe2, 0xf9, 0x37, 0xe8, 0x1c, 0x75, 0xdf, 0x6e,
     0x47, 0xf1, 0x1a, 0x71, 0x1d, 0x29, 0xc5, 0x89, 0x6f, 0xb7, 0x62, 0x0e, 0xaa, 0x18, 0xbe, 0x1b,
     0xfc, 0x56, 0x3e, 0x4b, 0xc6, 0xd2, 0x79, 0x20, 0x9a, 0xdb, 0xc0, 0xfe, 0x78, 0xcd, 0x5a, 0xf4,
     0x1f, 0xdd, 0xa8, 0x33, 0x88, 0x07, 0xc7, 0x31, 0xb1, 0x12, 0x10, 0x59, 0x27, 0x80, 0xec, 0x5f,
     0x60, 0x51, 0x7f, 0xa9, 0x19, 0xb5, 0x4a, 0x0d, 0x2d, 0xe5, 0x7a, 0x9f, 0x93, 0xc9, 0x9c, 0xef,
     0xa0, 0xe0, 0x3b, 0x4d, 0xae, 0x2a, 0xf5, 0xb0, 0xc8, 0xeb, 0xbb, 0x3c, 0x83, 0x53, 0x99, 0x61,
     0x17, 0x2b, 0x04, 0x7e, 0xba, 0x77, 0xd6, 0x26, 0xe1, 0x69, 0x14, 0x63, 0x55, 0x21, 0x0c, 0x7d]"

definition sbox :: "u8 \<Rightarrow> u8" where
  "sbox x = sbox_table ! unat x"

definition inv_sbox :: "u8 \<Rightarrow> u8" where
  "inv_sbox x = inv_sbox_table ! unat x"

lemma length_sbox_table [simp]: "length sbox_table = 256" "length inv_sbox_table = 256"
  by (simp_all add: sbox_table_def inv_sbox_table_def)

text \<open>A statement about all bytes is a statement about the 256 entries of a table.\<close>

lemma table_lookup:
  fixes x :: u8
  assumes "map f xs = map word_of_nat [0..<256]" "length xs = 256"
  shows "f (xs ! unat x) = x"
proof -
  have x: "unat x < 256"
    by simp
  have "f (xs ! unat x) = map f xs ! unat x"
    using assms(2) x by simp
  also have "\<dots> = x"
    using x by (simp only: assms(1)) simp
  finally show ?thesis .
qed

lemma inv_sbox_table_sbox_table:
  "map (\<lambda>s. inv_sbox_table ! unat s) sbox_table = map word_of_nat [0..<256]"
  by code_simp

lemma inv_sbox_sbox [simp]: "inv_sbox (sbox x) = x"
  unfolding inv_sbox_def sbox_def
  by (rule table_lookup [OF inv_sbox_table_sbox_table]) simp

lemma sbox_inv_sbox [simp]: "sbox (inv_sbox y) = y"
proof -
  have "inj sbox"
    by (metis injI inv_sbox_sbox)
  then have "surj sbox"
    by (simp add: finite_UNIV_inj_surj)
  then obtain x where "y = sbox x"
    by (metis surjD)
  then show ?thesis by simp
qed

section \<open>Columns and states\<close>

datatype col = Col u8 u8 u8 u8

type_synonym aes_state = "col \<times> col \<times> col \<times> col"

fun word_of_col :: "col \<Rightarrow> u32" where
  "word_of_col (Col a b c d) =
     push_bit 24 (ucast a) OR push_bit 16 (ucast b) OR push_bit 8 (ucast c) OR ucast d"

definition col_of_word :: "u32 \<Rightarrow> col" where
  "col_of_word w =
     Col (ucast (drop_bit 24 w)) (ucast (drop_bit 16 w)) (ucast (drop_bit 8 w)) (ucast w)"

fun bytes_of_col :: "col \<Rightarrow> bytes" where
  "bytes_of_col (Col a b c d) = [a, b, c, d]"

fun xor_col :: "col \<Rightarrow> col \<Rightarrow> col" where
  "xor_col (Col a b c d) (Col a' b' c' d') = Col (a XOR a') (b XOR b') (c XOR c') (d XOR d')"

fun bytes_of_state :: "aes_state \<Rightarrow> bytes" where
  "bytes_of_state (p, q, r, s) =
     bytes_of_col p @ bytes_of_col q @ bytes_of_col r @ bytes_of_col s"

definition state_of_bytes :: "bytes \<Rightarrow> aes_state" where
  "state_of_bytes b =
     (Col (b ! 0) (b ! 1) (b ! 2) (b ! 3), Col (b ! 4) (b ! 5) (b ! 6) (b ! 7),
      Col (b ! 8) (b ! 9) (b ! 10) (b ! 11), Col (b ! 12) (b ! 13) (b ! 14) (b ! 15))"

lemma col_of_word_of_col [simp]: "col_of_word (word_of_col c) = c"
  by (cases c) (auto simp: col_of_word_def bit_simps intro!: bit_word_eqI)

lemma word_of_col_of_word [simp]: "word_of_col (col_of_word w) = w"
  using GETU32_PUTU32 [of w "[]"]
  by (simp add: col_of_word_def GETU32_def PUTU32_def)

lemma word_of_col_xor: "word_of_col c XOR word_of_col d = word_of_col (xor_col c d)"
  by (cases c; cases d) (auto simp: bit_simps intro!: bit_word_eqI)

lemma col_of_word_xor: "col_of_word (v XOR w) = xor_col (col_of_word v) (col_of_word w)"
  by (metis col_of_word_of_col word_of_col_of_word word_of_col_xor)

lemma xor_col_cancel [simp]: "xor_col (xor_col c d) d = c"
  by (cases c; cases d) (simp add: xor.assoc)

lemma length_bytes_of_col [simp]: "length (bytes_of_col c) = 4"
  by (cases c) simp

lemma length_bytes_of_state [simp]: "length (bytes_of_state s) = 16"
  by (cases s) simp

lemma state_of_bytes_of_state [simp]: "state_of_bytes (bytes_of_state s) = s"
proof -
  obtain p q r t where s: "s = (p, q, r, t)" by (cases s)
  show ?thesis
    unfolding s by (cases p; cases q; cases r; cases t) (simp add: state_of_bytes_def)
qed

lemma list16_cases:
  assumes "length b = 16"
  obtains b0 b1 b2 b3 b4 b5 b6 b7 b8 b9 b10 b11 b12 b13 b14 b15 where
    "b = [b0, b1, b2, b3, b4, b5, b6, b7, b8, b9, b10, b11, b12, b13, b14, b15]"
  using assms by (auto simp: numeral_eq_Suc length_Suc_conv)

lemma bytes_of_state_of_bytes [simp]:
  assumes "length b = 16"
  shows "bytes_of_state (state_of_bytes b) = b"
  by (rule list16_cases [OF assms]) (simp add: state_of_bytes_def)

section \<open>The transformations of a round\<close>

fun sub_col :: "col \<Rightarrow> col" where
  "sub_col (Col a b c d) = Col (sbox a) (sbox b) (sbox c) (sbox d)"

fun inv_sub_col :: "col \<Rightarrow> col" where
  "inv_sub_col (Col a b c d) = Col (inv_sbox a) (inv_sbox b) (inv_sbox c) (inv_sbox d)"

fun mix_col :: "col \<Rightarrow> col" where
  "mix_col (Col a b c d) =
     Col (xtime a XOR mul3 b XOR c XOR d) (a XOR xtime b XOR mul3 c XOR d)
         (a XOR b XOR xtime c XOR mul3 d) (mul3 a XOR b XOR c XOR xtime d)"

fun inv_mix_col :: "col \<Rightarrow> col" where
  "inv_mix_col (Col a b c d) =
     Col (mul14 a XOR mul11 b XOR mul13 c XOR mul9 d) (mul9 a XOR mul14 b XOR mul11 c XOR mul13 d)
         (mul13 a XOR mul9 b XOR mul14 c XOR mul11 d) (mul11 a XOR mul13 b XOR mul9 c XOR mul14 d)"

fun map_state :: "(col \<Rightarrow> col) \<Rightarrow> aes_state \<Rightarrow> aes_state" where
  "map_state f (p, q, r, s) = (f p, f q, f r, f s)"

definition sub_bytes :: "aes_state \<Rightarrow> aes_state" where
  "sub_bytes = map_state sub_col"

definition inv_sub_bytes :: "aes_state \<Rightarrow> aes_state" where
  "inv_sub_bytes = map_state inv_sub_col"

definition mix_columns :: "aes_state \<Rightarrow> aes_state" where
  "mix_columns = map_state mix_col"

definition inv_mix_columns :: "aes_state \<Rightarrow> aes_state" where
  "inv_mix_columns = map_state inv_mix_col"

fun shift_rows :: "aes_state \<Rightarrow> aes_state" where
  "shift_rows (Col a0 a1 a2 a3, Col b0 b1 b2 b3, Col c0 c1 c2 c3, Col d0 d1 d2 d3) =
     (Col a0 b1 c2 d3, Col b0 c1 d2 a3, Col c0 d1 a2 b3, Col d0 a1 b2 c3)"

fun inv_shift_rows :: "aes_state \<Rightarrow> aes_state" where
  "inv_shift_rows (Col a0 a1 a2 a3, Col b0 b1 b2 b3, Col c0 c1 c2 c3, Col d0 d1 d2 d3) =
     (Col a0 d1 c2 b3, Col b0 a1 d2 c3, Col c0 b1 a2 d3, Col d0 c1 b2 a3)"

fun xor_state :: "aes_state \<Rightarrow> aes_state \<Rightarrow> aes_state" where
  "xor_state (p, q, r, s) (p', q', r', s') =
     (xor_col p p', xor_col q q', xor_col r r', xor_col s s')"

text \<open>The round key of round \<open>r\<close> is the words \<open>4r\<close> to \<open>4r + 3\<close> of the schedule.\<close>

definition round_key :: "u32 list \<Rightarrow> nat \<Rightarrow> aes_state" where
  "round_key w r =
     (col_of_word (w ! (4 * r)), col_of_word (w ! (4 * r + 1)),
      col_of_word (w ! (4 * r + 2)), col_of_word (w ! (4 * r + 3)))"

definition add_round_key :: "u32 list \<Rightarrow> nat \<Rightarrow> aes_state \<Rightarrow> aes_state" where
  "add_round_key w r s = xor_state s (round_key w r)"

lemma state_cases:
  obtains a0 a1 a2 a3 b0 b1 b2 b3 c0 c1 c2 c3 d0 d1 d2 d3 where
    "s = (Col a0 a1 a2 a3, Col b0 b1 b2 b3, Col c0 c1 c2 c3, Col d0 d1 d2 d3)"
  by (metis col.exhaust surj_pair)

lemma inv_sub_col_sub_col [simp]: "inv_sub_col (sub_col c) = c"
  by (cases c) simp

lemma inv_mix_col_mix_col [simp]: "inv_mix_col (mix_col c) = c"
  by (cases c) (simp add: mul_defs xtime_xor xor_simps)

lemma inv_mix_col_xor: "inv_mix_col (xor_col c d) = xor_col (inv_mix_col c) (inv_mix_col d)"
  by (cases c; cases d) (simp add: mul_defs xtime_xor xor_simps)

lemma map_state_inverse: "(\<And>c. g (f c) = c) \<Longrightarrow> map_state g (map_state f s) = s"
  by (cases s) simp

lemma inv_sub_bytes_sub_bytes [simp]: "inv_sub_bytes (sub_bytes s) = s"
  by (simp add: inv_sub_bytes_def sub_bytes_def map_state_inverse)

lemma inv_mix_columns_mix_columns [simp]: "inv_mix_columns (mix_columns s) = s"
  by (simp add: inv_mix_columns_def mix_columns_def map_state_inverse)

lemma inv_shift_rows_shift_rows [simp]: "inv_shift_rows (shift_rows s) = s"
  by (rule state_cases [of s]) simp

lemma add_round_key_twice [simp]: "add_round_key w r (add_round_key w r s) = s"
  by (cases s) (simp add: add_round_key_def round_key_def)

lemma inv_sub_bytes_inv_shift_rows:
  "inv_sub_bytes (inv_shift_rows s) = inv_shift_rows (inv_sub_bytes s)"
  by (rule state_cases [of s]) (simp add: inv_sub_bytes_def)

lemma inv_mix_columns_xor:
  "inv_mix_columns (xor_state s t) = xor_state (inv_mix_columns s) (inv_mix_columns t)"
  by (cases s; cases t) (simp add: inv_mix_columns_def inv_mix_col_xor)

section \<open>The cipher and the inverse cipher\<close>

definition fips_round :: "u32 list \<Rightarrow> nat \<Rightarrow> aes_state \<Rightarrow> aes_state" where
  "fips_round w r s = add_round_key w r (mix_columns (shift_rows (sub_bytes s)))"

definition fips_cipher :: "nat \<Rightarrow> u32 list \<Rightarrow> bytes \<Rightarrow> bytes" where
  "fips_cipher nr w b =
     bytes_of_state (add_round_key w nr (shift_rows (sub_bytes
       (fold (fips_round w) [1..<nr] (add_round_key w 0 (state_of_bytes b))))))"

definition fips_inv_round :: "u32 list \<Rightarrow> nat \<Rightarrow> aes_state \<Rightarrow> aes_state" where
  "fips_inv_round w r s =
     inv_mix_columns (add_round_key w r (inv_sub_bytes (inv_shift_rows s)))"

definition fips_inv_cipher :: "nat \<Rightarrow> u32 list \<Rightarrow> bytes \<Rightarrow> bytes" where
  "fips_inv_cipher nr w b =
     bytes_of_state (add_round_key w 0 (inv_sub_bytes (inv_shift_rows
       (fold (fips_inv_round w) (rev [1..<nr]) (add_round_key w nr (state_of_bytes b))))))"

lemma length_fips_cipher [simp]:
  "length (fips_cipher nr w b) = 16" "length (fips_inv_cipher nr w b) = 16"
  by (simp_all add: fips_cipher_def fips_inv_cipher_def)

lemma fips_inv_rounds_undo:
  "fold (fips_inv_round w) (rev rs) (shift_rows (sub_bytes (fold (fips_round w) rs s))) =
     shift_rows (sub_bytes s)"
  by (induction rs rule: rev_induct)
    (simp_all add: fips_inv_round_def fips_round_def)

theorem fips_inv_cipher_cipher:
  assumes "length b = 16"
  shows "fips_inv_cipher nr w (fips_cipher nr w b) = b"
  using assms by (simp add: fips_inv_cipher_def fips_cipher_def fips_inv_rounds_undo)

section \<open>Key expansion\<close>

definition rot_word :: "u32 \<Rightarrow> u32" where
  "rot_word w = (case col_of_word w of Col a b c d \<Rightarrow> word_of_col (Col b c d a))"

definition sub_word :: "u32 \<Rightarrow> u32" where
  "sub_word w = word_of_col (sub_col (col_of_word w))"

text \<open>\<open>fips_rcon i\<close> is the round constant of the \<open>i\<close>-th group, \<open>x^(i-1)\<close> in the top byte.\<close>

definition fips_rcon :: "nat \<Rightarrow> u32" where
  "fips_rcon i = word_of_col (Col ((xtime ^^ (i - 1)) 1) 0 0 0)"

text \<open>The \<open>i\<close>-th word of the schedule of a key of \<open>nk\<close> words.\<close>

function key_word :: "nat \<Rightarrow> bytes \<Rightarrow> nat \<Rightarrow> u32" where
  "key_word nk key i =
     (if nk = 0 then 0
      else if i < nk then GETU32 (drop (4 * i) key)
      else key_word nk key (i - nk) XOR
        (let temp = key_word nk key (i - 1) in
         if i mod nk = 0 then sub_word (rot_word temp) XOR fips_rcon (i div nk)
         else if nk > 6 \<and> i mod nk = 4 then sub_word temp
         else temp))"
  by pat_completeness auto
termination
  by (relation "measure (\<lambda>(nk, key, i). i)") auto

declare key_word.simps [simp del]

lemma key_word_input: "i < nk \<Longrightarrow> key_word nk key i = GETU32 (drop (4 * i) key)"
  by (simp add: key_word.simps [of nk key i])

definition key_expansion :: "nat \<Rightarrow> nat \<Rightarrow> bytes \<Rightarrow> u32 list" where
  "key_expansion nk nr key = map (key_word nk key) [0..<4 * (nr + 1)]"

lemma length_key_expansion [simp]: "length (key_expansion nk nr key) = 4 * (nr + 1)"
  by (simp add: key_expansion_def)

text \<open>
  The cipher reads the words of the schedule up to index \<open>4 nr + 3\<close> only, so two schedules
  that agree there give the same cipher.
\<close>

lemma round_key_cong:
  assumes "\<And>i. i < 4 * (nr + 1) \<Longrightarrow> v ! i = w ! i" "r \<le> nr"
  shows "round_key v r = round_key w r"
  using assms by (simp add: round_key_def)

lemma fips_cipher_cong:
  assumes "\<And>i. i < 4 * (nr + 1) \<Longrightarrow> v ! i = w ! i"
  shows "fips_cipher nr v b = fips_cipher nr w b"
proof -
  have add: "add_round_key v r s = add_round_key w r s" if "r \<le> nr" for r s
    using round_key_cong [OF assms that] by (simp add: add_round_key_def)
  have "fold (fips_round v) [1..<nr] s = fold (fips_round w) [1..<nr] s" for s
    by (rule fold_cong) (simp_all add: fips_round_def add fun_eq_iff)
  then show ?thesis
    by (simp add: fips_cipher_def add)
qed

end
