(* ===== verification/AES_Key.thy ===== *)
theory AES_Key
  imports AES_Tables
begin

text \<open>
  The AES key schedules of \<open>crypto/fipsmodule/aes/aes.c\<close>. An \<open>AES_KEY\<close> is the record of the C
  struct: sixty schedule words and the number of rounds. A pointer that the code tests against
  \<open>NULL\<close> is an option. The accelerated implementations are assembly that the build generates;
  they are the fields of \<open>aes_backend\<close>.

  Main results: the encryption schedule is the key expansion of FIPS-197 (\<open>key_ok\<close>), and the
  decryption schedule holds its round keys in reverse order, all but the first and the last passed
  through the inverse of \<open>MixColumns\<close> (\<open>dkey_ok\<close>).
\<close>

section \<open>Keys and results\<close>

record AES_KEY =
  rd_key :: "u32 list"
  rounds :: nat

definition aes_rounds :: "nat \<Rightarrow> nat" where
  "aes_rounds bits = (if bits = 128 then 10 else if bits = 192 then 12 else 14)"

abbreviation aes_bits :: "nat \<Rightarrow> bool" where
  "aes_bits bits \<equiv> bits = 128 \<or> bits = 192 \<or> bits = 256"

section \<open>The encryption key schedule\<close>

text \<open>The substitution of the rotated and of the plain word, as the code reads it off the tables.\<close>

definition sub_rot_word :: "u32 \<Rightarrow> u32" where
  "sub_rot_word temp =
     (Te2 ! unat (drop_bit 16 temp AND 0xff) AND 0xff000000) XOR
     (Te3 ! unat (drop_bit 8 temp AND 0xff) AND 0x00ff0000) XOR
     (Te0 ! unat (temp AND 0xff) AND 0x0000ff00) XOR
     (Te1 ! unat (drop_bit 24 temp) AND 0x000000ff)"

definition sub_plain_word :: "u32 \<Rightarrow> u32" where
  "sub_plain_word temp =
     (Te2 ! unat (drop_bit 24 temp) AND 0xff000000) XOR
     (Te3 ! unat (drop_bit 16 temp AND 0xff) AND 0x00ff0000) XOR
     (Te0 ! unat (drop_bit 8 temp AND 0xff) AND 0x0000ff00) XOR
     (Te1 ! unat (temp AND 0xff) AND 0x000000ff)"

text \<open>
  One turn of each \<open>while (1)\<close> loop, at loop counter \<open>i\<close>. The pointer \<open>rk\<close> that the code
  advances by 4, 6 or 8 words a turn is the offset \<open>p\<close>. The loops leave when the incremented
  counter reaches 10, 8 or 7, in the last two cases in the middle of the turn.
\<close>

definition expand128_step :: "nat \<Rightarrow> u32 list \<Rightarrow> u32 list" where
  "expand128_step i rk =
     (let p = 4 * i;
          temp = rk ! (p + 3);
          rk = rk[p + 4 := rk ! p XOR sub_rot_word temp XOR rcon ! i];
          rk = rk[p + 5 := rk ! (p + 1) XOR rk ! (p + 4)];
          rk = rk[p + 6 := rk ! (p + 2) XOR rk ! (p + 5)]
      in rk[p + 7 := rk ! (p + 3) XOR rk ! (p + 6)])"

definition expand192_step :: "nat \<Rightarrow> u32 list \<Rightarrow> u32 list" where
  "expand192_step i rk =
     (let p = 6 * i;
          temp = rk ! (p + 5);
          rk = rk[p + 6 := rk ! p XOR sub_rot_word temp XOR rcon ! i];
          rk = rk[p + 7 := rk ! (p + 1) XOR rk ! (p + 6)];
          rk = rk[p + 8 := rk ! (p + 2) XOR rk ! (p + 7)];
          rk = rk[p + 9 := rk ! (p + 3) XOR rk ! (p + 8)]
      in if i + 1 = 8 then rk
         else let rk = rk[p + 10 := rk ! (p + 4) XOR rk ! (p + 9)]
              in rk[p + 11 := rk ! (p + 5) XOR rk ! (p + 10)])"

definition expand256_step :: "nat \<Rightarrow> u32 list \<Rightarrow> u32 list" where
  "expand256_step i rk =
     (let p = 8 * i;
          temp = rk ! (p + 7);
          rk = rk[p + 8 := rk ! p XOR sub_rot_word temp XOR rcon ! i];
          rk = rk[p + 9 := rk ! (p + 1) XOR rk ! (p + 8)];
          rk = rk[p + 10 := rk ! (p + 2) XOR rk ! (p + 9)];
          rk = rk[p + 11 := rk ! (p + 3) XOR rk ! (p + 10)]
      in if i + 1 = 7 then rk
         else let temp = rk ! (p + 11);
                  rk = rk[p + 12 := rk ! (p + 4) XOR sub_plain_word temp];
                  rk = rk[p + 13 := rk ! (p + 5) XOR rk ! (p + 12)];
                  rk = rk[p + 14 := rk ! (p + 6) XOR rk ! (p + 13)]
              in rk[p + 15 := rk ! (p + 7) XOR rk ! (p + 14)])"

definition aes_nohw_set_encrypt_key ::
  "bytes option \<Rightarrow> nat \<Rightarrow> AES_KEY option \<Rightarrow> int \<times> AES_KEY option" where
  "aes_nohw_set_encrypt_key key bits aeskey =
     (case (key, aeskey) of
        (Some key, Some ak) \<Rightarrow>
          if \<not> aes_bits bits then (-2, Some ak)
          else
            let rk = (rd_key ak)
                  [0 := GETU32 key, 1 := GETU32 (drop 4 key),
                   2 := GETU32 (drop 8 key), 3 := GETU32 (drop 12 key)]
            in if bits = 128 then
                 (0, Some \<lparr>rd_key = fold expand128_step [0..<10] rk, rounds = aes_rounds bits\<rparr>)
               else
                 let rk = rk[4 := GETU32 (drop 16 key), 5 := GETU32 (drop 20 key)]
                 in if bits = 192 then
                      (0, Some \<lparr>rd_key = fold expand192_step [0..<8] rk, rounds = aes_rounds bits\<rparr>)
                    else
                      let rk = rk[6 := GETU32 (drop 24 key), 7 := GETU32 (drop 28 key)]
                      in (0, Some \<lparr>rd_key = fold expand256_step [0..<7] rk,
                                   rounds = aes_rounds bits\<rparr>)
      | _ \<Rightarrow> (-1, aeskey))"

text \<open>\<open>sched n nk key rk\<close>: the first \<open>n\<close> words of \<open>rk\<close> are those of the key expansion.\<close>

definition sched :: "nat \<Rightarrow> nat \<Rightarrow> bytes \<Rightarrow> u32 list \<Rightarrow> bool" where
  "sched n nk key rk \<longleftrightarrow> length rk = 60 \<and> (\<forall>j < n. rk ! j = key_word nk key j)"

lemma sched_nth: "sched n nk key rk \<Longrightarrow> j < n \<Longrightarrow> rk ! j = key_word nk key j"
  by (simp add: sched_def)

lemma sched_Suc: "sched n nk key rk \<Longrightarrow> n = m \<Longrightarrow> sched m nk key rk"
  by simp

lemma sched_write:
  "\<lbrakk>sched n nk key rk; n < 60; v = key_word nk key n\<rbrakk> \<Longrightarrow> sched (Suc n) nk key (rk[n := v])"
  by (auto simp: sched_def less_Suc_eq)

lemma mask_byte_of_col:
  "word_of_col (Col a b c d) AND 0xff000000 = word_of_col (Col a 0 0 0)"
  "word_of_col (Col a b c d) AND 0x00ff0000 = word_of_col (Col 0 b 0 0)"
  "word_of_col (Col a b c d) AND 0x0000ff00 = word_of_col (Col 0 0 c 0)"
  "word_of_col (Col a b c d) AND 0x000000ff = word_of_col (Col 0 0 0 d)"
proof -
  have masks: "(0xff000000 :: u32) = push_bit 24 (mask 8)" "(0x00ff0000 :: u32) = push_bit 16 (mask 8)"
    "(0x0000ff00 :: u32) = push_bit 8 (mask 8)" "(0x000000ff :: u32) = mask 8"
    by (simp_all add: mask_eq_exp_minus_1)
  show "word_of_col (Col a b c d) AND 0xff000000 = word_of_col (Col a 0 0 0)"
    "word_of_col (Col a b c d) AND 0x00ff0000 = word_of_col (Col 0 b 0 0)"
    "word_of_col (Col a b c d) AND 0x0000ff00 = word_of_col (Col 0 0 c 0)"
    "word_of_col (Col a b c d) AND 0x000000ff = word_of_col (Col 0 0 0 d)"
    unfolding masks by (auto intro!: bit_word_eqI simp: bit_simps dest: bit_u8_less)
qed

lemma sub_rot_word_spec: "sub_rot_word w = sub_word (rot_word w)"
  by (simp add: sub_rot_word_def aes_tables mask_byte_of_col word_of_col_xor sub_word_def
      rot_word_def col_of_word_def [of w] del: word_of_col.simps)

lemma sub_plain_word_spec: "sub_plain_word w = sub_word w"
  by (simp add: sub_plain_word_def aes_tables mask_byte_of_col word_of_col_xor sub_word_def
      col_of_word_def [of w] del: word_of_col.simps)

lemma rcon_entries: "rcon = map (\<lambda>i. fips_rcon (Suc i)) [0..<10]"
  by code_simp

lemma rcon_spec: "i < 10 \<Longrightarrow> rcon ! i = fips_rcon (Suc i)"
  by (simp only: rcon_entries) simp

text \<open>Each turn of a loop extends the prefix of the schedule that is the key expansion.\<close>

lemma key_word_mod:
  assumes "0 < nk" "m + nk = Suc t"
  shows "key_word nk key (Suc t) = key_word nk key m XOR
     (let temp = key_word nk key t in
      if m mod nk = 0 then sub_word (rot_word temp) XOR fips_rcon (Suc (m div nk))
      else if nk > 6 \<and> m mod nk = 4 then sub_word temp
      else temp)"
proof -
  have "Suc t - nk = m" "Suc t mod nk = m mod nk" "Suc t div nk = Suc (m div nk)" "\<not> Suc t < nk"
    using assms(1) unfolding assms(2) [symmetric]
    by (simp_all add: div_add_self2)
  then show ?thesis
    using assms(1) by (simp add: key_word.simps [of nk key "Suc t"] Let_def)
qed

lemma sched_put_first:
  "\<lbrakk>sched n nk key rk; n = m + nk; n = Suc t; n < 60; 0 < nk; m = nk * i; i < 10\<rbrakk>
   \<Longrightarrow> sched (Suc n) nk key (rk[n := rk ! m XOR sub_rot_word (rk ! t) XOR rcon ! i])"
  using key_word_mod [of nk m t key]
  by (intro sched_write) (auto simp: sched_nth sub_rot_word_spec rcon_spec xor.assoc)

lemma sched_put_fourth:
  "\<lbrakk>sched n nk key rk; n = m + nk; n = Suc t; n < 60; 6 < nk; m mod nk = 4\<rbrakk>
   \<Longrightarrow> sched (Suc n) nk key (rk[n := rk ! m XOR sub_plain_word (rk ! t)])"
  using key_word_mod [of nk m t key]
  by (intro sched_write) (auto simp: sched_nth sub_plain_word_spec)

lemma sched_put:
  "\<lbrakk>sched n nk key rk; n = m + nk; n = Suc t; n < 60; 0 < nk; m mod nk \<noteq> 0;
    nk \<le> 6 \<or> m mod nk \<noteq> 4\<rbrakk>
   \<Longrightarrow> sched (Suc n) nk key (rk[n := rk ! m XOR rk ! t])"
  using key_word_mod [of nk m t key]
  by (intro sched_write) (auto simp: sched_nth)

lemma expand128_step_sched:
  assumes "sched (4 * i + 4) 4 key rk" "i < 10"
  shows "sched (4 * i + 8) 4 key (expand128_step i rk)"
proof -
  define r1 where "r1 = rk[4 * i + 4 := rk ! (4 * i) XOR sub_rot_word (rk ! (4 * i + 3)) XOR rcon ! i]"
  define r2 where "r2 = r1[4 * i + 5 := r1 ! (4 * i + 1) XOR r1 ! (4 * i + 4)]"
  define r3 where "r3 = r2[4 * i + 6 := r2 ! (4 * i + 2) XOR r2 ! (4 * i + 5)]"
  define r4 where "r4 = r3[4 * i + 7 := r3 ! (4 * i + 3) XOR r3 ! (4 * i + 6)]"
  have "sched (4 * i + 5) 4 key r1"
    unfolding r1_def using assms by (intro sched_put_first [THEN sched_Suc]) auto
  then have "sched (4 * i + 6) 4 key r2"
    unfolding r2_def by (rule sched_put [THEN sched_Suc]) (use assms(2) in presburger)+
  then have "sched (4 * i + 7) 4 key r3"
    unfolding r3_def by (rule sched_put [THEN sched_Suc]) (use assms(2) in presburger)+
  then have "sched (4 * i + 8) 4 key r4"
    unfolding r4_def by (rule sched_put [THEN sched_Suc]) (use assms(2) in presburger)+
  then show ?thesis
    by (simp add: expand128_step_def Let_def r1_def r2_def r3_def r4_def)
qed

lemma expand192_step_sched:
  assumes "sched (6 * i + 6) 6 key rk" "i < 8"
  shows "sched (if i = 7 then 52 else 6 * i + 12) 6 key (expand192_step i rk)"
proof -
  define r1 where "r1 = rk[6 * i + 6 := rk ! (6 * i) XOR sub_rot_word (rk ! (6 * i + 5)) XOR rcon ! i]"
  define r2 where "r2 = r1[6 * i + 7 := r1 ! (6 * i + 1) XOR r1 ! (6 * i + 6)]"
  define r3 where "r3 = r2[6 * i + 8 := r2 ! (6 * i + 2) XOR r2 ! (6 * i + 7)]"
  define r4 where "r4 = r3[6 * i + 9 := r3 ! (6 * i + 3) XOR r3 ! (6 * i + 8)]"
  define r5 where "r5 = r4[6 * i + 10 := r4 ! (6 * i + 4) XOR r4 ! (6 * i + 9)]"
  define r6 where "r6 = r5[6 * i + 11 := r5 ! (6 * i + 5) XOR r5 ! (6 * i + 10)]"
  have "sched (6 * i + 7) 6 key r1"
    unfolding r1_def using assms by (intro sched_put_first [THEN sched_Suc]) auto
  then have "sched (6 * i + 8) 6 key r2"
    unfolding r2_def by (rule sched_put [THEN sched_Suc]) (use assms(2) in presburger)+
  then have "sched (6 * i + 9) 6 key r3"
    unfolding r3_def by (rule sched_put [THEN sched_Suc]) (use assms(2) in presburger)+
  then have "sched (6 * i + 10) 6 key r4"
    unfolding r4_def by (rule sched_put [THEN sched_Suc]) (use assms(2) in presburger)+
  note four = this
  show ?thesis
  proof (cases "i = 7")
    case True
    with four show ?thesis
      by (simp add: expand192_step_def Let_def r1_def r2_def r3_def r4_def)
  next
    case False
    with assms(2) have "i < 7" by simp
    have "sched (6 * i + 11) 6 key r5"
      unfolding r5_def using four
      by (rule sched_put [THEN sched_Suc]) (use \<open>i < 7\<close> in presburger)+
    then have "sched (6 * i + 12) 6 key r6"
      unfolding r6_def by (rule sched_put [THEN sched_Suc]) (use \<open>i < 7\<close> in presburger)+
    with False show ?thesis
      by (simp add: expand192_step_def Let_def r1_def r2_def r3_def r4_def r5_def r6_def)
  qed
qed

lemma expand256_step_sched:
  assumes "sched (8 * i + 8) 8 key rk" "i < 7"
  shows "sched (if i = 6 then 60 else 8 * i + 16) 8 key (expand256_step i rk)"
proof -
  define r1 where "r1 = rk[8 * i + 8 := rk ! (8 * i) XOR sub_rot_word (rk ! (8 * i + 7)) XOR rcon ! i]"
  define r2 where "r2 = r1[8 * i + 9 := r1 ! (8 * i + 1) XOR r1 ! (8 * i + 8)]"
  define r3 where "r3 = r2[8 * i + 10 := r2 ! (8 * i + 2) XOR r2 ! (8 * i + 9)]"
  define r4 where "r4 = r3[8 * i + 11 := r3 ! (8 * i + 3) XOR r3 ! (8 * i + 10)]"
  define r5 where "r5 = r4[8 * i + 12 := r4 ! (8 * i + 4) XOR sub_plain_word (r4 ! (8 * i + 11))]"
  define r6 where "r6 = r5[8 * i + 13 := r5 ! (8 * i + 5) XOR r5 ! (8 * i + 12)]"
  define r7 where "r7 = r6[8 * i + 14 := r6 ! (8 * i + 6) XOR r6 ! (8 * i + 13)]"
  define r8 where "r8 = r7[8 * i + 15 := r7 ! (8 * i + 7) XOR r7 ! (8 * i + 14)]"
  have "sched (8 * i + 9) 8 key r1"
    unfolding r1_def using assms by (intro sched_put_first [THEN sched_Suc]) auto
  then have "sched (8 * i + 10) 8 key r2"
    unfolding r2_def by (rule sched_put [THEN sched_Suc]) (use assms(2) in presburger)+
  then have "sched (8 * i + 11) 8 key r3"
    unfolding r3_def by (rule sched_put [THEN sched_Suc]) (use assms(2) in presburger)+
  then have "sched (8 * i + 12) 8 key r4"
    unfolding r4_def by (rule sched_put [THEN sched_Suc]) (use assms(2) in presburger)+
  note four = this
  show ?thesis
  proof (cases "i = 6")
    case True
    with four show ?thesis
      by (simp add: expand256_step_def Let_def r1_def r2_def r3_def r4_def)
  next
    case False
    with assms(2) have "i < 6" by simp
    have "sched (8 * i + 13) 8 key r5"
      unfolding r5_def using four
      by (rule sched_put_fourth [THEN sched_Suc]) (use \<open>i < 6\<close> in presburger)+
    then have "sched (8 * i + 14) 8 key r6"
      unfolding r6_def by (rule sched_put [THEN sched_Suc]) (use \<open>i < 6\<close> in presburger)+
    then have "sched (8 * i + 15) 8 key r7"
      unfolding r7_def by (rule sched_put [THEN sched_Suc]) (use \<open>i < 6\<close> in presburger)+
    then have "sched (8 * i + 16) 8 key r8"
      unfolding r8_def by (rule sched_put [THEN sched_Suc]) (use \<open>i < 6\<close> in presburger)+
    with False show ?thesis
      by (simp add: expand256_step_def Let_def r1_def r2_def r3_def r4_def r5_def r6_def
          r7_def r8_def)
  qed
qed

text \<open>The whole loops, and the schedule that \<open>aes_nohw_set_encrypt_key\<close> returns.\<close>

definition key_words :: "nat \<Rightarrow> nat" where
  "key_words bits = bits div 32"

definition fips_schedule :: "nat \<Rightarrow> bytes \<Rightarrow> u32 list" where
  "fips_schedule bits key = key_expansion (key_words bits) (aes_rounds bits) key"

definition key_ok :: "nat \<Rightarrow> bytes \<Rightarrow> AES_KEY \<Rightarrow> bool" where
  "key_ok bits key ak \<longleftrightarrow> rounds ak = aes_rounds bits \<and> length (rd_key ak) = 60 \<and>
     (\<forall>j < 4 * (aes_rounds bits + 1). rd_key ak ! j = fips_schedule bits key ! j)"

lemma sched_key_ok:
  assumes "sched n (key_words bits) key rk" "4 * (aes_rounds bits + 1) \<le> n"
  shows "key_ok bits key \<lparr>rd_key = rk, rounds = aes_rounds bits\<rparr>"
  using assms by (simp add: key_ok_def sched_def fips_schedule_def key_expansion_def)

lemma expand192_step_full:
  "i < 7 \<Longrightarrow> sched (6 * i + 6) 6 key rk \<Longrightarrow> sched (6 * i + 12) 6 key (expand192_step i rk)"
  using expand192_step_sched [of i key rk] by simp

lemma expand256_step_full:
  "i < 6 \<Longrightarrow> sched (8 * i + 8) 8 key rk \<Longrightarrow> sched (8 * i + 16) 8 key (expand256_step i rk)"
  using expand256_step_sched [of i key rk] by simp

lemma sched_loop:
  assumes "sched nk nk key rk"
    "\<And>i rk. \<lbrakk>i < n; sched (nk * i + nk) nk key rk\<rbrakk> \<Longrightarrow> sched (nk * i + 2 * nk) nk key (f i rk)"
  shows "sched (nk * n + nk) nk key (fold f [0..<n] rk)"
  by (rule fold_upt_induct [where P = "\<lambda>i. sched (nk * i + nk) nk key"])
    (use assms in \<open>auto simp: algebra_simps mult_2_right\<close>)

lemma fold_upt_last: "fold f [0..<Suc n] s = f n (fold f [0..<n] s)"
  by simp

lemma nohw_set_encrypt_key_128:
  assumes "length (rd_key ak) = 60"
  shows "\<exists>ak'. aes_nohw_set_encrypt_key (Some key) 128 (Some ak) = (0, Some ak') \<and> key_ok 128 key ak'"
proof -
  let ?rk = "(rd_key ak)[0 := GETU32 key, 1 := GETU32 (drop 4 key),
    2 := GETU32 (drop 8 key), 3 := GETU32 (drop 12 key)]"
  have "sched 4 4 key ?rk"
    using assms by (auto simp: sched_def key_word_input less_Suc_eq eval_nat_numeral)
  then have "sched (4 * 10 + 4) 4 key (fold expand128_step [0..<10] ?rk)"
    by (rule sched_loop) (use expand128_step_sched in auto)
  then have "key_ok 128 key \<lparr>rd_key = fold expand128_step [0..<10] ?rk, rounds = aes_rounds 128\<rparr>"
    by (intro sched_key_ok [where n = 44]) (simp_all add: aes_rounds_def key_words_def del: upt_rec_numeral)
  then show ?thesis
    by (simp add: aes_nohw_set_encrypt_key_def Let_def del: upt_rec_numeral)
qed

lemma nohw_set_encrypt_key_192:
  assumes "length (rd_key ak) = 60"
  shows "\<exists>ak'. aes_nohw_set_encrypt_key (Some key) 192 (Some ak) = (0, Some ak') \<and> key_ok 192 key ak'"
proof -
  let ?rk = "(rd_key ak)[0 := GETU32 key, 1 := GETU32 (drop 4 key),
    2 := GETU32 (drop 8 key), 3 := GETU32 (drop 12 key), 4 := GETU32 (drop 16 key),
    5 := GETU32 (drop 20 key)]"
  have "sched 6 6 key ?rk"
    using assms by (auto simp: sched_def key_word_input less_Suc_eq eval_nat_numeral)
  then have "sched (6 * 7 + 6) 6 key (fold expand192_step [0..<7] ?rk)"
    by (rule sched_loop) (use expand192_step_full in auto)
  then have "sched 52 6 key (fold expand192_step [0..<8] ?rk)"
    using expand192_step_sched [of 7 key "fold expand192_step [0..<7] ?rk"]
      fold_upt_last [of expand192_step 7 ?rk] by (simp del: upt_rec_numeral upt_Suc)
  then have "key_ok 192 key \<lparr>rd_key = fold expand192_step [0..<8] ?rk, rounds = aes_rounds 192\<rparr>"
    by (intro sched_key_ok [where n = 52]) (simp_all add: aes_rounds_def key_words_def del: upt_rec_numeral)
  then show ?thesis
    by (simp add: aes_nohw_set_encrypt_key_def Let_def del: upt_rec_numeral)
qed

lemma nohw_set_encrypt_key_256:
  assumes "length (rd_key ak) = 60"
  shows "\<exists>ak'. aes_nohw_set_encrypt_key (Some key) 256 (Some ak) = (0, Some ak') \<and> key_ok 256 key ak'"
proof -
  let ?rk = "(rd_key ak)[0 := GETU32 key, 1 := GETU32 (drop 4 key),
    2 := GETU32 (drop 8 key), 3 := GETU32 (drop 12 key), 4 := GETU32 (drop 16 key),
    5 := GETU32 (drop 20 key), 6 := GETU32 (drop 24 key), 7 := GETU32 (drop 28 key)]"
  have "sched 8 8 key ?rk"
    using assms by (auto simp: sched_def key_word_input less_Suc_eq eval_nat_numeral)
  then have "sched (8 * 6 + 8) 8 key (fold expand256_step [0..<6] ?rk)"
    by (rule sched_loop) (use expand256_step_full in auto)
  then have "sched 60 8 key (fold expand256_step [0..<7] ?rk)"
    using expand256_step_sched [of 6 key "fold expand256_step [0..<6] ?rk"]
      fold_upt_last [of expand256_step 6 ?rk] by (simp del: upt_rec_numeral upt_Suc)
  then have "key_ok 256 key \<lparr>rd_key = fold expand256_step [0..<7] ?rk, rounds = aes_rounds 256\<rparr>"
    by (intro sched_key_ok [where n = 60]) (simp_all add: aes_rounds_def key_words_def del: upt_rec_numeral)
  then show ?thesis
    by (simp add: aes_nohw_set_encrypt_key_def Let_def del: upt_rec_numeral)
qed

lemma nohw_set_encrypt_key_ok:
  assumes "aes_bits bits" "length (rd_key ak) = 60"
  shows "\<exists>ak'. aes_nohw_set_encrypt_key (Some key) bits (Some ak) = (0, Some ak') \<and> key_ok bits key ak'"
  using assms(1) nohw_set_encrypt_key_128 [OF assms(2)] nohw_set_encrypt_key_192 [OF assms(2)]
    nohw_set_encrypt_key_256 [OF assms(2)] by auto

section \<open>The decryption key schedule\<close>

record aes_backend =
  hwaes_capable :: bool
  vpaes_capable :: bool
  aes_hw_set_encrypt_key :: "bytes option \<Rightarrow> nat \<Rightarrow> AES_KEY option \<Rightarrow> int \<times> AES_KEY option"
  aes_hw_set_decrypt_key :: "bytes option \<Rightarrow> nat \<Rightarrow> AES_KEY option \<Rightarrow> int \<times> AES_KEY option"
  aes_hw_encrypt :: "bytes \<Rightarrow> AES_KEY \<Rightarrow> bytes"
  aes_hw_decrypt :: "bytes \<Rightarrow> AES_KEY \<Rightarrow> bytes"
  vpaes_set_encrypt_key :: "bytes option \<Rightarrow> nat \<Rightarrow> AES_KEY option \<Rightarrow> int \<times> AES_KEY option"
  vpaes_set_decrypt_key :: "bytes option \<Rightarrow> nat \<Rightarrow> AES_KEY option \<Rightarrow> int \<times> AES_KEY option"
  vpaes_encrypt :: "bytes \<Rightarrow> AES_KEY \<Rightarrow> bytes"
  vpaes_decrypt :: "bytes \<Rightarrow> AES_KEY \<Rightarrow> bytes"

definition AES_set_encrypt_key ::
  "aes_backend \<Rightarrow> bytes option \<Rightarrow> nat \<Rightarrow> AES_KEY option \<Rightarrow> int \<times> AES_KEY option" where
  "AES_set_encrypt_key be key bits aeskey =
     (if bits \<noteq> 128 \<and> bits \<noteq> 192 \<and> bits \<noteq> 256 then (-2, aeskey)
      else if hwaes_capable be then aes_hw_set_encrypt_key be key bits aeskey
      else if vpaes_capable be then vpaes_set_encrypt_key be key bits aeskey
      else aes_nohw_set_encrypt_key key bits aeskey)"

definition swap_word :: "nat \<Rightarrow> nat \<Rightarrow> u32 list \<Rightarrow> u32 list" where
  "swap_word i j rk = (let temp = rk ! i; rk = rk[i := rk ! j] in rk[j := temp])"

definition swap_round_keys :: "nat \<Rightarrow> nat \<Rightarrow> u32 list \<Rightarrow> u32 list" where
  "swap_round_keys i j rk =
     (let rk = swap_word i j rk;
          rk = swap_word (i + 1) (j + 1) rk;
          rk = swap_word (i + 2) (j + 2) rk
      in swap_word (i + 3) (j + 3) rk)"

text \<open>The loop that inverts the order of the round keys, with its two indices.\<close>

function invert_round_keys :: "nat \<Rightarrow> nat \<Rightarrow> u32 list \<Rightarrow> u32 list" where
  "invert_round_keys i j rk =
     (if i < j then invert_round_keys (i + 4) (j - 4) (swap_round_keys i j rk) else rk)"
  by pat_completeness auto
termination
  by (relation "measure (\<lambda>(i, j, rk). j - i)") auto

declare invert_round_keys.simps [simp del]

definition inv_mix_word :: "u32 \<Rightarrow> u32" where
  "inv_mix_word w =
     Td0 ! unat (Te1 ! unat (drop_bit 24 w) AND 0xff) XOR
     Td1 ! unat (Te1 ! unat (drop_bit 16 w AND 0xff) AND 0xff) XOR
     Td2 ! unat (Te1 ! unat (drop_bit 8 w AND 0xff) AND 0xff) XOR
     Td3 ! unat (Te1 ! unat (w AND 0xff) AND 0xff)"

definition inv_mix_step :: "nat \<Rightarrow> u32 list \<Rightarrow> u32 list" where
  "inv_mix_step i rk =
     (let p = 4 * i;
          rk = rk[p := inv_mix_word (rk ! p)];
          rk = rk[p + 1 := inv_mix_word (rk ! (p + 1))];
          rk = rk[p + 2 := inv_mix_word (rk ! (p + 2))]
      in rk[p + 3 := inv_mix_word (rk ! (p + 3))])"

definition aes_nohw_set_decrypt_key ::
  "aes_backend \<Rightarrow> bytes option \<Rightarrow> nat \<Rightarrow> AES_KEY option \<Rightarrow> int \<times> AES_KEY option" where
  "aes_nohw_set_decrypt_key be key bits aeskey =
     (let (status, aeskey) = AES_set_encrypt_key be key bits aeskey in
      if status < 0 then (status, aeskey)
      else case aeskey of
        None \<Rightarrow> (status, None)
      | Some ak \<Rightarrow>
          let rk = invert_round_keys 0 (4 * rounds ak) (rd_key ak)
          in (0, Some (ak\<lparr>rd_key := fold inv_mix_step [1..<rounds ak] rk\<rparr>)))"

definition AES_set_decrypt_key ::
  "aes_backend \<Rightarrow> bytes option \<Rightarrow> nat \<Rightarrow> AES_KEY option \<Rightarrow> int \<times> AES_KEY option" where
  "AES_set_decrypt_key be key bits aeskey =
     (if bits \<noteq> 128 \<and> bits \<noteq> 192 \<and> bits \<noteq> 256 then (-2, aeskey)
      else if hwaes_capable be then aes_hw_set_decrypt_key be key bits aeskey
      else if vpaes_capable be then vpaes_set_decrypt_key be key bits aeskey
      else aes_nohw_set_decrypt_key be key bits aeskey)"

lemma inv_mix_word_spec: "col_of_word (inv_mix_word w) = inv_mix_col (col_of_word w)"
proof -
  have sb: "ucast (word_of_col (mix_col (Col 0 s 0 0))) = s" for s :: u8
    by (auto intro!: bit_word_eqI simp: bit_simps)
  show ?thesis
    by (simp add: inv_mix_word_def aes_tables sb word_of_col_xor col_of_word_def [of w]
        inv_mix_col_xor [symmetric] del: word_of_col.simps mix_col.simps inv_mix_col.simps)
qed

text \<open>Swaps and the inverse transform, seen as operations on whole round keys.\<close>

lemma length_swap_round_keys [simp]: "length (swap_round_keys i j rk) = length rk"
  by (simp add: swap_round_keys_def swap_word_def Let_def)

lemma length_invert_round_keys [simp]: "length (invert_round_keys i j rk) = length rk"
  by (induction i j rk rule: invert_round_keys.induct) (simp add: invert_round_keys.simps)

lemma length_inv_mix_step [simp]: "length (inv_mix_step i rk) = length rk"
  by (simp add: inv_mix_step_def Let_def)

lemma nth_swap_word:
  "\<lbrakk>i < length rk; j < length rk\<rbrakk> \<Longrightarrow>
     swap_word i j rk ! k = (if k = j then rk ! i else if k = i then rk ! j else rk ! k)"
  by (simp add: swap_word_def Let_def nth_list_update)

lemma nth_swap_round_keys:
  assumes "i + 4 \<le> j" "j + 3 < length rk"
  shows "swap_round_keys i j rk ! k =
    rk ! (if i \<le> k \<and> k < i + 4 then k - i + j else if j \<le> k \<and> k < j + 4 then k - j + i else k)"
proof -
  have len: "length (swap_word m n x) = length x" for m n and x :: "u32 list"
    by (simp add: swap_word_def Let_def)
  consider "k = i" | "k = i + 1" | "k = i + 2" | "k = i + 3"
    | "k = j" | "k = j + 1" | "k = j + 2" | "k = j + 3"
    | "k < i" | "i + 4 \<le> k \<and> k < j" | "j + 4 \<le> k"
    by linarith
  then show ?thesis
    using assms by cases (simp_all add: swap_round_keys_def Let_def nth_swap_word len add.commute)
qed

lemma round_key_swap:
  assumes "a < b" "4 * b + 3 < length rk"
  shows "round_key (swap_round_keys (4 * a) (4 * b) rk) r =
    round_key rk (if r = a then b else if r = b then a else r)"
proof -
  consider "r = a" | "r = b" | "r < a" | "a < r \<and> r < b" | "b < r"
    by linarith
  then show ?thesis
    using assms by cases (simp_all add: round_key_def nth_swap_round_keys add.commute)
qed

lemma round_key_invert:
  assumes "4 * b + 3 < length rk"
  shows "round_key (invert_round_keys (4 * a) (4 * b) rk) r =
    round_key rk (if a \<le> r \<and> r \<le> b then a + b - r else r)"
  using assms
proof (induction "b - a" arbitrary: a b rk rule: less_induct)
  case less
  show ?case
  proof (cases "a < b")
    case True
    have "4 * a + 4 = 4 * (a + 1)" "4 * b - 4 = 4 * (b - 1)"
      by simp_all
    then have "round_key (invert_round_keys (4 * a) (4 * b) rk) r =
        round_key (swap_round_keys (4 * a) (4 * b) rk) (if a + 1 \<le> r \<and> r \<le> b - 1 then a + b - r else r)"
      using less True by (subst invert_round_keys.simps) (simp del: mult_Suc_right)
    then show ?thesis
      using True less.prems by (simp add: round_key_swap) arith
  next
    case False
    then have "(if a \<le> r \<and> r \<le> b then a + b - r else r) = r"
      by auto
    with False show ?thesis
      by (subst invert_round_keys.simps) simp
  qed
qed

lemma round_key_inv_mix_step:
  assumes "4 * i + 3 < length rk"
  shows "round_key (inv_mix_step i rk) r =
    (if r = i then inv_mix_columns (round_key rk r) else round_key rk r)"
proof -
  consider "r = i" | "r < i" | "i < r"
    by linarith
  then show ?thesis
    using assms
    by cases (simp_all add: round_key_def inv_mix_step_def Let_def inv_mix_columns_def inv_mix_word_spec)
qed

lemma round_key_inv_mix_loop:
  assumes "4 * n \<le> length rk"
  shows "round_key (fold inv_mix_step [m..<n] rk) r =
    (if m \<le> r \<and> r < n then inv_mix_columns (round_key rk r) else round_key rk r)"
    and "length (fold inv_mix_step [m..<n] rk) = length rk"
  using assms
proof (induction n)
  case (Suc n)
  {
    case 1
    with Suc show ?case by (auto simp: round_key_inv_mix_step)
  next
    case 2
    with Suc show ?case by simp
  }
qed simp_all

definition dkey_ok :: "nat \<Rightarrow> bytes \<Rightarrow> AES_KEY \<Rightarrow> bool" where
  "dkey_ok bits key ak \<longleftrightarrow> rounds ak = aes_rounds bits \<and> length (rd_key ak) = 60 \<and>
     (\<forall>r \<le> aes_rounds bits. round_key (rd_key ak) r =
        (let k = round_key (fips_schedule bits key) (aes_rounds bits - r)
         in if r = 0 \<or> r = aes_rounds bits then k else inv_mix_columns k))"

lemma key_ok_round_key:
  "key_ok bits key ak \<Longrightarrow> r \<le> aes_rounds bits \<Longrightarrow>
     round_key (rd_key ak) r = round_key (fips_schedule bits key) r"
  by (auto simp: key_ok_def intro!: round_key_cong [where nr = "aes_rounds bits"])

lemma invert_key_ok:
  assumes "key_ok bits key ak"
  shows "dkey_ok bits key (ak\<lparr>rd_key := fold inv_mix_step [1..<rounds ak]
    (invert_round_keys 0 (4 * rounds ak) (rd_key ak))\<rparr>)"
proof -
  let ?nr = "aes_rounds bits"
  have nr: "?nr \<le> 14" "0 < ?nr" "rounds ak = ?nr" and len: "length (rd_key ak) = 60"
    using assms by (simp_all add: aes_rounds_def key_ok_def)
  show ?thesis
    using nr len round_key_invert [of ?nr "rd_key ak" 0]
    by (auto simp: dkey_ok_def round_key_inv_mix_loop key_ok_round_key [OF assms] Let_def)
qed

lemma nohw_set_decrypt_key_ok:
  assumes "aes_bits bits" "length (rd_key ak) = 60" "\<not> hwaes_capable be" "\<not> vpaes_capable be"
  shows "\<exists>ak'. aes_nohw_set_decrypt_key be (Some key) bits (Some ak) = (0, Some ak') \<and> dkey_ok bits key ak'"
proof -
  obtain ak' where "aes_nohw_set_encrypt_key (Some key) bits (Some ak) = (0, Some ak')"
    and "key_ok bits key ak'"
    using nohw_set_encrypt_key_ok [OF assms(1,2)] by blast
  with assms invert_key_ok show ?thesis
    by (auto simp: aes_nohw_set_decrypt_key_def AES_set_encrypt_key_def Let_def)
qed

end
