(* ===== verification/AES.thy ===== *)
theory AES
  imports AES_Key
begin

text \<open>
  The AES block functions of \<open>crypto/fipsmodule/aes/aes.c\<close>: the portable table-driven ones
  (\<open>aes_nohw_*\<close>) and the public entry points that dispatch on the capabilities of the processor.
  A block is the list of its sixteen bytes. \<open>backend_ok\<close> says that an accelerated
  implementation that is reported as available computes AES.

  Main results: the table-driven functions are the cipher and the inverse cipher of FIPS-197, and
  decryption undoes encryption for every key size and backend. The locale \<open>block_cipher\<close> is what
  the modes of operation rely on; it is interpreted here on AES.
\<close>

section \<open>The portable block functions\<close>

type_synonym aes_words = "u32 \<times> u32 \<times> u32 \<times> u32"

definition te_word :: "u32 \<Rightarrow> u32 \<Rightarrow> u32 \<Rightarrow> u32 \<Rightarrow> u32 \<Rightarrow> u32" where
  "te_word s0 s1 s2 s3 k =
     Te0 ! unat (drop_bit 24 s0) XOR Te1 ! unat (drop_bit 16 s1 AND 0xff) XOR
     Te2 ! unat (drop_bit 8 s2 AND 0xff) XOR Te3 ! unat (s3 AND 0xff) XOR k"

text \<open>One full round with the round key at word offset \<open>p\<close>.\<close>

definition enc_round :: "u32 list \<Rightarrow> nat \<Rightarrow> aes_words \<Rightarrow> aes_words" where
  "enc_round rk p s = (case s of (s0, s1, s2, s3) \<Rightarrow>
     (te_word s0 s1 s2 s3 (rk ! p), te_word s1 s2 s3 s0 (rk ! (p + 1)),
      te_word s2 s3 s0 s1 (rk ! (p + 2)), te_word s3 s0 s1 s2 (rk ! (p + 3))))"

text \<open>
  The loop over the full rounds does two rounds a turn and leaves between them when the counter
  \<open>r\<close> reaches zero; \<open>p\<close> is the offset of the pointer \<open>rk\<close>. It is entered with
  \<open>r = rounds / 2\<close>, which is 5, 6 or 7, so the equation for 0 is never used.
\<close>

fun enc_loop :: "u32 list \<Rightarrow> nat \<Rightarrow> nat \<Rightarrow> aes_words \<Rightarrow> aes_words \<times> nat" where
  "enc_loop rk p 0 s = (s, p)"
| "enc_loop rk p (Suc r) s =
     (let t = enc_round rk (p + 4) s;
          p = p + 8
      in if r = 0 then (t, p) else enc_loop rk p r (enc_round rk p t))"

definition te_last :: "u32 \<Rightarrow> u32 \<Rightarrow> u32 \<Rightarrow> u32 \<Rightarrow> u32 \<Rightarrow> u32" where
  "te_last t0 t1 t2 t3 k =
     (Te2 ! unat (drop_bit 24 t0) AND 0xff000000) XOR
     (Te3 ! unat (drop_bit 16 t1 AND 0xff) AND 0x00ff0000) XOR
     (Te0 ! unat (drop_bit 8 t2 AND 0xff) AND 0x0000ff00) XOR
     (Te1 ! unat (t3 AND 0xff) AND 0x000000ff) XOR k"

definition aes_nohw_encrypt :: "bytes \<Rightarrow> AES_KEY \<Rightarrow> bytes" where
  "aes_nohw_encrypt inp key =
     (let rk = rd_key key;
          s0 = GETU32 inp XOR rk ! 0;
          s1 = GETU32 (drop 4 inp) XOR rk ! 1;
          s2 = GETU32 (drop 8 inp) XOR rk ! 2;
          s3 = GETU32 (drop 12 inp) XOR rk ! 3;
          ((t0, t1, t2, t3), p) = enc_loop rk 0 (rounds key div 2) (s0, s1, s2, s3)
      in PUTU32 (te_last t0 t1 t2 t3 (rk ! p)) @
         PUTU32 (te_last t1 t2 t3 t0 (rk ! (p + 1))) @
         PUTU32 (te_last t2 t3 t0 t1 (rk ! (p + 2))) @
         PUTU32 (te_last t3 t0 t1 t2 (rk ! (p + 3))))"

definition td_word :: "u32 \<Rightarrow> u32 \<Rightarrow> u32 \<Rightarrow> u32 \<Rightarrow> u32 \<Rightarrow> u32" where
  "td_word s0 s1 s2 s3 k =
     Td0 ! unat (drop_bit 24 s0) XOR Td1 ! unat (drop_bit 16 s1 AND 0xff) XOR
     Td2 ! unat (drop_bit 8 s2 AND 0xff) XOR Td3 ! unat (s3 AND 0xff) XOR k"

definition dec_round :: "u32 list \<Rightarrow> nat \<Rightarrow> aes_words \<Rightarrow> aes_words" where
  "dec_round rk p s = (case s of (s0, s1, s2, s3) \<Rightarrow>
     (td_word s0 s3 s2 s1 (rk ! p), td_word s1 s0 s3 s2 (rk ! (p + 1)),
      td_word s2 s1 s0 s3 (rk ! (p + 2)), td_word s3 s2 s1 s0 (rk ! (p + 3))))"

fun dec_loop :: "u32 list \<Rightarrow> nat \<Rightarrow> nat \<Rightarrow> aes_words \<Rightarrow> aes_words \<times> nat" where
  "dec_loop rk p 0 s = (s, p)"
| "dec_loop rk p (Suc r) s =
     (let t = dec_round rk (p + 4) s;
          p = p + 8
      in if r = 0 then (t, p) else dec_loop rk p r (dec_round rk p t))"

definition td_last :: "u32 \<Rightarrow> u32 \<Rightarrow> u32 \<Rightarrow> u32 \<Rightarrow> u32 \<Rightarrow> u32" where
  "td_last t0 t1 t2 t3 k =
     push_bit 24 (ucast (Td4 ! unat (drop_bit 24 t0))) XOR
     push_bit 16 (ucast (Td4 ! unat (drop_bit 16 t1 AND 0xff))) XOR
     push_bit 8 (ucast (Td4 ! unat (drop_bit 8 t2 AND 0xff))) XOR
     ucast (Td4 ! unat (t3 AND 0xff)) XOR k"

definition aes_nohw_decrypt :: "bytes \<Rightarrow> AES_KEY \<Rightarrow> bytes" where
  "aes_nohw_decrypt inp key =
     (let rk = rd_key key;
          s0 = GETU32 inp XOR rk ! 0;
          s1 = GETU32 (drop 4 inp) XOR rk ! 1;
          s2 = GETU32 (drop 8 inp) XOR rk ! 2;
          s3 = GETU32 (drop 12 inp) XOR rk ! 3;
          ((t0, t1, t2, t3), p) = dec_loop rk 0 (rounds key div 2) (s0, s1, s2, s3)
      in PUTU32 (td_last t0 t3 t2 t1 (rk ! p)) @
         PUTU32 (td_last t1 t0 t3 t2 (rk ! (p + 1))) @
         PUTU32 (td_last t2 t1 t0 t3 (rk ! (p + 2))) @
         PUTU32 (td_last t3 t2 t1 t0 (rk ! (p + 3))))"

section \<open>The block functions against FIPS-197\<close>

fun state_of_words :: "aes_words \<Rightarrow> aes_state" where
  "state_of_words (s0, s1, s2, s3) =
     (col_of_word s0, col_of_word s1, col_of_word s2, col_of_word s3)"

lemma word_of_col_bytes:
  "push_bit 24 (ucast a) XOR push_bit 16 (ucast b) XOR push_bit 8 (ucast c) XOR ucast d XOR k =
     word_of_col (Col a b c d) XOR k"
proof -
  have "word_of_col (Col a b c d) =
     push_bit 24 (ucast a) XOR push_bit 16 (ucast b) XOR push_bit 8 (ucast c) XOR ucast d"
    by (auto intro!: bit_word_eqI simp: bit_simps dest: bit_u8_less)
  then show ?thesis
    by (simp only: xor.assoc)
qed

lemma mix_col_xor: "mix_col (xor_col c d) = xor_col (mix_col c) (mix_col d)"
  by (cases c; cases d) (simp add: mul_defs xtime_xor xor_simps)

lemmas word_rules = aes_tables word_of_col_xor mask_byte_of_col
  mix_col_xor [symmetric] inv_mix_col_xor [symmetric] xor.assoc [symmetric]

lemma te_word_spec:
  "col_of_word (te_word s0 s1 s2 s3 k) =
     xor_col (mix_col (Col (sbox (ucast (drop_bit 24 s0))) (sbox (ucast (drop_bit 16 s1)))
       (sbox (ucast (drop_bit 8 s2))) (sbox (ucast s3)))) (col_of_word k)"
  by (simp add: te_word_def col_of_word_xor word_rules
      del: word_of_col.simps mix_col.simps)

lemma td_word_spec:
  "col_of_word (td_word s0 s1 s2 s3 k) =
     xor_col (inv_mix_col (Col (inv_sbox (ucast (drop_bit 24 s0))) (inv_sbox (ucast (drop_bit 16 s1)))
       (inv_sbox (ucast (drop_bit 8 s2))) (inv_sbox (ucast s3)))) (col_of_word k)"
  by (simp add: td_word_def col_of_word_xor word_rules
      del: word_of_col.simps inv_mix_col.simps)

lemma te_last_spec:
  "col_of_word (te_last s0 s1 s2 s3 k) =
     xor_col (Col (sbox (ucast (drop_bit 24 s0))) (sbox (ucast (drop_bit 16 s1)))
       (sbox (ucast (drop_bit 8 s2))) (sbox (ucast s3))) (col_of_word k)"
  by (simp add: te_last_def col_of_word_xor word_rules del: word_of_col.simps)

lemma td_last_spec:
  "col_of_word (td_last s0 s1 s2 s3 k) =
     xor_col (Col (inv_sbox (ucast (drop_bit 24 s0))) (inv_sbox (ucast (drop_bit 16 s1)))
       (inv_sbox (ucast (drop_bit 8 s2))) (inv_sbox (ucast s3))) (col_of_word k)"
  by (simp add: td_last_def aes_tables word_of_col_bytes col_of_word_xor del: word_of_col.simps)

lemma enc_round_spec:
  "state_of_words (enc_round rk (4 * r) s) = fips_round rk r (state_of_words s)"
proof -
  obtain s0 s1 s2 s3 where "s = (s0, s1, s2, s3)" by (cases s)
  then show ?thesis
    by (simp add: enc_round_def te_word_spec fips_round_def add_round_key_def round_key_def
        mix_columns_def sub_bytes_def col_of_word_def [of s0] col_of_word_def [of s1]
        col_of_word_def [of s2] col_of_word_def [of s3] del: mix_col.simps)
qed

lemma dec_round_spec:
  "state_of_words (dec_round rk (4 * r) s) =
     xor_state (inv_mix_columns (inv_sub_bytes (inv_shift_rows (state_of_words s)))) (round_key rk r)"
proof -
  obtain s0 s1 s2 s3 where "s = (s0, s1, s2, s3)" by (cases s)
  then show ?thesis
    by (simp add: dec_round_def td_word_spec round_key_def
        inv_mix_columns_def inv_sub_bytes_def col_of_word_def [of s0] col_of_word_def [of s1]
        col_of_word_def [of s2] col_of_word_def [of s3] del: inv_mix_col.simps)
qed

text \<open>
  Both loops run the rounds \<open>q + 1\<close> to \<open>q + 2 r - 1\<close> in order, two a turn.
\<close>

lemma two_round_loop:
  assumes "\<And>k s. state_of_words (f k s) = g k (state_of_words s)" "0 < r"
    and "\<And>k s. l k 0 s = (s, 4 * k)"
    and "\<And>k n s. l k (Suc n) s =
      (if n = 0 then (f (k + 1) s, 4 * (k + 2)) else l (k + 2) n (f (k + 2) (f (k + 1) s)))"
  shows "\<exists>t. l q r s = (t, 4 * (q + 2 * r)) \<and>
     state_of_words t = fold g [q + 1..<q + 2 * r] (state_of_words s)"
  using assms(2)
proof (induction r arbitrary: q s)
  case (Suc r)
  show ?case
  proof (cases "r = 0")
    case True
    then show ?thesis
      by (simp add: assms(1,4) upt_conv_Cons)
  next
    case False
    then obtain t where run: "l (q + 2) r (f (q + 2) (f (q + 1) s)) = (t, 4 * (q + 2 + 2 * r))"
      and t: "state_of_words t =
        fold g [q + 2 + 1..<q + 2 + 2 * r] (g (q + 2) (g (q + 1) (state_of_words s)))"
      using Suc.IH [of "q + 2" "f (q + 2) (f (q + 1) s)"] by (auto simp: assms(1))
    have rounds: "[q + 1..<q + 2 * Suc r] = (q + 1) # (q + 2) # [q + 2 + 1..<q + 2 + 2 * r]"
      using False by (simp add: upt_conv_Cons)
    show ?thesis
    proof (intro exI conjI)
      show "l q (Suc r) s = (t, 4 * (q + 2 * Suc r))"
        using run False by (simp add: assms(4))
      show "state_of_words t = fold g [q + 1..<q + 2 * Suc r] (state_of_words s)"
        by (simp only: rounds fold_simps t)
    qed
  qed
qed simp

lemma enc_loop_spec:
  "0 < r \<Longrightarrow> \<exists>t. enc_loop rk (4 * q) r s = (t, 4 * (q + 2 * r)) \<and>
     state_of_words t = fold (fips_round rk) [q + 1..<q + 2 * r] (state_of_words s)"
  by (rule two_round_loop [where l = "\<lambda>k. enc_loop rk (4 * k)" and f = "\<lambda>k. enc_round rk (4 * k)",
      OF enc_round_spec])
    (auto simp: Let_def algebra_simps)

definition eq_inv_round :: "u32 list \<Rightarrow> nat \<Rightarrow> aes_state \<Rightarrow> aes_state" where
  "eq_inv_round rk r s = xor_state (inv_mix_columns (inv_sub_bytes (inv_shift_rows s))) (round_key rk r)"

lemma dec_round_eq_inv_round:
  "state_of_words (dec_round rk (4 * r) s) = eq_inv_round rk r (state_of_words s)"
  by (simp only: dec_round_spec eq_inv_round_def)

lemma dec_loop_spec:
  "0 < r \<Longrightarrow> \<exists>t. dec_loop rk (4 * q) r s = (t, 4 * (q + 2 * r)) \<and>
     state_of_words t = fold (eq_inv_round rk) [q + 1..<q + 2 * r] (state_of_words s)"
  by (rule two_round_loop [where l = "\<lambda>k. dec_loop rk (4 * k)" and f = "\<lambda>k. dec_round rk (4 * k)",
      OF dec_round_eq_inv_round])
    (auto simp: Let_def algebra_simps)

text \<open>The first key addition and the stores at the ends of the block functions.\<close>

lemma initial_state:
  assumes "length inp = 16"
  shows "state_of_words (GETU32 inp XOR rk ! 0, GETU32 (drop 4 inp) XOR rk ! 1,
      GETU32 (drop 8 inp) XOR rk ! 2, GETU32 (drop 12 inp) XOR rk ! 3) =
    add_round_key rk 0 (state_of_bytes inp)"
proof -
  have "col_of_word (GETU32 (drop k inp)) = Col (inp ! k) (inp ! (k + 1)) (inp ! (k + 2)) (inp ! (k + 3))"
    if "k + 3 < 16" for k
  proof -
    have "GETU32 (drop k inp) = word_of_col (Col (inp ! k) (inp ! (k + 1)) (inp ! (k + 2)) (inp ! (k + 3)))"
      using that assms by (simp add: GETU32_def)
    then show ?thesis by (simp del: word_of_col.simps)
  qed
  from this [of 0] this [of 4] this [of 8] this [of 12] show ?thesis
    by (simp add: col_of_word_xor add_round_key_def round_key_def state_of_bytes_def numeral_2_eq_2)
qed

lemma PUTU32_bytes_of_col: "PUTU32 w = bytes_of_col (col_of_word w)"
  by (simp add: PUTU32_def col_of_word_def)

lemma aes_nohw_encrypt_schedule:
  assumes "length inp = 16" "even (rounds key)" "0 < rounds key"
  shows "aes_nohw_encrypt inp key = fips_cipher (rounds key) (rd_key key) inp"
proof -
  let ?rk = "rd_key key"
  have nr: "2 * (rounds key div 2) = rounds key" "0 < rounds key div 2"
    using assms(2,3) by auto
  obtain t0 t1 t2 t3 where
    loop: "enc_loop ?rk 0 (rounds key div 2) (GETU32 inp XOR ?rk ! 0, GETU32 (drop 4 inp) XOR ?rk ! 1,
      GETU32 (drop 8 inp) XOR ?rk ! 2, GETU32 (drop 12 inp) XOR ?rk ! 3) =
      ((t0, t1, t2, t3), 4 * rounds key)"
    and t: "state_of_words (t0, t1, t2, t3) =
      fold (fips_round ?rk) [1..<rounds key] (add_round_key ?rk 0 (state_of_bytes inp))"
    using enc_loop_spec [OF nr(2), of ?rk 0] initial_state [OF assms(1), of ?rk] nr(1)
    by (metis add_0 mult_0_right prod.exhaust One_nat_def)
  show ?thesis
    unfolding fips_cipher_def t [symmetric]
    by (simp add: aes_nohw_encrypt_def Let_def loop [simplified]
        PUTU32_bytes_of_col te_last_spec add_round_key_def round_key_def sub_bytes_def
        col_of_word_def [of t0] col_of_word_def [of t1] col_of_word_def [of t2] col_of_word_def [of t3])
qed

lemma aes_nohw_decrypt_schedule:
  assumes "length inp = 16" "even (rounds key)" "0 < rounds key"
  shows "aes_nohw_decrypt inp key = bytes_of_state (add_round_key (rd_key key) (rounds key)
    (inv_sub_bytes (inv_shift_rows (fold (eq_inv_round (rd_key key)) [1..<rounds key]
      (add_round_key (rd_key key) 0 (state_of_bytes inp))))))"
proof -
  let ?rk = "rd_key key"
  have nr: "2 * (rounds key div 2) = rounds key" "0 < rounds key div 2"
    using assms(2,3) by auto
  obtain t0 t1 t2 t3 where
    loop: "dec_loop ?rk 0 (rounds key div 2) (GETU32 inp XOR ?rk ! 0, GETU32 (drop 4 inp) XOR ?rk ! 1,
      GETU32 (drop 8 inp) XOR ?rk ! 2, GETU32 (drop 12 inp) XOR ?rk ! 3) =
      ((t0, t1, t2, t3), 4 * rounds key)"
    and t: "state_of_words (t0, t1, t2, t3) =
      fold (eq_inv_round ?rk) [1..<rounds key] (add_round_key ?rk 0 (state_of_bytes inp))"
    using dec_loop_spec [OF nr(2), of ?rk 0] initial_state [OF assms(1), of ?rk] nr(1)
    by (metis add_0 mult_0_right prod.exhaust One_nat_def)
  show ?thesis
    unfolding t [symmetric]
    by (simp add: aes_nohw_decrypt_def Let_def loop [simplified]
        PUTU32_bytes_of_col td_last_spec add_round_key_def round_key_def inv_sub_bytes_def
        col_of_word_def [of t0] col_of_word_def [of t1] col_of_word_def [of t2] col_of_word_def [of t3])
qed

text \<open>The equivalent inverse cipher of the code is the inverse cipher of the standard.\<close>

lemma eq_inv_rounds:
  assumes "dkey_ok bits key ak" "n \<le> aes_rounds bits"
  shows "fold (eq_inv_round (rd_key ak)) [1..<n] s =
    fold (fips_inv_round (fips_schedule bits key)) (map (\<lambda>r. aes_rounds bits - r) [1..<n]) s"
  using assms(2)
proof (induction n)
  case (Suc n)
  show ?case
  proof (cases "n = 0")
    case False
    with Suc.prems have "round_key (rd_key ak) n =
        inv_mix_columns (round_key (fips_schedule bits key) (aes_rounds bits - n))"
      using assms(1) by (simp add: dkey_ok_def Let_def)
    then have "eq_inv_round (rd_key ak) n t =
        fips_inv_round (fips_schedule bits key) (aes_rounds bits - n) t" for t
      by (simp add: eq_inv_round_def fips_inv_round_def add_round_key_def inv_mix_columns_xor)
    with False Suc show ?thesis by simp
  qed simp
qed simp

lemma map_minus_upt: "map (\<lambda>r. n - r) [1..<n] = rev [1..<n :: nat]"
  by (rule nth_equalityI) (auto simp: rev_nth)

lemma aes_rounds_even: "even (aes_rounds bits)" "0 < aes_rounds bits"
  by (simp_all add: aes_rounds_def)

lemma aes_nohw_encrypt_spec:
  assumes "key_ok bits key ak" "length inp = 16"
  shows "aes_nohw_encrypt inp ak = fips_cipher (aes_rounds bits) (fips_schedule bits key) inp"
proof -
  have nr: "rounds ak = aes_rounds bits"
    and words: "\<And>j. j < 4 * (aes_rounds bits + 1) \<Longrightarrow> rd_key ak ! j = fips_schedule bits key ! j"
    using assms(1) by (simp_all add: key_ok_def)
  have "aes_nohw_encrypt inp ak = fips_cipher (aes_rounds bits) (rd_key ak) inp"
    using aes_nohw_encrypt_schedule [OF assms(2), of ak] aes_rounds_even by (simp only: nr)
  also have "\<dots> = fips_cipher (aes_rounds bits) (fips_schedule bits key) inp"
    by (rule fips_cipher_cong) (rule words)
  finally show ?thesis .
qed

lemma aes_nohw_decrypt_spec:
  assumes "dkey_ok bits key ak" "length inp = 16"
  shows "aes_nohw_decrypt inp ak = fips_inv_cipher (aes_rounds bits) (fips_schedule bits key) inp"
proof -
  have "rounds ak = aes_rounds bits"
    and "round_key (rd_key ak) 0 = round_key (fips_schedule bits key) (aes_rounds bits)"
    and "round_key (rd_key ak) (aes_rounds bits) = round_key (fips_schedule bits key) 0"
    using assms(1) by (simp_all add: dkey_ok_def Let_def)
  then show ?thesis
    using aes_rounds_even [of bits] assms(2) eq_inv_rounds [OF assms(1) order_refl, unfolded map_minus_upt]
    by (simp add: aes_nohw_decrypt_schedule fips_inv_cipher_def add_round_key_def)
qed

section \<open>The public block functions\<close>

definition AES_encrypt :: "aes_backend \<Rightarrow> bytes \<Rightarrow> AES_KEY \<Rightarrow> bytes" where
  "AES_encrypt be inp key =
     (if hwaes_capable be then aes_hw_encrypt be inp key
      else if vpaes_capable be then vpaes_encrypt be inp key
      else aes_nohw_encrypt inp key)"

definition AES_decrypt :: "aes_backend \<Rightarrow> bytes \<Rightarrow> AES_KEY \<Rightarrow> bytes" where
  "AES_decrypt be inp key =
     (if hwaes_capable be then aes_hw_decrypt be inp key
      else if vpaes_capable be then vpaes_decrypt be inp key
      else aes_nohw_decrypt inp key)"

text \<open>
  What the code relies on for the assembly implementations: each pair of key setup and block
  function succeeds and computes the cipher, respectively the inverse cipher, of FIPS-197, with a
  key representation of its own.
\<close>

definition implements_aes ::
  "(bytes option \<Rightarrow> nat \<Rightarrow> AES_KEY option \<Rightarrow> int \<times> AES_KEY option) \<Rightarrow>
   (bytes \<Rightarrow> AES_KEY \<Rightarrow> bytes) \<Rightarrow> (nat \<Rightarrow> u32 list \<Rightarrow> bytes \<Rightarrow> bytes) \<Rightarrow> bool" where
  "implements_aes set_key block spec \<longleftrightarrow>
     (\<forall>bits key ak. aes_bits bits \<and> length (rd_key ak) = 60 \<longrightarrow>
        (\<exists>ak'. set_key (Some key) bits (Some ak) = (0, Some ak') \<and>
          (\<forall>b. length b = 16 \<longrightarrow> block b ak' = spec (aes_rounds bits) (fips_schedule bits key) b)))"

definition backend_ok :: "aes_backend \<Rightarrow> bool" where
  "backend_ok be \<longleftrightarrow>
     (hwaes_capable be \<longrightarrow>
        implements_aes (aes_hw_set_encrypt_key be) (aes_hw_encrypt be) fips_cipher \<and>
        implements_aes (aes_hw_set_decrypt_key be) (aes_hw_decrypt be) fips_inv_cipher) \<and>
     (\<not> hwaes_capable be \<and> vpaes_capable be \<longrightarrow>
        implements_aes (vpaes_set_encrypt_key be) (vpaes_encrypt be) fips_cipher \<and>
        implements_aes (vpaes_set_decrypt_key be) (vpaes_decrypt be) fips_inv_cipher)"

lemma AES_set_key_bits:
  "aes_bits bits \<Longrightarrow> AES_set_encrypt_key be key bits ak =
     (if hwaes_capable be then aes_hw_set_encrypt_key be key bits ak
      else if vpaes_capable be then vpaes_set_encrypt_key be key bits ak
      else aes_nohw_set_encrypt_key key bits ak)"
  "aes_bits bits \<Longrightarrow> AES_set_decrypt_key be key bits ak =
     (if hwaes_capable be then aes_hw_set_decrypt_key be key bits ak
      else if vpaes_capable be then vpaes_set_decrypt_key be key bits ak
      else aes_nohw_set_decrypt_key be key bits ak)"
  by (auto simp: AES_set_encrypt_key_def AES_set_decrypt_key_def)

lemma implements_aesI:
  assumes "\<And>bits key ak. \<lbrakk>aes_bits bits; length (rd_key ak) = 60\<rbrakk> \<Longrightarrow>
    \<exists>ak'. set_key (Some key) bits (Some ak) = (0, Some ak') \<and>
      (\<forall>b. length b = 16 \<longrightarrow> block b ak' = spec (aes_rounds bits) (fips_schedule bits key) b)"
  shows "implements_aes set_key block spec"
  using assms by (simp add: implements_aes_def)

lemma AES_encrypt_implements:
  assumes "backend_ok be"
  shows "implements_aes (AES_set_encrypt_key be) (AES_encrypt be) fips_cipher"
proof (cases "hwaes_capable be \<or> vpaes_capable be")
  case True
  with assms show ?thesis
    by (auto simp: backend_ok_def implements_aes_def AES_set_key_bits AES_encrypt_def)
next
  case False
  show ?thesis
  proof (rule implements_aesI)
    fix bits key and ak :: AES_KEY
    assume "aes_bits bits" "length (rd_key ak) = 60"
    with False obtain ak' where set: "AES_set_encrypt_key be (Some key) bits (Some ak) = (0, Some ak')"
      and ok: "key_ok bits key ak'"
      using nohw_set_encrypt_key_ok [of bits ak key] by (auto simp: AES_set_key_bits)
    moreover have "AES_encrypt be b ak' = fips_cipher (aes_rounds bits) (fips_schedule bits key) b"
      if "length b = 16" for b
      using False aes_nohw_encrypt_spec [OF ok that] by (simp add: AES_encrypt_def)
    ultimately show "\<exists>ak'. AES_set_encrypt_key be (Some key) bits (Some ak) = (0, Some ak') \<and>
        (\<forall>b. length b = 16 \<longrightarrow> AES_encrypt be b ak' = fips_cipher (aes_rounds bits) (fips_schedule bits key) b)"
      by blast
  qed
qed

lemma AES_decrypt_implements:
  assumes "backend_ok be"
  shows "implements_aes (AES_set_decrypt_key be) (AES_decrypt be) fips_inv_cipher"
proof (cases "hwaes_capable be \<or> vpaes_capable be")
  case True
  with assms show ?thesis
    by (auto simp: backend_ok_def implements_aes_def AES_set_key_bits AES_decrypt_def)
next
  case False
  show ?thesis
  proof (rule implements_aesI)
    fix bits key and ak :: AES_KEY
    assume "aes_bits bits" "length (rd_key ak) = 60"
    with False obtain ak' where set: "AES_set_decrypt_key be (Some key) bits (Some ak) = (0, Some ak')"
      and ok: "dkey_ok bits key ak'"
      using nohw_set_decrypt_key_ok [of bits ak be key] by (auto simp: AES_set_key_bits)
    moreover have "AES_decrypt be b ak' = fips_inv_cipher (aes_rounds bits) (fips_schedule bits key) b"
      if "length b = 16" for b
      using False aes_nohw_decrypt_spec [OF ok that] by (simp add: AES_decrypt_def)
    ultimately show "\<exists>ak'. AES_set_decrypt_key be (Some key) bits (Some ak) = (0, Some ak') \<and>
        (\<forall>b. length b = 16 \<longrightarrow> AES_decrypt be b ak' = fips_inv_cipher (aes_rounds bits) (fips_schedule bits key) b)"
      by blast
  qed
qed

lemma implements_aesD:
  assumes "implements_aes set_key block spec" "aes_bits bits" "length (rd_key ak) = 60"
  obtains ak' where "set_key (Some key) bits (Some ak) = (0, Some ak')"
    "\<And>b. length b = 16 \<Longrightarrow> block b ak' = spec (aes_rounds bits) (fips_schedule bits key) b"
  using assms unfolding implements_aes_def by blast

lemma implements_aes_block:
  assumes "implements_aes set_key block spec" "aes_bits bits" "length (rd_key ak) = 60"
    "set_key (Some key) bits (Some ak) = (0, Some ak')" "length b = 16"
  shows "block b ak' = spec (aes_rounds bits) (fips_schedule bits key) b"
  by (rule implements_aesD [OF assms(1-3), of key]) (use assms(4,5) in auto)

end
