(* ===== verification/Block_Cipher.thy ===== *)
theory Block_Cipher
  imports AES
begin

text \<open>
  The interface between the block cipher and its modes of operation. The modes call a block
  function on sixteen-byte blocks; what they rely on is that the function for decryption undoes the
  one for encryption under keys that belong together, and that blocks keep their length. AES
  provides it, under every backend: a key is the pair of schedules that
  \<open>AES_set_encrypt_key\<close> and \<open>AES_set_decrypt_key\<close> make from the same bytes.
\<close>

locale block_cipher =
  fixes valid :: "'k \<Rightarrow> bool"
    and enc :: "'k \<Rightarrow> bytes \<Rightarrow> bytes"
    and dec :: "'k \<Rightarrow> bytes \<Rightarrow> bytes"
  assumes dec_enc: "valid k \<Longrightarrow> length b = 16 \<Longrightarrow> dec k (enc k b) = b"
    and length_enc: "valid k \<Longrightarrow> length b = 16 \<Longrightarrow> length (enc k b) = 16"
    and length_dec: "valid k \<Longrightarrow> length b = 16 \<Longrightarrow> length (dec k b) = 16"

section \<open>AES as a block cipher\<close>

type_synonym aes_key_pair = "aes_backend \<times> AES_KEY \<times> AES_KEY"

text \<open>Schedules that the two setup functions return, with status 0, for the same key bytes.\<close>

definition aes_key_pair :: "aes_key_pair \<Rightarrow> bool" where
  "aes_key_pair k \<longleftrightarrow> (case k of (be, ek, dk) \<Rightarrow>
     backend_ok be \<and>
     (\<exists>key bits ak ak'. aes_bits bits \<and> length (rd_key ak) = 60 \<and> length (rd_key ak') = 60 \<and>
        AES_set_encrypt_key be (Some key) bits (Some ak) = (0, Some ek) \<and>
        AES_set_decrypt_key be (Some key) bits (Some ak') = (0, Some dk)))"

definition aes_enc_block :: "aes_key_pair \<Rightarrow> bytes \<Rightarrow> bytes" where
  "aes_enc_block k b = (case k of (be, ek, dk) \<Rightarrow> AES_encrypt be b ek)"

definition aes_dec_block :: "aes_key_pair \<Rightarrow> bytes \<Rightarrow> bytes" where
  "aes_dec_block k b = (case k of (be, ek, dk) \<Rightarrow> AES_decrypt be b dk)"

lemma aes_key_pairE:
  assumes "aes_key_pair k"
  obtains be ek dk bits key where "k = (be, ek, dk)"
    "\<And>b. length b = 16 \<Longrightarrow> AES_encrypt be b ek = fips_cipher (aes_rounds bits) (fips_schedule bits key) b"
    "\<And>b. length b = 16 \<Longrightarrow> AES_decrypt be b dk = fips_inv_cipher (aes_rounds bits) (fips_schedule bits key) b"
proof -
  obtain be ek dk where k: "k = (be, ek, dk)" by (cases k)
  with assms obtain key bits ak ak' where
    ok: "backend_ok be" and bits: "aes_bits bits"
    and len: "length (rd_key ak) = 60" "length (rd_key ak') = 60"
    and set: "AES_set_encrypt_key be (Some key) bits (Some ak) = (0, Some ek)"
      "AES_set_decrypt_key be (Some key) bits (Some ak') = (0, Some dk)"
    by (auto simp: aes_key_pair_def)
  have "\<And>b. length b = 16 \<Longrightarrow> AES_encrypt be b ek = fips_cipher (aes_rounds bits) (fips_schedule bits key) b"
    by (rule implements_aes_block [OF AES_encrypt_implements [OF ok] bits len(1) set(1)])
  moreover have "\<And>b. length b = 16 \<Longrightarrow> AES_decrypt be b dk = fips_inv_cipher (aes_rounds bits) (fips_schedule bits key) b"
    by (rule implements_aes_block [OF AES_decrypt_implements [OF ok] bits len(2) set(2)])
  ultimately show thesis
    using that k by blast
qed

interpretation aes: block_cipher aes_key_pair aes_enc_block aes_dec_block
proof
  fix k and b :: bytes
  assume k: "aes_key_pair k" and b: "length b = 16"
  show "length (aes_enc_block k b) = 16"
    by (rule aes_key_pairE [OF k]) (simp add: aes_enc_block_def b)
  show "length (aes_dec_block k b) = 16"
    by (rule aes_key_pairE [OF k]) (simp add: aes_dec_block_def b)
  show "aes_dec_block k (aes_enc_block k b) = b"
    by (rule aes_key_pairE [OF k])
      (simp add: aes_dec_block_def aes_enc_block_def b fips_inv_cipher_cipher)
qed

text \<open>The block functions of a key pair keep the length of a block.\<close>

lemma aes_key_pair_lengths:
  assumes "aes_key_pair (be, ek, dk)" "length b = 16"
  shows "length (AES_encrypt be b ek) = 16" "length (AES_decrypt be b dk) = 16"
  using aes.length_enc [OF assms] aes.length_dec [OF assms]
  by (simp_all add: aes_enc_block_def aes_dec_block_def)

lemma aes_key_pair_exists:
  assumes "backend_ok be" "aes_bits bits" "length (rd_key ak) = 60" "length (rd_key ak') = 60"
  shows "\<exists>ek dk. AES_set_encrypt_key be (Some key) bits (Some ak) = (0, Some ek) \<and>
    AES_set_decrypt_key be (Some key) bits (Some ak') = (0, Some dk) \<and> aes_key_pair (be, ek, dk)"
proof -
  obtain ek where ek: "AES_set_encrypt_key be (Some key) bits (Some ak) = (0, Some ek)"
    by (rule implements_aesD [OF AES_encrypt_implements [OF assms(1)] assms(2,3)])
  obtain dk where dk: "AES_set_decrypt_key be (Some key) bits (Some ak') = (0, Some dk)"
    by (rule implements_aesD [OF AES_decrypt_implements [OF assms(1)] assms(2,4)])
  have "aes_key_pair (be, ek, dk)"
    unfolding aes_key_pair_def prod.case
    by (intro conjI exI [of _ key] exI [of _ bits] exI [of _ ak] exI [of _ ak'])
      (use assms ek dk in auto)
  with ek dk show ?thesis by blast
qed

section \<open>Two concrete backends\<close>

text \<open>
  \<open>soft_backend\<close> has no accelerated implementation; \<open>accel_backend\<close> reports one, whose functions
  are the portable ones. Both satisfy \<open>backend_ok\<close>.
\<close>

definition soft_backend :: aes_backend where
  "soft_backend = \<lparr>hwaes_capable = False, vpaes_capable = False,
     aes_hw_set_encrypt_key = aes_nohw_set_encrypt_key, aes_hw_set_decrypt_key = (\<lambda>key bits ak. (-1, ak)),
     aes_hw_encrypt = aes_nohw_encrypt, aes_hw_decrypt = aes_nohw_decrypt,
     vpaes_set_encrypt_key = aes_nohw_set_encrypt_key, vpaes_set_decrypt_key = (\<lambda>key bits ak. (-1, ak)),
     vpaes_encrypt = aes_nohw_encrypt, vpaes_decrypt = aes_nohw_decrypt\<rparr>"

definition accel_backend :: aes_backend where
  "accel_backend = soft_backend
     \<lparr>hwaes_capable := True, aes_hw_set_decrypt_key := aes_nohw_set_decrypt_key soft_backend\<rparr>"

lemma soft_backend_ok: "backend_ok soft_backend"
  by (simp add: backend_ok_def soft_backend_def)

lemma accel_backend_ok: "backend_ok accel_backend"
proof -
  have "implements_aes aes_nohw_set_encrypt_key aes_nohw_encrypt fips_cipher"
    using AES_encrypt_implements [OF soft_backend_ok]
    by (simp add: implements_aes_def AES_set_key_bits AES_encrypt_def soft_backend_def)
  moreover have "implements_aes (aes_nohw_set_decrypt_key soft_backend) aes_nohw_decrypt fips_inv_cipher"
    using AES_decrypt_implements [OF soft_backend_ok]
    by (simp add: implements_aes_def AES_set_key_bits AES_decrypt_def)
      (simp add: soft_backend_def)
  ultimately show ?thesis
    by (simp add: backend_ok_def accel_backend_def) (simp add: soft_backend_def)
qed

definition blank_key :: AES_KEY where
  "blank_key = \<lparr>rd_key = replicate 60 0, rounds = 0\<rparr>"

lemma length_blank_key [simp]: "length (rd_key blank_key) = 60"
  by (simp add: blank_key_def)

lemma some_key_pairs:
  "\<exists>ek dk. aes_key_pair (soft_backend, ek, dk)" "\<exists>ek dk. aes_key_pair (accel_backend, ek, dk)"
  using aes_key_pair_exists [OF soft_backend_ok, of 128 blank_key blank_key]
    aes_key_pair_exists [OF accel_backend_ok, of 192 blank_key blank_key] by (simp_all, blast+)

section \<open>Properties of the block cipher\<close>



text \<open>
  C9: the two key setups succeed on the same key, and decrypting a block under the second
  schedule what was encrypted under the first gives the block back, for every key size, every key
  and every backend.
\<close>

theorem AES_decrypt_undoes_encrypt:
  assumes "backend_ok be" "bits = 128 \<or> bits = 192 \<or> bits = 256" "length key = bits div 8"
    "length (rd_key ak) = 60" "length (rd_key ak') = 60" "length b = 16"
  shows "\<exists>ek dk. AES_set_encrypt_key be (Some key) bits (Some ak) = (0, Some ek) \<and>
    AES_set_decrypt_key be (Some key) bits (Some ak') = (0, Some dk) \<and>
    AES_decrypt be (AES_encrypt be b ek) dk = b"
proof -
  obtain ek dk where k: "AES_set_encrypt_key be (Some key) bits (Some ak) = (0, Some ek)"
    "AES_set_decrypt_key be (Some key) bits (Some ak') = (0, Some dk)" "aes_key_pair (be, ek, dk)"
    using aes_key_pair_exists [OF assms(1,2,4,5)] by blast
  from aes.dec_enc [OF k(3) assms(6)] have "AES_decrypt be (AES_encrypt be b ek) dk = b"
    by (simp add: aes_enc_block_def aes_dec_block_def)
  with k show ?thesis by blast
qed

theorem AES_decrypt_undoes_encrypt_witness:
  "\<exists>ek dk. AES_set_encrypt_key accel_backend (Some (replicate 32 7)) 256 (Some blank_key) = (0, Some ek) \<and>
    AES_set_decrypt_key accel_backend (Some (replicate 32 7)) 256 (Some blank_key) = (0, Some dk) \<and>
    AES_decrypt accel_backend (AES_encrypt accel_backend (replicate 16 1) ek) dk = replicate 16 1"
  using AES_decrypt_undoes_encrypt [OF accel_backend_ok, of 256 "replicate 32 7" blank_key blank_key "replicate 16 1"]
  by simp

definition aes_key_status :: "bytes option \<Rightarrow> nat \<Rightarrow> AES_KEY option \<Rightarrow> int" where
  "aes_key_status key bits ak =
     (if bits \<noteq> 128 \<and> bits \<noteq> 192 \<and> bits \<noteq> 256 then -2
       else if key = None \<or> ak = None then -1 else 0)"

text \<open>The status codes of the key setup functions, which leave the schedule on failure.\<close>

lemma AES_set_key_status:
  assumes "\<not> hwaes_capable be" "\<not> vpaes_capable be"
  shows "fst (AES_set_encrypt_key be key bits ak) = aes_key_status key bits ak \<and>
    fst (AES_set_decrypt_key be key bits ak) = aes_key_status key bits ak \<and>
    (aes_key_status key bits ak = 0 \<or>
      snd (AES_set_encrypt_key be key bits ak) = ak \<and> snd (AES_set_decrypt_key be key bits ak) = ak)"
  using assms
  by (cases key; cases ak)
    (auto simp: AES_set_encrypt_key_def AES_set_decrypt_key_def aes_nohw_set_decrypt_key_def
      aes_nohw_set_encrypt_key_def aes_key_status_def Let_def)

end
