(* ===== verification/AES_IGE.thy ===== *)
theory AES_IGE
  imports Memory Block_Cipher
begin

text \<open>
  The infinite garble extension mode of \<open>crypto/fipsmodule/aes/aes_ige.c\<close>, the mode that the
  application's native entry points use. \<open>AES_ige_encrypt\<close> has two loops for each direction: one
  that keeps pointers to the two chaining blocks in the buffers themselves, taken for distinct and
  suitably aligned buffers, and one that copies the blocks, taken in place. Both are modelled on the
  flat memory of the theory \<open>Memory\<close>, with the input, the output and the 32-byte chaining vector
  at three offsets.

  The abstract specification is the recursion over blocks \<open>ige_enc_blocks\<close> and
  \<open>ige_dec_blocks\<close>. Main results: all four loops refine it, for identical and for disjoint
  buffers, and decryption undoes encryption.
\<close>

section \<open>The mode on lists of blocks\<close>

fun ige_enc_blocks :: "(bytes \<Rightarrow> bytes) \<Rightarrow> bytes \<Rightarrow> bytes \<Rightarrow> bytes list \<Rightarrow> bytes list" where
  "ige_enc_blocks E iv iv2 [] = []"
| "ige_enc_blocks E iv iv2 (p # ps) =
     (let c = xor_bytes (E (xor_bytes p iv)) iv2 in c # ige_enc_blocks E c p ps)"

fun ige_dec_blocks :: "(bytes \<Rightarrow> bytes) \<Rightarrow> bytes \<Rightarrow> bytes \<Rightarrow> bytes list \<Rightarrow> bytes list" where
  "ige_dec_blocks D iv iv2 [] = []"
| "ige_dec_blocks D iv iv2 (c # cs) =
     (let p = xor_bytes (D (xor_bytes c iv2)) iv in p # ige_dec_blocks D c p cs)"

lemma length_ige_blocks [simp]:
  "length (ige_enc_blocks E iv iv2 ps) = length ps"
  "length (ige_dec_blocks E iv iv2 ps) = length ps"
  by (induction ps arbitrary: iv iv2) (auto simp: Let_def)

lemma ige_blocks_Nil_iff [simp]:
  "ige_enc_blocks E iv iv2 ps = [] \<longleftrightarrow> ps = []" "ige_dec_blocks E iv iv2 ps = [] \<longleftrightarrow> ps = []"
  by (cases ps; simp add: Let_def)+

lemma ige_enc_blocks_all:
  assumes "\<And>b. length b = 16 \<Longrightarrow> length (E b) = 16" "all_blocks ps" "length iv = 16" "length iv2 = 16"
  shows "all_blocks (ige_enc_blocks E iv iv2 ps)"
  using assms(2-4)
proof (induction ps arbitrary: iv iv2)
  case (Cons p ps)
  then have "length (xor_bytes (E (xor_bytes p iv)) iv2) = 16" "length p = 16"
    by (simp_all add: assms(1))
  with Cons show ?case by (simp add: Let_def)
qed simp

lemma ige_dec_blocks_all:
  assumes "\<And>b. length b = 16 \<Longrightarrow> length (D b) = 16" "all_blocks cs" "length iv = 16" "length iv2 = 16"
  shows "all_blocks (ige_dec_blocks D iv iv2 cs)"
  using assms(2-4)
proof (induction cs arbitrary: iv iv2)
  case (Cons c cs)
  then have "length (xor_bytes (D (xor_bytes c iv2)) iv) = 16" "length c = 16"
    by (simp_all add: assms(1))
  with Cons show ?case by (simp add: Let_def)
qed simp

context block_cipher
begin

lemma ige_dec_enc:
  assumes "valid k" "all_blocks ps" "length iv = 16" "length iv2 = 16"
  shows "ige_dec_blocks (dec k) iv iv2 (ige_enc_blocks (enc k) iv iv2 ps) = ps"
  using assms(2-4)
proof (induction ps arbitrary: iv iv2)
  case (Cons p ps)
  let ?c = "xor_bytes (enc k (xor_bytes p iv)) iv2"
  have len: "length p = 16" "length (enc k (xor_bytes p iv)) = 16"
    using Cons.prems assms(1) by (simp_all add: length_enc)
  then have "xor_bytes (dec k (xor_bytes ?c iv2)) iv = p"
    using Cons.prems assms(1) by (simp add: xor_bytes_cancel dec_enc)
  with Cons len show ?case
    by (simp add: Let_def)
qed simp

end

section \<open>The loops of the code\<close>

definition AES_ENCRYPT :: int where "AES_ENCRYPT = 1"
definition AES_DECRYPT :: int where "AES_DECRYPT = 0"

text \<open>
  The loops over pointers into the buffers. The results are the memory and the last values of the
  pointers \<open>ivp\<close> and \<open>iv2p\<close>.
\<close>

fun ige_enc_fast :: "(bytes \<Rightarrow> bytes) \<Rightarrow> mem \<Rightarrow> nat \<Rightarrow> nat \<Rightarrow> nat \<Rightarrow> nat \<Rightarrow> nat \<Rightarrow> mem \<times> nat \<times> nat" where
  "ige_enc_fast E m inp outp ivp iv2p 0 = (m, ivp, iv2p)"
| "ige_enc_fast E m inp outp ivp iv2p (Suc len) =
     (let m = store m outp (xor_bytes (load 16 m inp) (load 16 m ivp));
          m = store m outp (E (load 16 m outp));
          m = store m outp (xor_bytes (load 16 m outp) (load 16 m iv2p))
      in ige_enc_fast E m (inp + 16) (outp + 16) outp inp len)"

fun ige_dec_fast :: "(bytes \<Rightarrow> bytes) \<Rightarrow> mem \<Rightarrow> nat \<Rightarrow> nat \<Rightarrow> nat \<Rightarrow> nat \<Rightarrow> nat \<Rightarrow> mem \<times> nat \<times> nat" where
  "ige_dec_fast D m inp outp ivp iv2p 0 = (m, ivp, iv2p)"
| "ige_dec_fast D m inp outp ivp iv2p (Suc len) =
     (let tmp = xor_bytes (load 16 m inp) (load 16 m iv2p);
          m = store m outp (D tmp);
          m = store m outp (xor_bytes (load 16 m outp) (load 16 m ivp))
      in ige_dec_fast D m (inp + 16) (outp + 16) inp outp len)"

text \<open>The loops that copy the blocks, with the contents of \<open>iv\<close> and \<open>iv2\<close> as arguments.\<close>

fun ige_enc_copy :: "(bytes \<Rightarrow> bytes) \<Rightarrow> mem \<Rightarrow> nat \<Rightarrow> nat \<Rightarrow> bytes \<Rightarrow> bytes \<Rightarrow> nat \<Rightarrow> mem \<times> bytes \<times> bytes" where
  "ige_enc_copy E m inp outp iv iv2 0 = (m, iv, iv2)"
| "ige_enc_copy E m inp outp iv iv2 (Suc len) =
     (let tmp = load 16 m inp;
          tmp2 = xor_bytes tmp iv;
          tmp2 = E tmp2;
          tmp2 = xor_bytes tmp2 iv2;
          m = store m outp tmp2
      in ige_enc_copy E m (inp + 16) (outp + 16) tmp2 tmp len)"

fun ige_dec_copy :: "(bytes \<Rightarrow> bytes) \<Rightarrow> mem \<Rightarrow> nat \<Rightarrow> nat \<Rightarrow> bytes \<Rightarrow> bytes \<Rightarrow> nat \<Rightarrow> mem \<times> bytes \<times> bytes" where
  "ige_dec_copy D m inp outp iv iv2 0 = (m, iv, iv2)"
| "ige_dec_copy D m inp outp iv iv2 (Suc len) =
     (let tmp = load 16 m inp;
          tmp2 = tmp;
          tmp = xor_bytes tmp iv2;
          tmp = D tmp;
          tmp = xor_bytes tmp iv;
          m = store m outp tmp
      in ige_dec_copy D m (inp + 16) (outp + 16) tmp2 tmp len)"

text \<open>
  \<open>unaligned\<close> is the macro \<open>UNALIGNED_MEMOPS_ARE_FAST\<close>, set on x86 only; elsewhere the three
  pointers have to be multiples of \<open>sizeof(long)\<close>, eight on the 64-bit targets. The \<open>assert\<close> that
  the length is a multiple of 16 is compiled out of release builds; the division is what remains.
\<close>

definition AES_ige_encrypt ::
  "aes_backend \<Rightarrow> bool \<Rightarrow> mem \<Rightarrow> nat \<Rightarrow> nat \<Rightarrow> nat \<Rightarrow> AES_KEY \<Rightarrow> nat \<Rightarrow> int \<Rightarrow> mem" where
  "AES_ige_encrypt be unaligned m inp outp nbytes key ivec enc =
     (let len = nbytes div 16;
          fast = (inp \<noteq> outp \<and> (unaligned \<or> (inp OR outp OR ivec) mod 8 = 0))
      in if enc = AES_ENCRYPT then
           if fast then
             let (m, ivp, iv2p) =
                   ige_enc_fast (\<lambda>b. AES_encrypt be b key) m inp outp ivec (ivec + 16) len;
                 m = store m ivec (load 16 m ivp)
             in store m (ivec + 16) (load 16 m iv2p)
           else
             let (m, iv, iv2) =
                   ige_enc_copy (\<lambda>b. AES_encrypt be b key) m inp outp
                     (load 16 m ivec) (load 16 m (ivec + 16)) len;
                 m = store m ivec iv
             in store m (ivec + 16) iv2
         else
           if fast then
             let (m, ivp, iv2p) =
                   ige_dec_fast (\<lambda>b. AES_decrypt be b key) m inp outp ivec (ivec + 16) len;
                 m = store m ivec (load 16 m ivp)
             in store m (ivec + 16) (load 16 m iv2p)
           else
             let (m, iv, iv2) =
                   ige_dec_copy (\<lambda>b. AES_decrypt be b key) m inp outp
                     (load 16 m ivec) (load 16 m (ivec + 16)) len;
                 m = store m ivec iv
             in store m (ivec + 16) iv2)"

section \<open>The loops refine the mode\<close>

text \<open>
  The copying loops are right whenever no input block is overwritten before it is read: the output
  starts at or before the input, or behind its end.
\<close>

lemma ige_enc_copy_spec:
  assumes "\<And>b. length b = 16 \<Longrightarrow> length (E b) = 16" "length iv = 16" "length iv2 = 16"
    "inp + 16 * n \<le> length m" "outp + 16 * n \<le> length m" "outp \<le> inp \<or> inp + 16 * n \<le> outp"
  shows "ige_enc_copy E m inp outp iv iv2 n =
    (let ps = blocks m inp n; cs = ige_enc_blocks E iv iv2 ps
     in (store m outp (concat cs), last (iv # cs), last (iv2 # ps)))"
  using assms(2-6)
proof (induction n arbitrary: m inp outp iv iv2)
  case (Suc n)
  let ?p = "load 16 m inp"
  let ?c = "xor_bytes (E (xor_bytes ?p iv)) iv2"
  let ?cs = "ige_enc_blocks E ?c ?p (blocks m (inp + 16) n)"
  have len: "length ?p = 16" "length ?c = 16"
    using Suc.prems by (simp_all add: assms(1))
  have same: "blocks (store m outp ?c) (inp + 16) n = blocks m (inp + 16) n"
    using Suc.prems len by (intro blocks_store_apart) (auto simp: apart_def)
  have "all_blocks ?cs"
    using len Suc.prems by (intro ige_enc_blocks_all) (auto simp: assms(1))
  then have "length (concat ?cs) = 16 * n"
    by (simp add: length_concat_blocks)
  moreover have "ige_enc_copy E (store m outp ?c) (inp + 16) (outp + 16) ?c ?p n =
      (store (store m outp ?c) (outp + 16) (concat ?cs), last (?c # ?cs), last (?p # blocks m (inp + 16) n))"
    using Suc.prems len by (subst Suc.IH) (auto simp: same Let_def)
  ultimately show ?case
    using Suc.prems len by (simp add: Let_def store_append)
qed simp

lemma ige_dec_copy_spec:
  assumes "\<And>b. length b = 16 \<Longrightarrow> length (D b) = 16" "length iv = 16" "length iv2 = 16"
    "inp + 16 * n \<le> length m" "outp + 16 * n \<le> length m" "outp \<le> inp \<or> inp + 16 * n \<le> outp"
  shows "ige_dec_copy D m inp outp iv iv2 n =
    (let cs = blocks m inp n; ps = ige_dec_blocks D iv iv2 cs
     in (store m outp (concat ps), last (iv # cs), last (iv2 # ps)))"
  using assms(2-6)
proof (induction n arbitrary: m inp outp iv iv2)
  case (Suc n)
  let ?c = "load 16 m inp"
  let ?p = "xor_bytes (D (xor_bytes ?c iv2)) iv"
  let ?ps = "ige_dec_blocks D ?c ?p (blocks m (inp + 16) n)"
  have len: "length ?c = 16" "length ?p = 16"
    using Suc.prems by (simp_all add: assms(1))
  have same: "blocks (store m outp ?p) (inp + 16) n = blocks m (inp + 16) n"
    using Suc.prems len by (intro blocks_store_apart) (auto simp: apart_def)
  have "all_blocks ?ps"
    using len Suc.prems by (intro ige_dec_blocks_all) (auto simp: assms(1))
  then have "length (concat ?ps) = 16 * n"
    by (simp add: length_concat_blocks)
  moreover have "ige_dec_copy D (store m outp ?p) (inp + 16) (outp + 16) ?c ?p n =
      (store (store m outp ?p) (outp + 16) (concat ?ps), last (?c # blocks m (inp + 16) n), last (?p # ?ps))"
    using Suc.prems len by (subst Suc.IH) (auto simp: same Let_def)
  ultimately show ?case
    using Suc.prems len by (simp add: Let_def store_append)
qed simp

text \<open>
  The pointer loops need the output apart from the input and from both chaining blocks. They end
  with the pointers at the last block that was read and the last that was written.
\<close>

lemma ige_enc_fast_spec:
  assumes "\<And>b. length b = 16 \<Longrightarrow> length (E b) = 16"
    "inp + 16 * n \<le> length m" "outp + 16 * n \<le> length m" "ivp + 16 \<le> length m" "iv2p + 16 \<le> length m"
    "apart inp (16 * n) outp (16 * n)" "apart ivp 16 outp (16 * n)" "apart iv2p 16 outp (16 * n)"
  shows "ige_enc_fast E m inp outp ivp iv2p n =
    (store m outp (concat (ige_enc_blocks E (load 16 m ivp) (load 16 m iv2p) (blocks m inp n))),
     if n = 0 then ivp else outp + 16 * (n - 1), if n = 0 then iv2p else inp + 16 * (n - 1))"
  using assms(2-8)
proof (induction n arbitrary: m inp outp ivp iv2p)
  case (Suc n)
  let ?iv = "load 16 m ivp" and ?iv2 = "load 16 m iv2p" and ?p = "load 16 m inp"
  let ?c = "xor_bytes (E (xor_bytes ?p ?iv)) ?iv2"
  let ?m = "store m outp ?c"
  have len: "length ?p = 16" "length ?iv = 16" "length ?iv2 = 16" "length ?c = 16"
    using Suc.prems by (simp_all add: assms(1))
  have iv2: "load 16 (store m outp b) iv2p = ?iv2" if "length b = 16" for b
    using Suc.prems that by (intro load_store_apart) (auto simp: apart_def)
  have step: "ige_enc_fast E m inp outp ivp iv2p (Suc n) = ige_enc_fast E ?m (inp + 16) (outp + 16) outp inp n"
    using Suc.prems len assms(1) by (simp add: Let_def load_store_same store_store_same iv2)
  have same: "blocks ?m (inp + 16) n = blocks m (inp + 16) n" "load 16 ?m inp = ?p" "load 16 ?m outp = ?c"
    using Suc.prems len
    by (auto intro!: blocks_store_apart load_store_apart load_store_same simp: apart_def)
  have "all_blocks (ige_enc_blocks E ?c ?p (blocks m (inp + 16) n))"
    using len Suc.prems by (intro ige_enc_blocks_all) (auto simp: assms(1))
  then have cs: "length (concat (ige_enc_blocks E ?c ?p (blocks m (inp + 16) n))) = 16 * n"
    by (simp add: length_concat_blocks)
  have "ige_enc_fast E ?m (inp + 16) (outp + 16) outp inp n =
    (store ?m (outp + 16) (concat (ige_enc_blocks E ?c ?p (blocks m (inp + 16) n))),
     outp + 16 * n, inp + 16 * n)"
    using Suc.prems len by (subst Suc.IH) (auto simp: same apart_def)
  then show ?case
    unfolding step using Suc.prems len cs by (simp add: Let_def store_append)
qed simp

lemma ige_dec_fast_spec:
  assumes "\<And>b. length b = 16 \<Longrightarrow> length (D b) = 16"
    "inp + 16 * n \<le> length m" "outp + 16 * n \<le> length m" "ivp + 16 \<le> length m" "iv2p + 16 \<le> length m"
    "apart inp (16 * n) outp (16 * n)" "apart ivp 16 outp (16 * n)" "apart iv2p 16 outp (16 * n)"
  shows "ige_dec_fast D m inp outp ivp iv2p n =
    (store m outp (concat (ige_dec_blocks D (load 16 m ivp) (load 16 m iv2p) (blocks m inp n))),
     if n = 0 then ivp else inp + 16 * (n - 1), if n = 0 then iv2p else outp + 16 * (n - 1))"
  using assms(2-8)
proof (induction n arbitrary: m inp outp ivp iv2p)
  case (Suc n)
  let ?iv = "load 16 m ivp" and ?iv2 = "load 16 m iv2p" and ?c = "load 16 m inp"
  let ?p = "xor_bytes (D (xor_bytes ?c ?iv2)) ?iv"
  let ?m = "store m outp ?p"
  have len: "length ?c = 16" "length ?iv = 16" "length ?iv2 = 16" "length ?p = 16"
    using Suc.prems by (simp_all add: assms(1))
  have iv: "load 16 (store m outp b) ivp = ?iv" if "length b = 16" for b
    using Suc.prems that by (intro load_store_apart) (auto simp: apart_def)
  have step: "ige_dec_fast D m inp outp ivp iv2p (Suc n) = ige_dec_fast D ?m (inp + 16) (outp + 16) inp outp n"
    using Suc.prems len assms(1) by (simp add: Let_def load_store_same store_store_same iv)
  have same: "blocks ?m (inp + 16) n = blocks m (inp + 16) n" "load 16 ?m inp = ?c" "load 16 ?m outp = ?p"
    using Suc.prems len
    by (auto intro!: blocks_store_apart load_store_apart load_store_same simp: apart_def)
  have "all_blocks (ige_dec_blocks D ?c ?p (blocks m (inp + 16) n))"
    using len Suc.prems by (intro ige_dec_blocks_all) (auto simp: assms(1))
  then have cs: "length (concat (ige_dec_blocks D ?c ?p (blocks m (inp + 16) n))) = 16 * n"
    by (simp add: length_concat_blocks)
  have "ige_dec_fast D ?m (inp + 16) (outp + 16) inp outp n =
    (store ?m (outp + 16) (concat (ige_dec_blocks D ?c ?p (blocks m (inp + 16) n))),
     inp + 16 * n, outp + 16 * n)"
    using Suc.prems len by (subst Suc.IH) (auto simp: same apart_def)
  then show ?case
    unfolding step using Suc.prems len cs by (simp add: Let_def store_append)
qed simp

section \<open>The whole call\<close>

text \<open>
  The layouts that the callers use: the input and the output are the same buffer or have no byte in
  common, and the chaining vector lies apart from both.
\<close>

definition ige_layout :: "mem \<Rightarrow> nat \<Rightarrow> nat \<Rightarrow> nat \<Rightarrow> nat \<Rightarrow> bool" where
  "ige_layout m inp outp nbytes ivec \<longleftrightarrow>
     (let k = 16 * (nbytes div 16) in
      inp + k \<le> length m \<and> outp + k \<le> length m \<and> ivec + 32 \<le> length m \<and>
      (inp = outp \<or> apart inp k outp k) \<and> apart outp k ivec 32 \<and> apart inp k ivec 32)"

definition ige_enc_result :: "(bytes \<Rightarrow> bytes) \<Rightarrow> mem \<Rightarrow> nat \<Rightarrow> nat \<Rightarrow> nat \<Rightarrow> nat \<Rightarrow> mem" where
  "ige_enc_result E m inp outp nbytes ivec =
     (let iv = load 16 m ivec; iv2 = load 16 m (ivec + 16);
          ps = blocks m inp (nbytes div 16);
          cs = ige_enc_blocks E iv iv2 ps
      in store (store m outp (concat cs)) ivec (last (iv # cs) @ last (iv2 # ps)))"

definition ige_dec_result :: "(bytes \<Rightarrow> bytes) \<Rightarrow> mem \<Rightarrow> nat \<Rightarrow> nat \<Rightarrow> nat \<Rightarrow> nat \<Rightarrow> mem" where
  "ige_dec_result D m inp outp nbytes ivec =
     (let iv = load 16 m ivec; iv2 = load 16 m (ivec + 16);
          cs = blocks m inp (nbytes div 16);
          ps = ige_dec_blocks D iv iv2 cs
      in store (store m outp (concat ps)) ivec (last (iv # cs) @ last (iv2 # ps)))"

lemma last_block: "all_blocks bs \<Longrightarrow> length iv = 16 \<Longrightarrow> length (last (iv # bs)) = 16"
  by (induction bs arbitrary: iv) auto

lemma last_blocks: "0 < n \<Longrightarrow> last (blocks m p n) = load 16 m (p + 16 * (n - 1))"
  using blocks_append [of m p "n - 1" 1] by (cases n) simp_all

text \<open>A pointer of the fast loops at its end holds the last block of its run.\<close>

lemma load_last_stored:
  assumes "all_blocks bs" "outp + 16 * length bs \<le> length m" "bs \<noteq> []"
  shows "load 16 (store m outp (concat bs)) (outp + 16 * (length bs - 1)) = last bs"
  using last_blocks [of "length bs" "store m outp (concat bs)" outp] blocks_store_same [OF assms(1,2)] assms(3)
  by simp

lemma load_last_input:
  assumes "apart inp (16 * n) outp (length b)" "outp + length b \<le> length m" "inp + 16 * n \<le> length m" "0 < n"
  shows "load 16 (store m outp b) (inp + 16 * (n - 1)) = last (blocks m inp n)"
  using last_blocks [of n "store m outp b" inp] blocks_store_apart [OF assms(1-3)] assms(4) by simp

lemma AES_ige_encrypt_refines:
  assumes lay: "ige_layout m inp outp nbytes ivec"
    and E: "\<And>b. length b = 16 \<Longrightarrow> length (AES_encrypt be b key) = 16"
  shows "AES_ige_encrypt be unaligned m inp outp nbytes key ivec AES_ENCRYPT =
    ige_enc_result (\<lambda>b. AES_encrypt be b key) m inp outp nbytes ivec"
proof -
  let ?E = "\<lambda>b. AES_encrypt be b key" and ?n = "nbytes div 16"
  let ?iv = "load 16 m ivec" and ?iv2 = "load 16 m (ivec + 16)" and ?ps = "blocks m inp ?n"
  let ?cs = "ige_enc_blocks ?E ?iv ?iv2 ?ps"
  let ?m = "store m outp (concat ?cs)"
  note layout = lay [unfolded ige_layout_def Let_def]
  have lens: "length ?iv = 16" "length ?iv2 = 16" "all_blocks ?ps"
    using layout by simp_all
  then have cs: "all_blocks ?cs"
    by (intro ige_enc_blocks_all) (auto simp: E)
  then have k: "length (concat ?cs) = 16 * ?n"
    by (simp add: length_concat_blocks)
  have last: "length (last (?iv # ?cs)) = 16" "length (last (?iv2 # ?ps)) = 16"
    using lens cs by (auto intro!: last_block simp del: last.simps)
  have out: "store (store ?m ivec x) (ivec + 16) y = store ?m ivec (x @ y)"
    if "length x = 16" "length y = 16" for x y
    using that layout k by (intro store_append) auto
  show ?thesis
  proof (cases "inp \<noteq> outp \<and> (unaligned \<or> (inp OR outp OR ivec) mod 8 = 0)")
    case False
    have "outp \<le> inp \<or> inp + 16 * ?n \<le> outp"
      using layout by (auto simp: apart_def)
    then have "ige_enc_copy ?E m inp outp ?iv ?iv2 ?n = (?m, last (?iv # ?cs), last (?iv2 # ?ps))"
      using layout by (subst ige_enc_copy_spec) (auto simp: E Let_def)
    then show ?thesis
      unfolding AES_ige_encrypt_def Let_def if_not_P [OF False]
      using out [OF last] by (simp add: ige_enc_result_def Let_def del: last.simps)
  next
    case True
    let ?ivp = "if ?n = 0 then ivec else outp + 16 * (?n - 1)"
    let ?iv2p = "if ?n = 0 then ivec + 16 else inp + 16 * (?n - 1)"
    have run: "ige_enc_fast ?E m inp outp ivec (ivec + 16) ?n = (?m, ?ivp, ?iv2p)"
      using layout True by (intro ige_enc_fast_spec) (auto simp: E apart_def)
    have ivp: "load 16 ?m ?ivp = last (?iv # ?cs)"
      using load_last_stored [OF cs, of outp m] layout by (cases "?n = 0") auto
    have "load 16 ?m ?iv2p = last (?iv2 # ?ps)"
      using load_last_input [of inp ?n outp "concat ?cs" m] layout True k by (cases "?n = 0") auto
    moreover have "apart ?iv2p 16 ivec 16 \<and> ?iv2p + 16 \<le> length m"
      using layout by (cases "?n = 0") (auto simp: apart_def)
    then have "load 16 (store ?m ivec (last (?iv # ?cs))) ?iv2p = load 16 ?m ?iv2p"
      using load_store_apart [of ?iv2p 16 ivec "last (?iv # ?cs)" ?m] layout k last(1)
      by (simp del: last.simps split del: if_split)
    ultimately show ?thesis
      unfolding AES_ige_encrypt_def Let_def if_P [OF True]
      using out [OF last] by (simp add: ige_enc_result_def Let_def run ivp del: last.simps)
  qed
qed

lemma AES_ige_decrypt_refines:
  assumes lay: "ige_layout m inp outp nbytes ivec"
    and D: "\<And>b. length b = 16 \<Longrightarrow> length (AES_decrypt be b key) = 16"
  shows "AES_ige_encrypt be unaligned m inp outp nbytes key ivec AES_DECRYPT =
    ige_dec_result (\<lambda>b. AES_decrypt be b key) m inp outp nbytes ivec"
proof -
  let ?D = "\<lambda>b. AES_decrypt be b key" and ?n = "nbytes div 16"
  let ?iv = "load 16 m ivec" and ?iv2 = "load 16 m (ivec + 16)" and ?cs = "blocks m inp ?n"
  let ?ps = "ige_dec_blocks ?D ?iv ?iv2 ?cs"
  let ?m = "store m outp (concat ?ps)"
  note layout = lay [unfolded ige_layout_def Let_def]
  have lens: "length ?iv = 16" "length ?iv2 = 16" "all_blocks ?cs"
    using layout by simp_all
  then have cs: "all_blocks ?ps"
    by (intro ige_dec_blocks_all) (auto simp: D)
  then have k: "length (concat ?ps) = 16 * ?n"
    by (simp add: length_concat_blocks)
  have last: "length (last (?iv # ?cs)) = 16" "length (last (?iv2 # ?ps)) = 16"
    using lens cs by (auto intro!: last_block simp del: last.simps)
  have out: "store (store ?m ivec x) (ivec + 16) y = store ?m ivec (x @ y)"
    if "length x = 16" "length y = 16" for x y
    using that layout k by (intro store_append) auto
  show ?thesis
  proof (cases "inp \<noteq> outp \<and> (unaligned \<or> (inp OR outp OR ivec) mod 8 = 0)")
    case False
    have "outp \<le> inp \<or> inp + 16 * ?n \<le> outp"
      using layout by (auto simp: apart_def)
    then have "ige_dec_copy ?D m inp outp ?iv ?iv2 ?n = (?m, last (?iv # ?cs), last (?iv2 # ?ps))"
      using layout by (subst ige_dec_copy_spec) (auto simp: D Let_def)
    then show ?thesis
      unfolding AES_ige_encrypt_def Let_def if_not_P [OF False]
      using out [OF last] by (simp add: AES_ENCRYPT_def AES_DECRYPT_def ige_dec_result_def Let_def del: last.simps)
  next
    case True
    let ?ivp = "if ?n = 0 then ivec else inp + 16 * (?n - 1)"
    let ?iv2p = "if ?n = 0 then ivec + 16 else outp + 16 * (?n - 1)"
    have run: "ige_dec_fast ?D m inp outp ivec (ivec + 16) ?n = (?m, ?ivp, ?iv2p)"
      using layout True by (intro ige_dec_fast_spec) (auto simp: D apart_def)
    have ivp: "load 16 ?m ?ivp = last (?iv # ?cs)"
      using load_last_input [of inp ?n outp "concat ?ps" m] layout True k by (cases "?n = 0") auto
    have "load 16 ?m ?iv2p = last (?iv2 # ?ps)"
      using load_last_stored [OF cs, of outp m] layout by (cases "?n = 0") auto
    moreover have "apart ?iv2p 16 ivec 16 \<and> ?iv2p + 16 \<le> length m"
      using layout by (cases "?n = 0") (auto simp: apart_def)
    then have "load 16 (store ?m ivec (last (?iv # ?cs))) ?iv2p = load 16 ?m ?iv2p"
      using load_store_apart [of ?iv2p 16 ivec "last (?iv # ?cs)" ?m] layout k last(1)
      by (simp del: last.simps split del: if_split)
    ultimately show ?thesis
      unfolding AES_ige_encrypt_def Let_def if_P [OF True]
      using out [OF last] by (simp add: AES_ENCRYPT_def AES_DECRYPT_def ige_dec_result_def Let_def run ivp del: last.simps)
  qed
qed

text \<open>
  The frame of a call: nothing outside the output region and the chaining vector changes.
\<close>

lemma length_ige_result:
  assumes "ige_layout m inp outp nbytes ivec" "\<And>b. length b = 16 \<Longrightarrow> length (f b) = 16"
  shows "length (ige_enc_result f m inp outp nbytes ivec) = length m"
    "length (ige_dec_result f m inp outp nbytes ivec) = length m"
proof -
  let ?n = "nbytes div 16" and ?iv = "load 16 m ivec" and ?iv2 = "load 16 m (ivec + 16)"
  note lay = assms(1) [unfolded ige_layout_def Let_def]
  have lens: "length ?iv = 16" "length ?iv2 = 16" "all_blocks (blocks m inp ?n)"
    using lay by simp_all
  have c: "all_blocks (ige_enc_blocks f ?iv ?iv2 (blocks m inp ?n))"
    "all_blocks (ige_dec_blocks f ?iv ?iv2 (blocks m inp ?n))"
    using lens assms(2) by (intro ige_enc_blocks_all ige_dec_blocks_all; simp)+
  show "length (ige_enc_result f m inp outp nbytes ivec) = length m"
    "length (ige_dec_result f m inp outp nbytes ivec) = length m"
    using lay lens c last_block [OF lens(3) lens(1)] last_block [OF lens(3) lens(2)]
      last_block [OF c(1) lens(1)] last_block [OF c(2) lens(2)]
    by (simp_all add: ige_enc_result_def ige_dec_result_def Let_def length_concat_blocks del: last.simps)
qed

text \<open>
  Reading the output back, and the memory when only the output matters.
\<close>

lemma ige_enc_result_output:
  assumes "ige_layout m inp outp nbytes ivec" "\<And>b. length b = 16 \<Longrightarrow> length (E b) = 16"
  shows "blocks (ige_enc_result E m inp outp nbytes ivec) outp (nbytes div 16) =
    ige_enc_blocks E (load 16 m ivec) (load 16 m (ivec + 16)) (blocks m inp (nbytes div 16))"
proof -
  let ?n = "nbytes div 16" and ?iv = "load 16 m ivec" and ?iv2 = "load 16 m (ivec + 16)"
  let ?ps = "blocks m inp ?n"
  let ?cs = "ige_enc_blocks E ?iv ?iv2 ?ps"
  note lay = assms(1) [unfolded ige_layout_def Let_def]
  have lens: "length ?iv = 16" "length ?iv2 = 16" "all_blocks ?ps"
    using lay by simp_all
  have cs: "all_blocks ?cs"
    using lens assms(2) by (intro ige_enc_blocks_all) auto
  have k: "length (concat ?cs) = 16 * ?n" "length (last (?iv # ?cs) @ last (?iv2 # ?ps)) = 32"
    using lens cs last_block [OF cs lens(1)] last_block [OF lens(3) lens(2)]
    by (simp_all add: length_concat_blocks del: last.simps)
  have "blocks (ige_enc_result E m inp outp nbytes ivec) outp ?n = blocks (store m outp (concat ?cs)) outp ?n"
    unfolding ige_enc_result_def Let_def
    using lay k by (intro blocks_store_apart) (simp_all only: k length_store)
  also have "\<dots> = ?cs"
    using blocks_store_same [OF cs, of outp m] lay by simp
  finally show ?thesis .
qed

text \<open>Decrypting what was encrypted, from and to any permitted buffers.\<close>

lemma ige_decrypts:
  assumes key: "aes_key_pair (be, ek, dk)"
    and lay: "ige_layout m inp outp nbytes ivec"
    and m2: "length m2 = length m" "load 16 m2 ivec = load 16 m ivec"
      "load 16 m2 (ivec + 16) = load 16 m (ivec + 16)"
      "blocks m2 outp (nbytes div 16) =
        blocks (AES_ige_encrypt be unaligned m inp outp nbytes ek ivec AES_ENCRYPT) outp (nbytes div 16)"
    and lay2: "ige_layout m2 outp dst nbytes ivec"
  shows "\<exists>iv'. length iv' = 32 \<and> AES_ige_encrypt be unaligned' m2 outp dst nbytes dk ivec AES_DECRYPT =
    store (store m2 dst (load (16 * (nbytes div 16)) m inp)) ivec iv'"
proof -
  let ?n = "nbytes div 16" and ?iv = "load 16 m ivec" and ?iv2 = "load 16 m (ivec + 16)"
  let ?ps = "blocks m inp ?n"
  let ?cs = "ige_enc_blocks (\<lambda>b. AES_encrypt be b ek) ?iv ?iv2 ?ps"
  note lens = aes_key_pair_lengths [OF key]
  have len: "length ?iv = 16" "length ?iv2 = 16" "all_blocks ?ps"
    using lay by (simp_all add: ige_layout_def Let_def)
  have cs: "blocks m2 outp ?n = ?cs"
    using m2(4) ige_enc_result_output [OF lay lens(1)] AES_ige_encrypt_refines [OF lay lens(1)]
    by simp
  have "all_blocks ?cs"
    using len lens by (intro ige_enc_blocks_all) auto
  have ps: "ige_dec_blocks (\<lambda>b. AES_decrypt be b dk) ?iv ?iv2 ?cs = ?ps"
    using aes.ige_dec_enc [OF key len(3,1,2)]
    by (simp add: aes_enc_block_def [abs_def] aes_dec_block_def [abs_def])
  let ?iv' = "last (?iv # ?cs) @ last (?iv2 # ?ps)"
  have "length ?iv' = 32"
    using last_block [OF \<open>all_blocks ?cs\<close> len(1)] last_block [OF len(3,2)] by (simp del: last.simps)
  moreover have "AES_ige_encrypt be unaligned' m2 outp dst nbytes dk ivec AES_DECRYPT =
      store (store m2 dst (load (16 * ?n) m inp)) ivec ?iv'"
    using AES_ige_decrypt_refines [OF lay2 lens(2)]
    by (simp add: ige_dec_result_def Let_def m2(2,3) cs ps concat_blocks del: last.simps)
  ultimately show ?thesis by blast
qed

text \<open>Nothing outside the two regions of a call changes.\<close>

lemma ige_result_frame:
  assumes "ige_layout m inp outp nbytes ivec" "\<And>b. length b = 16 \<Longrightarrow> length (f b) = 16"
    and i: "i < length m" "\<not> (outp \<le> i \<and> i < outp + 16 * (nbytes div 16))" "\<not> (ivec \<le> i \<and> i < ivec + 32)"
  shows "ige_enc_result f m inp outp nbytes ivec ! i = m ! i"
    "ige_dec_result f m inp outp nbytes ivec ! i = m ! i"
proof -
  let ?n = "nbytes div 16" and ?iv = "load 16 m ivec" and ?iv2 = "load 16 m (ivec + 16)"
  note lay = assms(1) [unfolded ige_layout_def Let_def]
  have lens: "length ?iv = 16" "length ?iv2 = 16" "all_blocks (blocks m inp ?n)"
    using lay by simp_all
  have c: "all_blocks (ige_enc_blocks f ?iv ?iv2 (blocks m inp ?n))"
    "all_blocks (ige_dec_blocks f ?iv ?iv2 (blocks m inp ?n))"
    using lens assms(2) by (intro ige_enc_blocks_all ige_dec_blocks_all; simp)+
  note last = last_block [OF lens(3) lens(1)] last_block [OF lens(3) lens(2)]
    last_block [OF c(1) lens(1)] last_block [OF c(2) lens(2)]
  show "ige_enc_result f m inp outp nbytes ivec ! i = m ! i"
    "ige_dec_result f m inp outp nbytes ivec ! i = m ! i"
    unfolding ige_enc_result_def ige_dec_result_def Let_def
    by (rule nth_stores_outside;
        use lay length_concat_blocks [OF c(1)] length_concat_blocks [OF c(2)] last i in
          \<open>auto simp del: last.simps length_concat\<close>)+
qed

text \<open>The two directions of a call under a pair of keys.\<close>

lemma ige_runs:
  assumes "aes_key_pair (be, ek, dk)" "ige_layout m inp outp nbytes ivec"
  shows "AES_ige_encrypt be unaligned m inp outp nbytes ek ivec AES_ENCRYPT =
      ige_enc_result (\<lambda>b. AES_encrypt be b ek) m inp outp nbytes ivec"
    "AES_ige_encrypt be unaligned m inp outp nbytes dk ivec AES_DECRYPT =
      ige_dec_result (\<lambda>b. AES_decrypt be b dk) m inp outp nbytes ivec"
    "length (AES_ige_encrypt be unaligned m inp outp nbytes ek ivec AES_ENCRYPT) = length m"
    "length (AES_ige_encrypt be unaligned m inp outp nbytes dk ivec AES_DECRYPT) = length m"
  using AES_ige_encrypt_refines [OF assms(2)] AES_ige_decrypt_refines [OF assms(2)]
    length_ige_result [OF assms(2)] aes_key_pair_lengths [OF assms(1)] by auto

section \<open>Properties\<close>

text \<open>
  C8: \<open>AES_ige_encrypt\<close> leaves in memory what the mode on lists of blocks prescribes, in both
  directions: the resulting blocks at the output, and the last ciphertext and plaintext block in the
  chaining vector. This holds for whichever of its two loops per direction it takes, and for every
  layout in which the buffers are the same or disjoint.
\<close>

theorem ige_refines_mode:
  assumes "aes_key_pair (be, ek, dk)" "ige_layout m inp outp nbytes ivec"
  shows "AES_ige_encrypt be unaligned m inp outp nbytes ek ivec AES_ENCRYPT =
      ige_enc_result (\<lambda>b. AES_encrypt be b ek) m inp outp nbytes ivec \<and>
    AES_ige_encrypt be unaligned m inp outp nbytes dk ivec AES_DECRYPT =
      ige_dec_result (\<lambda>b. AES_decrypt be b dk) m inp outp nbytes ivec"
  by (intro conjI ige_runs [OF assms])

theorem ige_refines_mode_witness:
  "\<exists>ek dk. AES_ige_encrypt soft_backend True (replicate 96 5) 0 32 32 ek 64 AES_ENCRYPT =
      ige_enc_result (\<lambda>b. AES_encrypt soft_backend b ek) (replicate 96 5) 0 32 32 64 \<and>
    AES_ige_encrypt soft_backend True (replicate 96 5) 0 32 32 dk 64 AES_DECRYPT =
      ige_dec_result (\<lambda>b. AES_decrypt soft_backend b dk) (replicate 96 5) 0 32 32 64"
proof -
  obtain ek dk where "aes_key_pair (soft_backend, ek, dk)"
    using some_key_pairs by blast
  from ige_refines_mode [OF this, of "replicate 96 5" 0 32 32 64 True] show ?thesis
    by (auto simp: ige_layout_def apart_def)
qed

text \<open>
  C11: after encrypting from one buffer to another (or in place), putting the chaining vector back
  and decrypting to a third, the third holds what the first held, whatever loops the two calls take.
\<close>

theorem ige_roundtrip:
  assumes "aes_key_pair (be, ek, dk)"
    "ige_layout m inp outp nbytes ivec" "ige_layout m outp dst nbytes ivec"
  shows "let m1 = AES_ige_encrypt be unaligned m inp outp nbytes ek ivec AES_ENCRYPT;
             m2 = store m1 ivec (load 32 m ivec);
             m3 = AES_ige_encrypt be unaligned' m2 outp dst nbytes dk ivec AES_DECRYPT
         in length m3 = length m \<and>
            load (16 * (nbytes div 16)) m3 dst = load (16 * (nbytes div 16)) m inp"
proof -
  let ?n = "nbytes div 16"
  define m1 where "m1 = AES_ige_encrypt be unaligned m inp outp nbytes ek ivec AES_ENCRYPT"
  define m2 where "m2 = store m1 ivec (load 32 m ivec)"
  note lay = assms(2,3) [unfolded ige_layout_def Let_def]
  have m1: "length m1 = length m"
    unfolding m1_def by (rule ige_runs(3) [OF assms(1,2)])
  have iv: "length (load 32 m ivec) = 32"
    using lay by simp
  have m2: "length m2 = length m"
    using m1 iv lay by (simp add: m2_def)
  have "load 32 m2 ivec = load 32 m ivec"
    using m1 iv lay by (simp add: m2_def load_store_same)
  then have iv2: "load 16 m2 ivec = load 16 m ivec" "load 16 m2 (ivec + 16) = load 16 m (ivec + 16)"
    using load_append [of 16 16 m2 ivec] load_append [of 16 16 m ivec] m2 lay by auto
  have out: "blocks m2 outp ?n = blocks m1 outp ?n"
    unfolding m2_def using m1 iv lay by (intro blocks_store_apart) auto
  have "ige_layout m2 outp dst nbytes ivec"
    using assms(3) m2 by (simp add: ige_layout_def)
  then obtain iv' where iv': "length iv' = 32" and m3: "AES_ige_encrypt be unaligned' m2 outp dst nbytes dk ivec AES_DECRYPT =
      store (store m2 dst (load (16 * ?n) m inp)) ivec iv'"
    using ige_decrypts [OF assms(1,2) m2 iv2 out [unfolded m1_def]] by blast
  have len: "length (load (16 * ?n) m inp) = 16 * ?n"
    using lay by simp
  have "load (16 * ?n) (store (store m2 dst (load (16 * ?n) m inp)) ivec iv') dst =
      load (16 * ?n) (store m2 dst (load (16 * ?n) m inp)) dst"
    using m2 iv' len lay by (intro load_store_apart) auto
  also have "\<dots> = load (16 * ?n) m inp"
    using m2 len lay by (intro load_store_same) auto
  finally show ?thesis
    using m2 iv' len lay by (simp add: Let_def m1_def [symmetric] m2_def [symmetric] m3)
qed

theorem ige_roundtrip_witness:
  "\<exists>ek dk. let m = map word_of_nat [0..<112]; m1 = AES_ige_encrypt accel_backend False m 0 32 32 ek 80 AES_ENCRYPT;
             m2 = store m1 80 (load 32 m 80);
             m3 = AES_ige_encrypt accel_backend True m2 32 32 32 dk 80 AES_DECRYPT
         in load 32 m3 32 = map word_of_nat [0..<32]"
proof -
  obtain ek dk where k: "aes_key_pair (accel_backend, ek, dk)"
    using some_key_pairs by blast
  have "ige_layout (map word_of_nat [0..<112]) 0 32 32 80" "ige_layout (map word_of_nat [0..<112]) 32 32 32 80"
    by (simp_all add: ige_layout_def apart_def)
  from ige_roundtrip [OF k this, of False True] show ?thesis
    by (intro exI [of _ ek] exI [of _ dk]) (simp only: Let_def, simp add: load_def take_map)
qed

text \<open>
  A call writes to the output region and the chaining vector only, in both directions, and
  not past the whole blocks of a length that is not a multiple of 16.
\<close>

lemma ige_writes_only_its_buffers:
  assumes "aes_key_pair (be, ek, dk)" "ige_layout m inp outp nbytes ivec"
    "i < length m" "i < outp \<or> outp + 16 * (nbytes div 16) \<le> i" "i < ivec \<or> ivec + 32 \<le> i"
  shows "AES_ige_encrypt be unaligned m inp outp nbytes ek ivec AES_ENCRYPT ! i = m ! i \<and>
    AES_ige_encrypt be unaligned m inp outp nbytes dk ivec AES_DECRYPT ! i = m ! i"
  unfolding ige_runs [OF assms(1,2)]
  using assms(3-5) aes_key_pair_lengths [OF assms(1)]
  by (intro conjI ige_result_frame assms(2)) auto

end
