(* ===== verification/Hash_Blocks.thy ===== *)
theory Hash_Blocks
  imports Prelude
begin

text \<open>
  What the hash functions share: running a compression function over the whole blocks of a buffer,
  the rounds of the SHA-2 family, and the bit counter that the contexts keep in two words. The
  components \<open>SHA512\<close> and \<open>SHA256\<close> instantiate these facts.
\<close>

section \<open>Runs of blocks\<close>

text \<open>The loop \<open>while (num--)\<close> of the block functions, over blocks of \<open>b\<close> bytes.\<close>

fun hash_blocks :: "('s \<Rightarrow> bytes \<Rightarrow> 's) \<Rightarrow> nat \<Rightarrow> 's \<Rightarrow> bytes \<Rightarrow> nat \<Rightarrow> 's" where
  "hash_blocks f b s inp 0 = s"
| "hash_blocks f b s inp (Suc num) = hash_blocks f b (f s (take b inp)) (drop b inp) num"

lemma hash_blocks_append:
  "b * n \<le> length xs \<Longrightarrow> hash_blocks f b s (xs @ ys) n = hash_blocks f b s xs n"
proof (induction n arbitrary: s xs)
  case (Suc n)
  then have "take b (xs @ ys) = take b xs" "drop b (xs @ ys) = drop b xs @ ys"
    by auto
  with Suc show ?case by simp
qed simp

lemma hash_blocks_add:
  "hash_blocks f b s xs (m + n) = hash_blocks f b (hash_blocks f b s xs m) (drop (b * m) xs) n"
proof (induction m arbitrary: s xs)
  case (Suc m)
  then show ?case by (simp add: add.commute)
qed simp

text \<open>The state after all whole blocks of a message, and the bytes that are left over.\<close>

definition absorbed :: "('s \<Rightarrow> bytes \<Rightarrow> 's) \<Rightarrow> nat \<Rightarrow> 's \<Rightarrow> bytes \<Rightarrow> 's" where
  "absorbed f b s m = hash_blocks f b s m (length m div b)"

definition leftover :: "nat \<Rightarrow> bytes \<Rightarrow> bytes" where
  "leftover b m = drop (b * (length m div b)) m"

lemma length_leftover [simp]: "length (leftover b m) = length m mod b"
  by (simp add: leftover_def minus_mult_div_eq_mod)

lemma leftover_less: "0 < b \<Longrightarrow> length (leftover b m) < b"
  by simp

lemma absorbed_Nil [simp]: "absorbed f b s [] = s"
  by (simp add: absorbed_def)

lemma leftover_Nil [simp]: "leftover b [] = []"
  by (simp add: leftover_def)

lemma absorbed_short: "length m < b \<Longrightarrow> absorbed f b s m = s"
  by (simp add: absorbed_def)

lemma leftover_short: "length m < b \<Longrightarrow> leftover b m = m"
  by (simp add: leftover_def)

lemma message_split: "0 < b \<Longrightarrow>
  \<exists>w. m = w @ leftover b m \<and> length w = b * (length m div b)"
  by (intro exI [of _ "take (b * (length m div b)) m"]) (auto simp: leftover_def)

lemma absorbed_append:
  assumes "0 < b"
  shows "absorbed f b s (m @ d) = absorbed f b (absorbed f b s m) (leftover b m @ d)"
proof -
  obtain w where w: "m = w @ leftover b m" "length w = b * (length m div b)"
    using message_split [OF assms] by blast
  define r where "r = leftover b m"
  define n where "n = length m div b"
  have m: "m = w @ r" "length w = b * n"
    using w by (simp_all add: r_def n_def)
  have "length (m @ d) div b = n + length (r @ d) div b"
    using assms by (simp add: m)
  moreover have "hash_blocks f b s (m @ d) n = absorbed f b s m"
    unfolding absorbed_def n_def by (rule hash_blocks_append) (simp add: times_div_less_eq_dividend)
  moreover have "drop (b * n) (m @ d) = r @ d"
    by (simp add: m)
  ultimately show ?thesis
    by (simp add: absorbed_def [of f b s "m @ d"] hash_blocks_add)
      (simp add: absorbed_def r_def)
qed

lemma leftover_append:
  assumes "0 < b"
  shows "leftover b (m @ d) = leftover b (leftover b m @ d)"
proof -
  obtain w where w: "m = w @ leftover b m" "length w = b * (length m div b)"
    using message_split [OF assms] by blast
  define r where "r = leftover b m"
  define n where "n = length m div b"
  have m: "m = w @ r" "length w = b * n"
    using w by (simp_all add: r_def n_def)
  have "length (m @ d) div b = n + length (r @ d) div b"
    using assms by (simp add: m)
  then have "leftover b (m @ d) = drop (b * n + b * (length (r @ d) div b)) (w @ (r @ d))"
    by (simp add: leftover_def m algebra_simps)
  also have "\<dots> = leftover b (r @ d)"
    using m(2) by (simp add: leftover_def)
  finally show ?thesis
    by (simp add: r_def)
qed

lemma absorbed_one_block:
  assumes "length m = b" "0 < b"
  shows "absorbed f b s (m @ d) = absorbed f b (f s m) d"
proof -
  have "leftover b m = []" "absorbed f b s m = f s m"
    using assms by (simp_all add: leftover_def absorbed_def numeral_eq_Suc)
  then show ?thesis
    by (simp add: absorbed_append [OF assms(2)])
qed

lemma leftover_one_block:
  "length m = b \<Longrightarrow> 0 < b \<Longrightarrow> leftover b (m @ d) = leftover b d"
  by (subst leftover_append) (simp_all add: leftover_def)

text \<open>
  The three cases of an update, where \<open>leftover b m\<close> is in the buffer of the context: the data
  stays in the buffer, fills it up, or goes to an empty buffer.
\<close>

lemma absorb_short:
  assumes "length (leftover b m) + length d < b"
  shows "absorbed f b s (m @ d) = absorbed f b s m" "leftover b (m @ d) = leftover b m @ d"
proof -
  have b: "0 < b" using assms by simp
  have "length (leftover b m @ d) < b" using assms by simp
  then show "absorbed f b s (m @ d) = absorbed f b s m" "leftover b (m @ d) = leftover b m @ d"
    using absorbed_append [OF b, of f s m d] leftover_append [OF b, of m d]
    by (simp_all only: absorbed_short leftover_short)
qed

lemma absorb_fill:
  assumes "0 < b" "b - length (leftover b m) \<le> length d"
  defines "n \<equiv> b - length (leftover b m)"
  shows "absorbed f b s (m @ d) = absorbed f b (f (absorbed f b s m) (leftover b m @ take n d)) (drop n d)"
    "leftover b (m @ d) = leftover b (drop n d)"
proof -
  have split: "leftover b m @ d = (leftover b m @ take n d) @ drop n d"
    by simp
  have len: "length (leftover b m @ take n d) = b"
    using leftover_less [OF assms(1), of m] assms(2) by (simp add: n_def)
  show "absorbed f b s (m @ d) = absorbed f b (f (absorbed f b s m) (leftover b m @ take n d)) (drop n d)"
    by (simp only: absorbed_append [OF assms(1), of f s m d] split absorbed_one_block [OF len assms(1)])
  show "leftover b (m @ d) = leftover b (drop n d)"
    by (simp only: leftover_append [OF assms(1), of m d] split leftover_one_block [OF len assms(1)])
qed

lemma absorb_empty:
  assumes "0 < b" "leftover b m = []"
  shows "absorbed f b s (m @ d) = absorbed f b (absorbed f b s m) d" "leftover b (m @ d) = leftover b d"
  using absorbed_append [OF assms(1), of f s m d] leftover_append [OF assms(1), of m d] assms(2)
  by (simp_all only: append_Nil)

section \<open>The bit counter\<close>

text \<open>
  A context counts the bits of the message in a low and a high word. An update adds
  \<open>len << 3\<close> to the low word, the carry and \<open>len >> (w - 3)\<close> to the high word.
\<close>

lemma unat_word_of_nat_mod: "unat (word_of_nat n :: 'a::len word) = n mod 2 ^ LENGTH('a)"
  by (simp add: unsigned_of_nat take_bit_eq_mod)

lemma word_of_nat_eqI:
  "m mod 2 ^ LENGTH('a) = n mod 2 ^ LENGTH('a) \<Longrightarrow> word_of_nat m = (word_of_nat n :: 'a::len word)"
  by (simp add: word_of_nat_eq_iff take_bit_eq_mod)

lemma counter_low:
  "word_of_nat (8 * t) + push_bit 3 (word_of_nat n) = (word_of_nat (8 * (t + n)) :: 'a::len word)"
  by (simp add: push_bit_eq_mult algebra_simps)

lemma counter_high:
  fixes t n :: nat
  assumes w_def: "w = LENGTH('a::len)" and k: "w = 3 + k"
  defines "l \<equiv> word_of_nat (8 * (t + n)) :: 'a word"
  shows "word_of_nat (8 * t div 2 ^ w) + (if l < word_of_nat (8 * t) then 1 else 0) +
      word_of_nat (n div 2 ^ k) = (word_of_nat (8 * (t + n) div 2 ^ w) :: 'a word)"
proof -
  define a where "a = 8 * t" define c where "c = 8 * n"
  define W where "W = (2::nat) ^ w"
  have W: "0 < W" "W = 8 * 2 ^ k"
    by (simp_all add: W_def k power_add)
  have c: "n div 2 ^ k = c div W"
    unfolding W(2) c_def by simp
  have ac: "8 * (t + n) = a + c"
    by (simp add: a_def c_def)
  have less: "l < word_of_nat (8 * t) \<longleftrightarrow> (a + c) mod W < a mod W"
    unfolding l_def word_less_nat_alt unat_word_of_nat_mod ac W_def w_def a_def ..
  have carry: "(a + c) div W = a div W + c div W + (if (a + c) mod W < a mod W then 1 else 0)"
  proof -
    have "(a + c) div W = a div W + c div W + (a mod W + c mod W) div W"
      by (rule div_add1_eq)
    moreover have "(a mod W + c mod W) div W = (if (a + c) mod W < a mod W then 1 else 0)"
    proof (cases "a mod W + c mod W < W")
      case True
      then have "(a + c) mod W = a mod W + c mod W"
        by (metis mod_add_eq mod_less)
      with True show ?thesis by simp
    next
      case False
      have *: "a mod W < W" "c mod W < W"
        using W by simp_all
      then have "a mod W + c mod W - W < W"
        by linarith
      with False W(1) have "(a mod W + c mod W) div W = 1" "(a mod W + c mod W) mod W = a mod W + c mod W - W"
        by (simp_all add: le_div_geq le_mod_geq not_less)
      moreover have "(a + c) mod W = (a mod W + c mod W) mod W"
        by (simp add: mod_add_eq)
      ultimately show ?thesis
        using * False by auto
    qed
    ultimately show ?thesis by simp
  qed
  have "(word_of_nat ((a + c) div W) :: 'a word) =
      word_of_nat (a div W) + word_of_nat (c div W) + (if (a + c) mod W < a mod W then 1 else 0)"
    by (subst carry) (simp add: if_distrib [of word_of_nat])
  then have "(word_of_nat ((a + c) div W) :: 'a word) =
      word_of_nat (a div W) + (if l < word_of_nat a then 1 else 0) + word_of_nat (c div W)"
    by (simp only: less [folded a_def] ac_simps)
  then show ?thesis
    unfolding c ac unfolding a_def W_def by (rule sym)
qed

section \<open>Big-endian numbers\<close>

text \<open>
  The big-endian reading of a run of bytes, the bytes of a word with the most significant first, and
  the last \<open>k\<close> base-256 digits of a number.
\<close>

definition word_of_be :: "bytes \<Rightarrow> 'a::len word" where
  "word_of_be bs = foldl (\<lambda>w b. push_bit 8 w OR ucast b) 0 bs"

definition be_of_word :: "nat \<Rightarrow> 'a::len word \<Rightarrow> bytes" where
  "be_of_word k w = map (\<lambda>i. ucast (drop_bit (8 * (k - 1 - i)) w)) [0..<k]"

definition be_of_nat :: "nat \<Rightarrow> nat \<Rightarrow> bytes" where
  "be_of_nat k n = map (\<lambda>i. word_of_nat (n div 256 ^ (k - 1 - i))) [0..<k]"

lemma length_be_of_word [simp]: "length (be_of_word k w) = k"
  by (simp add: be_of_word_def)

lemma length_be_of_nat [simp]: "length (be_of_nat k n) = k"
  by (simp add: be_of_nat_def)

lemma be_of_word_of_nat:
  assumes "8 * k \<le> LENGTH('a)"
  shows "be_of_word k (word_of_nat n :: 'a::len word) = be_of_nat k n"
proof -
  have "(ucast (drop_bit (8 * j) (word_of_nat n :: 'a word)) :: u8) = word_of_nat (n div 256 ^ j)"
    if "j < k" for j
  proof (rule bit_word_eqI)
    fix i assume "i < LENGTH(8)"
    moreover have "n div 256 ^ j = drop_bit (8 * j) n"
      by (simp add: drop_bit_eq_div power_mult)
    ultimately show "bit (ucast (drop_bit (8 * j) (word_of_nat n :: 'a word)) :: u8) i =
        bit (word_of_nat (n div 256 ^ j) :: u8) i"
      using assms that by (simp add: bit_simps)
  qed
  then show ?thesis
    by (auto simp: be_of_word_def be_of_nat_def)
qed

lemma be_of_nat_append: "be_of_nat k (n div 256 ^ l) @ be_of_nat l n = be_of_nat (k + l) n"
proof (rule nth_equalityI)
  fix i assume "i < length (be_of_nat k (n div 256 ^ l) @ be_of_nat l n)"
  then show "(be_of_nat k (n div 256 ^ l) @ be_of_nat l n) ! i = be_of_nat (k + l) n ! i"
    by (auto simp: be_of_nat_def nth_append div_mult2_eq [symmetric] power_add [symmetric] add.commute [of k l])
qed simp

section \<open>Merkle-Damgard padding\<close>

text \<open>
  The padding of FIPS 180-4, section 5.1: a one bit, the least number of zero bits, and the length of
  the message in bits in the last \<open>l\<close> bytes of a block of \<open>b\<close> bytes. The hash absorbs the padded
  message.
\<close>

definition md_pad :: "nat \<Rightarrow> nat \<Rightarrow> bytes \<Rightarrow> bytes" where
  "md_pad b l m = m @ [0x80] @ replicate ((b - (length m + 1 + l) mod b) mod b) 0 @ be_of_nat l (8 * length m)"

lemma md_pad_whole_blocks: "0 < b \<Longrightarrow> length (md_pad b l m) mod b = 0"
proof -
  assume b: "0 < b"
  have "(x + (b - x mod b) mod b) mod b = 0" for x
    using b by (metis add.commute le_add_diff_inverse2 mod_add_right_eq mod_add_left_eq mod_le_divisor mod_self)
  from this [of "length m + 1 + l"] show ?thesis
    by (simp add: md_pad_def algebra_simps)
qed

lemma absorbed_md_pad:
  fixes m :: bytes and iv :: 's and f :: "'s \<Rightarrow> bytes \<Rightarrow> 's"
  assumes b: "l < b"
  defines "r \<equiv> leftover b m" and "s \<equiv> absorbed f b iv m" and "n \<equiv> be_of_nat l (8 * length m)"
  shows "length r + 1 + l \<le> b \<Longrightarrow>
      absorbed f b iv (md_pad b l m) = f s (r @ 0x80 # replicate (b - l - length r - 1) 0 @ n)"
    and "b < length r + 1 + l \<Longrightarrow>
      absorbed f b iv (md_pad b l m) =
        f (f s (r @ 0x80 # replicate (b - length r - 1) 0)) (replicate (b - l) 0 @ n)"
proof -
  have b0: "0 < b" and r: "length r < b" and n: "length n = l"
    using b by (simp_all add: r_def n_def)
  let ?z = "(b - (length m + 1 + l) mod b) mod b"
  have z: "?z = (b - (length r + 1 + l) mod b) mod b"
    unfolding r_def length_leftover add.assoc by (simp only: mod_add_left_eq)
  have *: "absorbed f b iv (md_pad b l m) = absorbed f b s (r @ 0x80 # replicate ?z 0 @ n)"
    unfolding s_def r_def n_def md_pad_def by (subst absorbed_append [OF b0]) simp
  have one: "absorbed f b t d = f t d" if "length d = b" for t d
    using absorbed_one_block [OF that b0, of f t "[]"] by simp
  {
    assume fits: "length r + 1 + l \<le> b"
    then have "?z = b - l - length r - 1"
      unfolding z by (cases "length r + 1 + l = b") auto
    then show "absorbed f b iv (md_pad b l m) = f s (r @ 0x80 # replicate (b - l - length r - 1) 0 @ n)"
      unfolding * by (subst one) (use fits n in auto)
  next
    assume two: "b < length r + 1 + l"
    then have "(length r + 1 + l) mod b = length r + 1 + l - b"
      using r b by (simp add: le_mod_geq)
    with two r b have "?z = 2 * b - (length r + 1 + l)"
      unfolding z by simp
    then have zz: "?z = (b - length r - 1) + (b - l)"
      using r b by simp
    have "r @ 0x80 # replicate ?z 0 @ n =
        (r @ 0x80 # replicate (b - length r - 1) 0) @ replicate (b - l) 0 @ n"
      unfolding zz replicate_add by simp
    then show "absorbed f b iv (md_pad b l m) =
        f (f s (r @ 0x80 # replicate (b - length r - 1) 0)) (replicate (b - l) 0 @ n)"
      unfolding * using r b n
      by (simp only:) (subst absorbed_one_block; simp add: one b0)
  }
qed

section \<open>The interface of a streaming hash\<close>

text \<open>
  What the callers of a hash rely on: a relation between a context and the message it has taken,
  which an update extends and from which the last step computes the hash of the message. It follows
  that only the concatenation of the pieces matters, not where the caller cuts them.
\<close>

locale streaming_hash =
  fixes holds :: "bytes \<Rightarrow> 'c \<Rightarrow> bool"
    and update :: "'c \<Rightarrow> bytes \<Rightarrow> 'c"
    and final :: "'c \<Rightarrow> bytes"
    and hash :: "bytes \<Rightarrow> bytes"
  assumes holds_update: "holds m c \<Longrightarrow> holds (m @ d) (update c d)"
    and final_hash: "holds m c \<Longrightarrow> final c = hash m"
begin

lemma holds_updates: "holds m c \<Longrightarrow> holds (m @ concat ds) (foldl update c ds)"
proof (induction ds arbitrary: m c)
  case (Cons d ds)
  from Cons.IH [OF holds_update [OF Cons.prems, of d]] show ?case
    by simp
qed simp

lemma final_updates: "holds m c \<Longrightarrow> final (foldl update c ds) = hash (m @ concat ds)"
  by (rule final_hash [OF holds_updates])

lemma final_rechunk:
  "holds m c \<Longrightarrow> concat ds = concat es \<Longrightarrow> final (foldl update c ds) = final (foldl update c es)"
  by (simp add: final_updates)

end

end
