(* ===== verification/SHA2_Rounds.thy ===== *)
theory SHA2_Rounds
  imports Hash_Blocks
begin

text \<open>
  The round structure of the SHA-2 family. \<open>sha256.c\<close> and \<open>sha512.c\<close> spell the same macros over
  32-bit and over 64-bit words: eight registers whose names rotate from round to round, instead of
  moving their contents, and a ring of sixteen words instead of the whole message schedule. The
  macros are defined here once over words of any width; the abstract side is the compression
  function of FIPS 180-4, which moves the registers and keeps the whole schedule.
\<close>

section \<open>The macros\<close>

definition Ch :: "'a::len word \<Rightarrow> 'a word \<Rightarrow> 'a word \<Rightarrow> 'a word" where
  "Ch x y z = (x AND y) XOR (NOT x AND z)"

definition Maj :: "'a::len word \<Rightarrow> 'a word \<Rightarrow> 'a word \<Rightarrow> 'a word" where
  "Maj x y z = (x AND y) XOR (x AND z) XOR (y AND z)"

text \<open>
  The registers \<open>a .. h\<close> are a list of eight words. The call of round \<open>j\<close> passes them rotated by
  \<open>j\<close> places to the right: parameter \<open>k\<close> of the macro (0 for \<open>a\<close>, 7 for \<open>h\<close>) is register
  \<open>reg j k\<close>. The body assigns to the registers that are its parameters \<open>d\<close> and \<open>h\<close>.
\<close>

definition reg :: "nat \<Rightarrow> nat \<Rightarrow> nat" where
  "reg j k = (k + 8 - j mod 8) mod 8"

definition round_body ::
  "('a::len word \<Rightarrow> 'a word) \<Rightarrow> ('a word \<Rightarrow> 'a word) \<Rightarrow> 'a word \<Rightarrow> nat \<Rightarrow> 'a word \<Rightarrow> 'a word list \<Rightarrow> 'a word list" where
  "round_body S0 S1 k j T1 v =
     (let T1 = T1 + (v ! reg j 7 + S1 (v ! reg j 4) + Ch (v ! reg j 4) (v ! reg j 5) (v ! reg j 6) + k);
          h = S0 (v ! reg j 0) + Maj (v ! reg j 0) (v ! reg j 1) (v ! reg j 2);
          d = v ! reg j 3 + T1;
          h = h + T1
      in v[reg j 3 := d, reg j 7 := h])"

text \<open>The message schedule of rounds 16 and later: the new value of the ring at \<open>j & 15\<close>.\<close>

definition ring_step :: "('a::len word \<Rightarrow> 'a word) \<Rightarrow> ('a word \<Rightarrow> 'a word) \<Rightarrow> nat \<Rightarrow> 'a word list \<Rightarrow> 'a word list" where
  "ring_step s0 s1 j X =
     (let x0 = s0 (X ! ((j + 1) AND 15));
          x1 = s1 (X ! ((j + 14) AND 15))
      in X[j AND 15 := X ! (j AND 15) + (x0 + x1 + X ! ((j + 9) AND 15))])"

text \<open>A rotation written with two shifts.\<close>

lemma rotr_shifts:
  fixes x :: "'a::len word"
  assumes "s < LENGTH('a)"
  shows "drop_bit s x OR push_bit (LENGTH('a) - s) x = word_rotr s x"
proof (rule bit_word_eqI)
  fix n
  assume n: "n < LENGTH('a)"
  have beyond: "bit x m \<Longrightarrow> m < LENGTH('a)" for m
    by (rule bit_imp_le_length)
  show "bit (drop_bit s x OR push_bit (LENGTH('a) - s) x) n = bit (word_rotr s x) n"
  proof (cases "n + s < LENGTH('a)")
    case True
    with n show ?thesis
      by (auto simp: bit_simps bit_word_rotr_iff add.commute)
  next
    case False
    then have "(n + s) mod LENGTH('a) = n - (LENGTH('a) - s)"
      using n assms by (simp add: le_mod_geq)
    with False n assms beyond [of "s + n"] show ?thesis
      by (auto simp: bit_simps bit_word_rotr_iff)
  qed
qed

section \<open>FIPS 180-4\<close>

text \<open>
  Section 6.2.2 and 6.4.2. \<open>fips_words s0 s1 M n\<close> is the schedule extended by \<open>n\<close> words after the
  sixteen of the block; \<open>fips_step\<close> is one round.
\<close>

fun fips_words :: "('a::len word \<Rightarrow> 'a word) \<Rightarrow> ('a word \<Rightarrow> 'a word) \<Rightarrow> 'a word list \<Rightarrow> nat \<Rightarrow> 'a word list" where
  "fips_words s0 s1 M 0 = M"
| "fips_words s0 s1 M (Suc n) =
     (let W = fips_words s0 s1 M n
      in W @ [s1 (W ! (n + 14)) + W ! (n + 9) + s0 (W ! (n + 1)) + W ! n])"

definition fips_step ::
  "('a::len word \<Rightarrow> 'a word) \<Rightarrow> ('a word \<Rightarrow> 'a word) \<Rightarrow> 'a word \<Rightarrow> 'a word \<Rightarrow> 'a word list \<Rightarrow> 'a word list" where
  "fips_step S0 S1 k w v =
     (let T1 = v ! 7 + S1 (v ! 4) + Ch (v ! 4) (v ! 5) (v ! 6) + k + w;
          T2 = S0 (v ! 0) + Maj (v ! 0) (v ! 1) (v ! 2)
      in [T1 + T2, v ! 0, v ! 1, v ! 2, v ! 3 + T1, v ! 4, v ! 5, v ! 6])"

definition fips_compress ::
  "('a::len word \<Rightarrow> 'a word) \<Rightarrow> ('a word \<Rightarrow> 'a word) \<Rightarrow> ('a word \<Rightarrow> 'a word) \<Rightarrow> ('a word \<Rightarrow> 'a word) \<Rightarrow>
   'a word list \<Rightarrow> 'a word list \<Rightarrow> 'a word list \<Rightarrow> 'a word list" where
  "fips_compress S0 S1 s0 s1 K H M =
     (let W = fips_words s0 s1 M (length K - 16)
      in map2 (+) H (fold (\<lambda>t. fips_step S0 S1 (K ! t) (W ! t)) [0..<length K] H))"

section \<open>The registers\<close>

text \<open>The registers in the order in which round \<open>t\<close> names them.\<close>

definition view :: "nat \<Rightarrow> 'a list \<Rightarrow> 'a list" where
  "view t v = map (\<lambda>k. v ! reg t k) [0..<8]"

lemma list8_cases:
  assumes "length xs = 8"
  obtains a b c d e f g h where "xs = [a, b, c, d, e, f, g, h]"
  using assms by (auto simp: numeral_eq_Suc length_Suc_conv)

lemma less8_cases:
  assumes "(n::nat) < 8"
  obtains "n = 0" | "n = 1" | "n = 2" | "n = 3" | "n = 4" | "n = 5" | "n = 6" | "n = 7"
  using assms by linarith

lemma length_round_body [simp]: "length (round_body S0 S1 k j T1 v) = length v"
  by (simp add: round_body_def Let_def)

lemma view_0: "length v = 8 \<Longrightarrow> view 0 v = v"
  by (erule list8_cases) (simp add: view_def reg_def upt_rec)

lemma view_mod8: "view (8 * n) v = view 0 v"
  by (simp add: view_def reg_def)

lemma reg_mod: "reg (j mod 8) k = reg j k"
  by (simp add: reg_def)

lemma reg_Suc_mod: "reg (Suc (j mod 8)) k = reg (Suc j) k"
  by (simp add: reg_def mod_Suc_eq)

lemma view_round_body:
  assumes "length v = 8"
  shows "view (Suc j) (round_body S0 S1 k j w v) = fips_step S0 S1 k w (view j v)"
proof -
  have "view (Suc i) (round_body S0 S1 k i w v) = fips_step S0 S1 k w (view i v)" if "i < 8" for i
    using assms that
    by (elim list8_cases less8_cases)
      (simp_all add: view_def reg_def round_body_def fips_step_def upt_rec Let_def ac_simps)
  from this [of "j mod 8"] show ?thesis
    by (simp add: view_def round_body_def reg_mod reg_Suc_mod)
qed

section \<open>The ring\<close>

lemma and_15: "n AND 15 = n mod 16" for n :: nat
proof -
  have "n AND 15 = take_bit 4 n"
    by (simp add: take_bit_eq_mask mask_eq_exp_minus_1)
  then show ?thesis by (simp add: take_bit_eq_mod)
qed

lemma length_fips_words: "length (fips_words s0 s1 M n) = length M + n"
  by (induction n) (simp_all add: Let_def)

lemma fips_words_stable:
  "i < length M + n \<Longrightarrow> n \<le> k \<Longrightarrow> fips_words s0 s1 M k ! i = fips_words s0 s1 M n ! i"
proof (induction k)
  case (Suc k)
  then show ?case
    by (cases "n = Suc k") (auto simp: Let_def nth_append length_fips_words)
qed simp

lemma fips_words_start: "i < length M \<Longrightarrow> fips_words s0 s1 M n ! i = M ! i"
  using fips_words_stable [of i M 0 n] by simp

lemma fips_words_next:
  fixes s0 s1 :: "'a::len word \<Rightarrow> 'a word"
  assumes "length M = 16" "16 \<le> t" "t < 16 + n"
  defines "W \<equiv> fips_words s0 s1 M n"
  shows "W ! t = W ! (t - 16) + (s0 (W ! (t - 15)) + s1 (W ! (t - 2)) + W ! (t - 7))"
proof -
  define k where "k = t - 16"
  have t: "t = k + 16" and kn: "Suc k \<le> n"
    using assms by (simp_all add: k_def)
  have "W ! i = fips_words s0 s1 M k ! i" if "i < 16 + k" for i
    unfolding W_def using assms(1) that kn by (intro fips_words_stable) auto
  then have low: "W ! k = fips_words s0 s1 M k ! k" "W ! Suc k = fips_words s0 s1 M k ! Suc k"
      "W ! (k + 9) = fips_words s0 s1 M k ! (k + 9)" "W ! (k + 14) = fips_words s0 s1 M k ! (k + 14)"
    by simp_all
  have "W ! t = fips_words s0 s1 M (Suc k) ! t"
    unfolding W_def using assms(1) t kn by (intro fips_words_stable) auto
  also have "\<dots> = s1 (W ! (k + 14)) + W ! (k + 9) + s0 (W ! (k + 1)) + W ! k"
    using assms(1) by (simp add: Let_def nth_append length_fips_words t low)
  finally show ?thesis
    by (simp add: t ac_simps)
qed

text \<open>Before round \<open>t\<close> the ring holds the last sixteen words of the schedule.\<close>

definition ring :: "'a list \<Rightarrow> nat \<Rightarrow> 'a list \<Rightarrow> bool" where
  "ring W t X \<longleftrightarrow> length X = 16 \<and> (\<forall>u. u < t \<longrightarrow> t \<le> u + 16 \<longrightarrow> X ! (u mod 16) = W ! u)"

lemma ring_update:
  assumes "ring W t X"
  shows "ring W (Suc t) (X[t mod 16 := W ! t])"
  unfolding ring_def
proof (intro conjI allI impI)
  show "length (X[t mod 16 := W ! t]) = 16"
    using assms by (simp add: ring_def)
next
  fix u
  assume u: "u < Suc t" "Suc t \<le> u + 16"
  show "X[t mod 16 := W ! t] ! (u mod 16) = W ! u"
  proof (cases "u = t")
    case True
    with assms show ?thesis by (simp add: ring_def)
  next
    case False
    have "u mod 16 \<noteq> t mod 16"
    proof
      assume "u mod 16 = t mod 16"
      then have "16 dvd t - u"
        using u by (simp add: mod_eq_dvd_iff_nat [symmetric])
      then show False
        using u False by (auto dest: dvd_imp_le)
    qed
    with False u assms show ?thesis by (simp add: ring_def)
  qed
qed

lemma ring_step_next:
  assumes X: "ring W t X" and t: "16 \<le> t"
    and W: "W ! t = W ! (t - 16) + (s0 (W ! (t - 15)) + s1 (W ! (t - 2)) + W ! (t - 7))"
  shows "ring_step s0 s1 t X = X[t mod 16 := W ! t]"
proof -
  have at: "X ! (u mod 16) = W ! u" if "u < t" "t \<le> u + 16" for u
    using X that by (simp add: ring_def)
  have eqs: "t mod 16 = (t - 16) mod 16" "(t + 1) mod 16 = (t - 15) mod 16"
    "(t + 14) mod 16 = (t - 2) mod 16" "(t + 9) mod 16 = (t - 7) mod 16"
    using t by (simp_all add: le_mod_geq)
  have *: "X ! (t mod 16) = W ! (t - 16)" "X ! ((t + 1) mod 16) = W ! (t - 15)"
    "X ! ((t + 14) mod 16) = W ! (t - 2)" "X ! ((t + 9) mod 16) = W ! (t - 7)"
    unfolding eqs using t by (simp_all add: at)
  show ?thesis
    by (simp only: ring_step_def and_15 Let_def * W)
qed

section \<open>A whole run of rounds\<close>

text \<open>
  The two loops of a block function, as they are written: sixteen rounds that load the block, then
  the rounds that extend the schedule in the ring.
\<close>

definition load_round ::
  "('a::len word \<Rightarrow> 'a word) \<Rightarrow> ('a word \<Rightarrow> 'a word) \<Rightarrow> 'a word list \<Rightarrow> (nat \<Rightarrow> 'a word) \<Rightarrow>
   nat \<Rightarrow> 'a word list \<times> 'a word list \<Rightarrow> 'a word list \<times> 'a word list" where
  "load_round S0 S1 K ld j = (\<lambda>(X, v).
     (let T1 = ld j; X = X[j := T1] in (X, round_body S0 S1 (K ! j) j T1 v)))"

definition ring_round ::
  "('a::len word \<Rightarrow> 'a word) \<Rightarrow> ('a word \<Rightarrow> 'a word) \<Rightarrow> ('a word \<Rightarrow> 'a word) \<Rightarrow> ('a word \<Rightarrow> 'a word) \<Rightarrow>
   'a word list \<Rightarrow> nat \<Rightarrow> nat \<Rightarrow> 'a word list \<times> 'a word list \<Rightarrow> 'a word list \<times> 'a word list" where
  "ring_round S0 S1 s0 s1 K i j = (\<lambda>(X, v).
     (let X = ring_step s0 s1 j X; T1 = X ! (j AND 15) in (X, round_body S0 S1 (K ! i) j T1 v)))"

text \<open>The state before round \<open>t\<close>, seen through the ring and the rotation of the names.\<close>

definition simulates :: "'a list \<Rightarrow> nat \<Rightarrow> 'a list \<Rightarrow> 'a list \<times> 'a list \<Rightarrow> bool" where
  "simulates W t r s \<longleftrightarrow> ring W t (fst s) \<and> length (snd s) = 8 \<and> view t (snd s) = r"

lemma load_round_simulates:
  assumes "simulates W t r s" "t < 16" "ld t = W ! t"
  shows "simulates W (Suc t) (fips_step S0 S1 (K ! t) (W ! t) r) (load_round S0 S1 K ld t s)"
  using assms ring_update [of W t "fst s"] view_round_body [of "snd s" t S0 S1 "K ! t" "W ! t"]
  by (cases s) (simp add: simulates_def load_round_def Let_def)

lemma ring_round_mod16:
  assumes "j mod 16 = j' mod 16"
  shows "ring_round S0 S1 s0 s1 K i j = ring_round S0 S1 s0 s1 K i j'"
proof -
  have 16: "(j + d) mod 16 = (j' + d) mod 16" for d
    using assms by (metis mod_add_left_eq)
  have "ring_step s0 s1 j X = ring_step s0 s1 j' X" for X
    by (simp only: ring_step_def and_15 assms 16)
  moreover have "j mod 8 = j' mod 8"
    using assms mod_mod_cancel [of 8 16 j] mod_mod_cancel [of 8 16 j'] by simp
  then have "round_body S0 S1 k j w v = round_body S0 S1 k j' w v" for k w v
    by (simp only: round_body_def reg_def)
  ultimately show ?thesis
    by (simp only: ring_round_def and_15 assms)
qed

lemma ring_round_simulates:
  assumes s: "simulates W t r s" and t: "16 \<le> t"
    and W: "W ! t = W ! (t - 16) + (s0 (W ! (t - 15)) + s1 (W ! (t - 2)) + W ! (t - 7))"
  shows "simulates W (Suc t) (fips_step S0 S1 (K ! t) (W ! t) r) (ring_round S0 S1 s0 s1 K t t s)"
proof -
  obtain X v where s': "s = (X, v)" by (cases s)
  with s have X: "ring W t X" and v: "length v = 8" "view t v = r"
    by (simp_all add: simulates_def)
  have *: "ring_step s0 s1 t X = X[t mod 16 := W ! t]"
    using X t W by (rule ring_step_next)
  have "X[t mod 16 := W ! t] ! (t AND 15) = W ! t"
    using X by (simp add: ring_def and_15)
  then show ?thesis
    using ring_update [OF X] view_round_body [OF v(1), of t S0 S1 "K ! t" "W ! t"] v
    by (simp add: s' simulates_def ring_round_def Let_def *)
qed

lemma rounds_simulate:
  fixes s0 s1 :: "'a::len word \<Rightarrow> 'a word"
  assumes M: "length M = 16" "\<And>i. i < 16 \<Longrightarrow> ld i = M ! i" and H: "length H = 8"
    and X: "length X = 16" and R: "16 \<le> length K"
  defines "W \<equiv> fips_words s0 s1 M (length K - 16)"
  shows "simulates W (length K) (fold (\<lambda>t. fips_step S0 S1 (K ! t) (W ! t)) [0..<length K] H)
    (fold (\<lambda>t. ring_round S0 S1 s0 s1 K t t) [16..<length K] (fold (load_round S0 S1 K ld) [0..<16] (X, H)))"
proof -
  let ?f = "\<lambda>t. fips_step S0 S1 (K ! t) (W ! t)"
  have head: "n \<le> 16 \<Longrightarrow> simulates W n (fold ?f [0..<n] H) (fold (load_round S0 S1 K ld) [0..<n] (X, H))" for n
  proof (induction n)
    case 0
    show ?case using H X by (simp add: simulates_def ring_def view_0)
  next
    case (Suc n)
    then have "ld n = W ! n"
      by (simp add: M W_def fips_words_start)
    with Suc show ?case
      by (simp add: load_round_simulates)
  qed
  have "16 + n \<le> length K \<Longrightarrow> simulates W (16 + n) (fold ?f [0..<16 + n] H)
    (fold (\<lambda>t. ring_round S0 S1 s0 s1 K t t) [16..<16 + n] (fold (load_round S0 S1 K ld) [0..<16] (X, H)))" for n
  proof (induction n)
    case 0
    show ?case using head [of 16] by simp
  next
    case (Suc n)
    have "W ! (16 + n) = W ! (16 + n - 16) + (s0 (W ! (16 + n - 15)) + s1 (W ! (16 + n - 2)) + W ! (16 + n - 7))"
      unfolding W_def using Suc.prems by (intro fips_words_next M(1)) auto
    then have "simulates W (Suc (16 + n)) (?f (16 + n) (fold ?f [0..<16 + n] H))
      (ring_round S0 S1 s0 s1 K (16 + n) (16 + n) (fold (\<lambda>t. ring_round S0 S1 s0 s1 K t t) [16..<16 + n]
        (fold (load_round S0 S1 K ld) [0..<16] (X, H))))"
      using Suc by (intro ring_round_simulates) auto
    then show ?case
      by (simp only: add_Suc_right upt_Suc_append le0 le_add1 fold_append fold_simps o_apply)
  qed
  from this [of "length K - 16"] R show ?thesis
    by simp
qed

text \<open>A block function built from the two loops is the compression function of the standard.\<close>

lemma rounds_compress:
  assumes "length M = 16" "\<And>i. i < 16 \<Longrightarrow> ld i = M ! i" "length H = 8" "length X = 16"
    "16 \<le> length K" "length K mod 8 = 0"
  shows "map2 (+) H (snd (fold (\<lambda>t. ring_round S0 S1 s0 s1 K t t) [16..<length K]
      (fold (load_round S0 S1 K ld) [0..<16] (X, H)))) = fips_compress S0 S1 s0 s1 K H M"
proof -
  define s where "s = fold (\<lambda>t. ring_round S0 S1 s0 s1 K t t) [16..<length K]
      (fold (load_round S0 S1 K ld) [0..<16] (X, H))"
  have sim: "length (snd s) = 8" "view (length K) (snd s) =
      fold (\<lambda>t. fips_step S0 S1 (K ! t) (fips_words s0 s1 M (length K - 16) ! t)) [0..<length K] H"
    using rounds_simulate [OF assms(1-5), of s0 s1 S0 S1] by (simp_all add: simulates_def s_def)
  from assms(6) obtain n where "length K = 8 * n"
    by (metis mod_0_imp_dvd dvd_def)
  then have "view (length K) (snd s) = snd s"
    using sim(1) by (simp add: view_mod8 view_0)
  with sim(2) show ?thesis
    by (simp add: fips_compress_def Let_def s_def)
qed

lemma length_fips_compress: "length H = 8 \<Longrightarrow> 0 < length K \<Longrightarrow> length (fips_compress S0 S1 s0 s1 K H M) = 8"
  by (cases "length K") (simp_all add: fips_compress_def Let_def fips_step_def)

lemma fold_upt_shift: "fold (\<lambda>j. g (i + j)) [0..<n] s = fold g [i..<i + n] s"
  by (induction n) simp_all

end
