(* ===== verification/SHA256.thy ===== *)
theory SHA256
  imports SHA2_Rounds
begin

text \<open>
  \<open>crypto/fipsmodule/sha/sha256.c\<close> with the collector of \<open>crypto/fipsmodule/digest/md32_common.h\<close>,
  which it instantiates: SHA-256 and SHA-224 over a streaming context. The block function is the
  portable one. The statements are those of theory \<open>SHA512\<close>, over 32-bit words, blocks of 64 bytes
  and a length of 64 bits.
\<close>

section \<open>Constants and macros\<close>

definition K256 :: "u32 list" where
  "K256 = [
     0x428A2F98, 0x71374491, 0xB5C0FBCF, 0xE9B5DBA5, 0x3956C25B, 0x59F111F1, 0x923F82A4, 0xAB1C5ED5,
     0xD807AA98, 0x12835B01, 0x243185BE, 0x550C7DC3, 0x72BE5D74, 0x80DEB1FE, 0x9BDC06A7, 0xC19BF174,
     0xE49B69C1, 0xEFBE4786, 0x0FC19DC6, 0x240CA1CC, 0x2DE92C6F, 0x4A7484AA, 0x5CB0A9DC, 0x76F988DA,
     0x983E5152, 0xA831C66D, 0xB00327C8, 0xBF597FC7, 0xC6E00BF3, 0xD5A79147, 0x06CA6351, 0x14292967,
     0x27B70A85, 0x2E1B2138, 0x4D2C6DFC, 0x53380D13, 0x650A7354, 0x766A0ABB, 0x81C2C92E, 0x92722C85,
     0xA2BFE8A1, 0xA81A664B, 0xC24B8B70, 0xC76C51A3, 0xD192E819, 0xD6990624, 0xF40E3585, 0x106AA070,
     0x19A4C116, 0x1E376C08, 0x2748774C, 0x34B0BCB5, 0x391C0CB3, 0x4ED8AA4A, 0x5B9CCA4F, 0x682E6FF3,
     0x748F82EE, 0x78A5636F, 0x84C87814, 0x8CC70208, 0x90BEFFFA, 0xA4506CEB, 0xBEF9A3F7, 0xC67178F2]"

definition ROTATE :: "u32 \<Rightarrow> nat \<Rightarrow> u32" where
  "ROTATE a n = push_bit n a OR drop_bit (32 - n) a"

definition HOST_c2l :: "bytes \<Rightarrow> u32" where
  "HOST_c2l c =
     push_bit 24 (ucast (c ! 0)) OR push_bit 16 (ucast (c ! 1)) OR
     push_bit 8 (ucast (c ! 2)) OR ucast (c ! 3)"

definition HOST_l2c :: "u32 \<Rightarrow> bytes" where
  "HOST_l2c l =
     [ucast (drop_bit 24 l AND 0xff), ucast (drop_bit 16 l AND 0xff),
      ucast (drop_bit 8 l AND 0xff), ucast (l AND 0xff)]"

definition Sigma0_256 :: "u32 \<Rightarrow> u32" where
  "Sigma0_256 x = ROTATE x 30 XOR ROTATE x 19 XOR ROTATE x 10"

definition Sigma1_256 :: "u32 \<Rightarrow> u32" where
  "Sigma1_256 x = ROTATE x 26 XOR ROTATE x 21 XOR ROTATE x 7"

definition sigma0_256 :: "u32 \<Rightarrow> u32" where
  "sigma0_256 x = ROTATE x 25 XOR ROTATE x 14 XOR drop_bit 3 x"

definition sigma1_256 :: "u32 \<Rightarrow> u32" where
  "sigma1_256 x = ROTATE x 15 XOR ROTATE x 13 XOR drop_bit 10 x"

definition ROUND_00_15_256 :: "bytes \<Rightarrow> nat \<Rightarrow> u32 list \<times> u32 list \<Rightarrow> u32 list \<times> u32 list" where
  "ROUND_00_15_256 data = load_round Sigma0_256 Sigma1_256 K256 (\<lambda>i. HOST_c2l (drop (i * 4) data))"

definition ROUND_16_63 :: "nat \<Rightarrow> u32 list \<times> u32 list \<Rightarrow> u32 list \<times> u32 list" where
  "ROUND_16_63 i = ring_round Sigma0_256 Sigma1_256 sigma0_256 sigma1_256 K256 i i"

section \<open>The block function\<close>

definition sha256_block :: "u32 list \<Rightarrow> bytes \<Rightarrow> u32 list" where
  "sha256_block state data =
     (let X = replicate 16 0;
          s = fold (ROUND_00_15_256 data) [0..<16] (X, state);
          s = fold (\<lambda>i. fold (\<lambda>k. ROUND_16_63 (i + k)) [0..<8]) [16, 24, 32, 40, 48, 56] s
      in map2 (+) state (snd s))"

fun sha256_block_data_order :: "u32 list \<Rightarrow> bytes \<Rightarrow> nat \<Rightarrow> u32 list" where
  "sha256_block_data_order state data 0 = state"
| "sha256_block_data_order state data (Suc num) =
     sha256_block_data_order (sha256_block state data) (drop 64 data) num"

section \<open>The context\<close>

record SHA256_CTX =
  sha256_h :: "u32 list"
  sha256_Nl :: u32
  sha256_Nh :: u32
  sha256_data :: bytes
  sha256_num :: nat
  sha256_md_len :: nat

text \<open>The context after \<open>OPENSSL_memset (sha, 0, sizeof (SHA256_CTX))\<close>.\<close>

definition zero_sha256_ctx :: SHA256_CTX where
  "zero_sha256_ctx = \<lparr>sha256_h = replicate 8 0, sha256_Nl = 0, sha256_Nh = 0,
     sha256_data = replicate 64 0, sha256_num = 0, sha256_md_len = 0\<rparr>"

definition SHA224_Init :: "SHA256_CTX \<Rightarrow> int \<times> SHA256_CTX" where
  "SHA224_Init sha = (1, zero_sha256_ctx
     \<lparr>sha256_h := [0xC1059ED8, 0x367CD507, 0x3070DD17, 0xF70E5939,
        0xFFC00B31, 0x68581511, 0x64F98FA7, 0xBEFA4FA4],
      sha256_md_len := 28\<rparr>)"

definition SHA256_Init :: "SHA256_CTX \<Rightarrow> int \<times> SHA256_CTX" where
  "SHA256_Init sha = (1, zero_sha256_ctx
     \<lparr>sha256_h := [0x6A09E667, 0xBB67AE85, 0x3C6EF372, 0xA54FF53A,
        0x510E527F, 0x9B05688C, 0x1F83D9AB, 0x5BE0CD19],
      sha256_md_len := 32\<rparr>)"

text \<open>
  \<open>HASH_UPDATE\<close> in three steps, as for SHA-512. The buffer is zeroed after it was used. A \<open>size_t\<close>
  is a \<open>nat\<close>, so \<open>len >> 29\<close> is \<open>len div 2 ^ 29\<close>; the sum \<open>len + n\<close> of the code is only read
  when \<open>len\<close> is less than a block, and then does not wrap.
\<close>

definition SHA256_count :: "SHA256_CTX \<Rightarrow> nat \<Rightarrow> SHA256_CTX" where
  "SHA256_count c len =
     (let l = sha256_Nl c + push_bit 3 (word_of_nat len);
          c = (if l < sha256_Nl c then c\<lparr>sha256_Nh := sha256_Nh c + 1\<rparr> else c);
          c = c\<lparr>sha256_Nh := sha256_Nh c + word_of_nat (len div 2 ^ 29)\<rparr>
      in c\<lparr>sha256_Nl := l\<rparr>)"

definition SHA256_Update_blocks :: "SHA256_CTX \<Rightarrow> bytes \<Rightarrow> SHA256_CTX" where
  "SHA256_Update_blocks c data =
     (let n = length data div 64;
          c = (if 0 < n then c\<lparr>sha256_h := sha256_block_data_order (sha256_h c) data n\<rparr> else c);
          data = (if 0 < n then drop (n * 64) data else data)
      in if length data \<noteq> 0
         then c\<lparr>sha256_num := length data, sha256_data := memcpy_at (sha256_data c) 0 data\<rparr> else c)"

definition SHA256_Update :: "SHA256_CTX \<Rightarrow> bytes \<Rightarrow> int \<times> SHA256_CTX" where
  "SHA256_Update c data =
     (if length data = 0 then (1, c)
      else
        let c = SHA256_count c (length data);
            n = sha256_num c
        in if n \<noteq> 0 then
             if 64 \<le> length data \<or> 64 \<le> length data + n then
               let c = c\<lparr>sha256_data := memcpy_at (sha256_data c) n (take (64 - n) data)\<rparr>;
                   c = c\<lparr>sha256_h := sha256_block_data_order (sha256_h c) (sha256_data c) 1\<rparr>;
                   c = c\<lparr>sha256_num := 0\<rparr>;
                   c = c\<lparr>sha256_data := memset_at (sha256_data c) 0 0 64\<rparr>
               in (1, SHA256_Update_blocks c (drop (64 - n) data))
             else (1, c\<lparr>sha256_data := memcpy_at (sha256_data c) n data, sha256_num := sha256_num c + length data\<rparr>)
           else (1, SHA256_Update_blocks c data))"

definition SHA224_Update :: "SHA256_CTX \<Rightarrow> bytes \<Rightarrow> int \<times> SHA256_CTX" where
  "SHA224_Update ctx data = SHA256_Update ctx data"

definition SHA256_Transform :: "SHA256_CTX \<Rightarrow> bytes \<Rightarrow> SHA256_CTX" where
  "SHA256_Transform c data = c\<lparr>sha256_h := sha256_block_data_order (sha256_h c) data 1\<rparr>"

definition SHA256_TransformBlocks :: "u32 list \<Rightarrow> bytes \<Rightarrow> nat \<Rightarrow> u32 list" where
  "SHA256_TransformBlocks state data num_blocks = sha256_block_data_order state data num_blocks"

text \<open>
  \<open>HASH_FINAL\<close>: padding and the last blocks, then \<open>HASH_MAKE_STRING\<close>, which returns 0 from the
  function for a digest length over 32 and truncates to whole words for the lengths it does not
  list.
\<close>

definition SHA256_pad :: "SHA256_CTX \<Rightarrow> SHA256_CTX" where
  "SHA256_pad c =
     (let n = sha256_num c;
          c = c\<lparr>sha256_data := (sha256_data c)[n := 0x80]\<rparr>;
          n = n + 1;
          (n, c) =
            (if 64 - 8 < n then
               let c = c\<lparr>sha256_data := memset_at (sha256_data c) n 0 (64 - n)\<rparr>
               in (0, c\<lparr>sha256_h := sha256_block_data_order (sha256_h c) (sha256_data c) 1\<rparr>)
             else (n, c));
          c = c\<lparr>sha256_data := memset_at (sha256_data c) n 0 (64 - 8 - n)\<rparr>;
          c = c\<lparr>sha256_data := memcpy_at (sha256_data c) (64 - 8) (HOST_l2c (sha256_Nh c))\<rparr>;
          c = c\<lparr>sha256_data := memcpy_at (sha256_data c) (64 - 4) (HOST_l2c (sha256_Nl c))\<rparr>;
          c = c\<lparr>sha256_h := sha256_block_data_order (sha256_h c) (sha256_data c) 1\<rparr>;
          c = c\<lparr>sha256_num := 0\<rparr>
      in c\<lparr>sha256_data := memset_at (sha256_data c) 0 0 64\<rparr>)"

definition SHA256_make_string :: "SHA256_CTX \<Rightarrow> int \<times> bytes" where
  "SHA256_make_string c =
     (if sha256_md_len c = 28 then (1, concat (map (\<lambda>nn. HOST_l2c (sha256_h c ! nn)) [0..<28 div 4]))
      else if sha256_md_len c = 32 then (1, concat (map (\<lambda>nn. HOST_l2c (sha256_h c ! nn)) [0..<32 div 4]))
      else if 32 < sha256_md_len c then (0, [])
      else (1, concat (map (\<lambda>nn. HOST_l2c (sha256_h c ! nn)) [0..<sha256_md_len c div 4])))"

definition SHA256_Final :: "SHA256_CTX \<Rightarrow> int \<times> bytes \<times> SHA256_CTX" where
  "SHA256_Final c =
     (let c = SHA256_pad c; (ret, out) = SHA256_make_string c in (ret, out, c))"

definition SHA224_Final :: "SHA256_CTX \<Rightarrow> int \<times> bytes \<times> SHA256_CTX" where
  "SHA224_Final ctx = SHA256_Final ctx"

definition SHA224 :: "SHA256_CTX \<Rightarrow> bytes \<Rightarrow> bytes" where
  "SHA224 ctx data =
     (let (_, ctx) = SHA224_Init ctx;
          (_, ctx) = SHA224_Update ctx data;
          (_, out, _) = SHA224_Final ctx
      in out)"

definition SHA256 :: "SHA256_CTX \<Rightarrow> bytes \<Rightarrow> bytes" where
  "SHA256 ctx data =
     (let (_, ctx) = SHA256_Init ctx;
          (_, ctx) = SHA256_Update ctx data;
          (_, out, _) = SHA256_Final ctx
      in out)"

section \<open>FIPS 180-4\<close>

text \<open>Sections 4.1.2, 5.2.1, 5.3.2, 5.3.3 and 6.2.\<close>

definition fips_block256 :: "bytes \<Rightarrow> u32 list" where
  "fips_block256 blk = map (\<lambda>i. word_of_be (take 4 (drop (4 * i) blk))) [0..<16]"

definition fips_compress256 :: "u32 list \<Rightarrow> bytes \<Rightarrow> u32 list" where
  "fips_compress256 H blk = fips_compress
     (\<lambda>x. word_rotr 2 x XOR word_rotr 13 x XOR word_rotr 22 x)
     (\<lambda>x. word_rotr 6 x XOR word_rotr 11 x XOR word_rotr 25 x)
     (\<lambda>x. word_rotr 7 x XOR word_rotr 18 x XOR drop_bit 3 x)
     (\<lambda>x. word_rotr 17 x XOR word_rotr 19 x XOR drop_bit 10 x)
     K256 H (fips_block256 blk)"

definition fips_iv256 :: "u32 list" where
  "fips_iv256 = [0x6a09e667, 0xbb67ae85, 0x3c6ef372, 0xa54ff53a,
     0x510e527f, 0x9b05688c, 0x1f83d9ab, 0x5be0cd19]"

definition fips_iv224 :: "u32 list" where
  "fips_iv224 = [0xc1059ed8, 0x367cd507, 0x3070dd17, 0xf70e5939,
     0xffc00b31, 0x68581511, 0x64f98fa7, 0xbefa4fa4]"

definition fips_hash256 :: "u32 list \<Rightarrow> nat \<Rightarrow> bytes \<Rightarrow> bytes" where
  "fips_hash256 iv d m =
     take d (concat (map (be_of_word 4) (absorbed fips_compress256 64 iv (md_pad 64 8 m))))"

abbreviation fips_sha256 :: "bytes \<Rightarrow> bytes" where
  "fips_sha256 \<equiv> fips_hash256 fips_iv256 32"

abbreviation fips_sha224 :: "bytes \<Rightarrow> bytes" where
  "fips_sha224 \<equiv> fips_hash256 fips_iv224 28"

section \<open>The block function is the compression function\<close>

lemma length_K256: "length K256 = 64"
  by (simp add: K256_def)

lemma ROTATE_word_rotr: "0 < s \<Longrightarrow> s < 32 \<Longrightarrow> ROTATE x s = word_rotr (32 - s) x"
  using rotr_shifts [of "32 - s" x] by (simp add: ROTATE_def or.commute)

lemma word_of_be_4:
  assumes "4 \<le> length p"
  shows "word_of_be (take 4 p) = HOST_c2l p"
proof -
  obtain a b c d where p: "take 4 p = [a, b, c, d]"
    using assms by (metis length_take min_absorb2 list4_cases)
  have "p ! i = take 4 p ! i" if "i < 4" for i
    using that by simp
  then have "p ! i = [a, b, c, d] ! i" if "i < 4" for i
    using that by (simp only: p)
  then show ?thesis
    unfolding HOST_c2l_def p by (simp add: word_of_be_def push_bit_or or.assoc)
qed

lemma HOST_l2c_eq: "HOST_l2c t = be_of_word 4 t"
proof -
  have "ucast (w AND 0xff) = (ucast w :: u8)" for w :: u32
  proof -
    have "w AND 0xff = take_bit 8 w"
      by (simp add: take_bit_eq_mask mask_eq_exp_minus_1)
    then show ?thesis
      by (intro bit_word_eqI) (simp add: bit_simps)
  qed
  then show ?thesis
    by (simp add: HOST_l2c_def be_of_word_def upt_rec)
qed

lemma ROUND_16_63_flat:
  "fold (\<lambda>i. fold (\<lambda>k. ROUND_16_63 (i + k)) [0..<8]) [16, 24, 32, 40, 48, 56] s =
   fold (\<lambda>t. ring_round Sigma0_256 Sigma1_256 sigma0_256 sigma1_256 K256 t t) [16..<length K256] s"
proof -
  let ?g = "\<lambda>t. ring_round Sigma0_256 Sigma1_256 sigma0_256 sigma1_256 K256 t t"
  have run: "fold (\<lambda>k. ROUND_16_63 (i + k)) [0..<8] s = fold ?g [i..<i + 8] s" for i s
    using fold_upt_shift [of ?g i 8] by (simp add: ROUND_16_63_def)
  have "[16..<64] = [16..<24] @ [24..<32] @ [32..<40] @ [40..<48] @ [48..<56] @ [56..<64::nat]"
    by simp
  then show ?thesis
    by (simp only: run length_K256 fold_append fold_simps o_apply) (simp del: upt_rec_numeral)
qed

lemma sha256_block_compress:
  assumes "length state = 8" "64 \<le> length inp"
  shows "sha256_block state inp = fips_compress256 state (take 64 inp)"
proof -
  have ld: "HOST_c2l (drop (i * 4) inp) = fips_block256 (take 64 inp) ! i" if "i < 16" for i
    using that assms(2) by (simp add: fips_block256_def word_of_be_4 [symmetric] take_drop min_def mult.commute)
  have "sha256_block state inp = fips_compress Sigma0_256 Sigma1_256 sigma0_256 sigma1_256 K256 state (fips_block256 (take 64 inp))"
    unfolding sha256_block_def Let_def ROUND_16_63_flat ROUND_00_15_256_def
    using assms(1) ld
    by (intro rounds_compress) (simp_all add: length_K256 fips_block256_def)
  then show ?thesis
    by (simp add: fips_compress256_def Sigma0_256_def [abs_def] Sigma1_256_def [abs_def] sigma0_256_def [abs_def]
      sigma1_256_def [abs_def] ROTATE_word_rotr)
qed

lemma length_fips_compress256 [simp]: "length H = 8 \<Longrightarrow> length (fips_compress256 H blk) = 8"
  by (simp add: fips_compress256_def length_fips_compress length_K256)

lemma block_data_order_hash_blocks256:
  assumes "length state = 8" "64 * num \<le> length inp"
  shows "sha256_block_data_order state inp num = hash_blocks fips_compress256 64 state inp num"
  using assms
proof (induction num arbitrary: state inp)
  case (Suc num)
  then show ?case
    by (simp add: sha256_block_compress)
qed simp

section \<open>What a context holds\<close>

text \<open>
  \<open>sha256_ctx iv d m c\<close>: the context \<open>c\<close> was initialised with the value \<open>iv\<close> and the digest length
  \<open>d\<close> and has taken the message \<open>m\<close>.
\<close>

definition sha256_ctx :: "u32 list \<Rightarrow> nat \<Rightarrow> bytes \<Rightarrow> SHA256_CTX \<Rightarrow> bool" where
  "sha256_ctx iv d m c \<longleftrightarrow>
     length iv = 8 \<and> sha256_md_len c = d \<and>
     sha256_h c = absorbed fips_compress256 64 iv m \<and>
     sha256_num c = length (leftover 64 m) \<and>
     length (sha256_data c) = 64 \<and> take (sha256_num c) (sha256_data c) = leftover 64 m \<and>
     sha256_Nl c = word_of_nat (8 * length m) \<and> sha256_Nh c = word_of_nat (8 * length m div 2 ^ 32)"

lemma length_absorbed256 [simp]:
  "length iv = 8 \<Longrightarrow> length (absorbed fips_compress256 64 iv m) = 8"
proof -
  have "length s = 8 \<Longrightarrow> length (hash_blocks fips_compress256 64 s xs n) = 8" for s xs n
    by (induction n arbitrary: s xs) simp_all
  then show "length iv = 8 \<Longrightarrow> ?thesis"
    by (simp add: absorbed_def)
qed

lemma sha256_ctx_init:
  shows "\<exists>c'. SHA256_Init c = (1, c') \<and> sha256_ctx fips_iv256 32 [] c'"
    "\<exists>c'. SHA224_Init c = (1, c') \<and> sha256_ctx fips_iv224 28 [] c'"
  by (simp_all add: SHA256_Init_def SHA224_Init_def sha256_ctx_def fips_iv256_def fips_iv224_def zero_sha256_ctx_def)

lemma one_block256:
  "length s = 8 \<Longrightarrow> length b = 64 \<Longrightarrow> sha256_block_data_order s b 1 = fips_compress256 s b"
  using block_data_order_hash_blocks256 [of s 1 b] by simp

lemma memset_64: "length q = 64 \<Longrightarrow> memset_at q 0 0 64 = replicate 64 (0 :: u8)"
  by (simp add: memset_at_def memcpy_at_def)

lemma SHA256_count_fields:
  "sha256_h (SHA256_count c n) = sha256_h c" "sha256_data (SHA256_count c n) = sha256_data c"
  "sha256_num (SHA256_count c n) = sha256_num c" "sha256_md_len (SHA256_count c n) = sha256_md_len c"
  by (simp_all add: SHA256_count_def Let_def)

lemma SHA256_count_value:
  assumes "sha256_Nl c = word_of_nat (8 * t)" "sha256_Nh c = word_of_nat (8 * t div 2 ^ 32)"
  shows "sha256_Nl (SHA256_count c n) = word_of_nat (8 * (t + n))"
    "sha256_Nh (SHA256_count c n) = word_of_nat (8 * (t + n) div 2 ^ 32)"
proof -
  show "sha256_Nl (SHA256_count c n) = word_of_nat (8 * (t + n))"
    using counter_low [of t n, where 'a = 32] assms(1) by (simp add: SHA256_count_def Let_def)
  show "sha256_Nh (SHA256_count c n) = word_of_nat (8 * (t + n) div 2 ^ 32)"
  proof -
    have "sha256_Nh (SHA256_count c n) = sha256_Nh c +
        (if sha256_Nl c + push_bit 3 (word_of_nat n) < sha256_Nl c then 1 else 0) + word_of_nat (n div 2 ^ 29)"
      by (simp add: SHA256_count_def Let_def)
    also have "\<dots> = word_of_nat (8 * (t + n) div 2 ^ 32)"
      unfolding assms counter_low by (rule counter_high) simp_all
    finally show ?thesis .
  qed
qed

text \<open>
  The whole blocks of the data are absorbed and the rest goes to the start of the buffer.
\<close>

lemma SHA256_Update_blocks_spec:
  assumes "length (sha256_h c) = 8" "length (sha256_data c) = 64" "sha256_num c = 0"
  shows "sha256_h (SHA256_Update_blocks c d) = absorbed fips_compress256 64 (sha256_h c) d"
    "sha256_num (SHA256_Update_blocks c d) = length (leftover 64 d)"
    "length (sha256_data (SHA256_Update_blocks c d)) = 64"
    "take (length (leftover 64 d)) (sha256_data (SHA256_Update_blocks c d)) = leftover 64 d"
    "sha256_Nl (SHA256_Update_blocks c d) = sha256_Nl c" "sha256_Nh (SHA256_Update_blocks c d) = sha256_Nh c"
    "sha256_md_len (SHA256_Update_blocks c d) = sha256_md_len c"
proof -
  let ?s = "hash_blocks fips_compress256 64 (sha256_h c) d (length d div 64)"
  have "sha256_block_data_order (sha256_h c) d (length d div 64) = ?s"
    using assms(1) by (intro block_data_order_hash_blocks256) (simp_all add: times_div_less_eq_dividend)
  moreover have "drop (length d div 64 * 64) d = leftover 64 d"
    by (simp add: leftover_def mult.commute)
  moreover have "length d div 64 = 0 \<Longrightarrow> ?s = sha256_h c \<and> leftover 64 d = d"
    by (simp add: leftover_def)
  ultimately have *: "SHA256_Update_blocks c d =
      (let c = c\<lparr>sha256_h := ?s\<rparr>; r = leftover 64 d
       in if length r \<noteq> 0 then c\<lparr>sha256_num := length r, sha256_data := memcpy_at (sha256_data c) 0 r\<rparr> else c)"
    by (cases "length d div 64 = 0")
      (simp_all only: SHA256_Update_blocks_def Let_def if_True if_False neq0_conv simp_thms less_numeral_extra, simp_all)
  have r: "length (leftover 64 d) < 64"
    by simp
  show "sha256_h (SHA256_Update_blocks c d) = absorbed fips_compress256 64 (sha256_h c) d"
    "sha256_num (SHA256_Update_blocks c d) = length (leftover 64 d)"
    "length (sha256_data (SHA256_Update_blocks c d)) = 64"
    "take (length (leftover 64 d)) (sha256_data (SHA256_Update_blocks c d)) = leftover 64 d"
    "sha256_Nl (SHA256_Update_blocks c d) = sha256_Nl c" "sha256_Nh (SHA256_Update_blocks c d) = sha256_Nh c"
    "sha256_md_len (SHA256_Update_blocks c d) = sha256_md_len c"
    using assms r by (auto simp: * Let_def absorbed_def memcpy_at_def simp del: length_leftover)
qed

lemma sha256_ctx_update:
  assumes "sha256_ctx iv md m c"
  shows "\<exists>c'. SHA256_Update c d = (1, c') \<and> sha256_ctx iv md (m @ d) c'"
proof (cases "d = []")
  case True
  with assms show ?thesis by (simp add: SHA256_Update_def)
next
  case False
  let ?c = "SHA256_count c (length d)" and ?r = "leftover 64 m"
  note ctx = assms [unfolded sha256_ctx_def]
  have count: "sha256_Nl ?c = word_of_nat (8 * length (m @ d))" "sha256_Nh ?c = word_of_nat (8 * length (m @ d) div 2 ^ 32)"
    using SHA256_count_value [of c "length m" "length d"] ctx by simp_all
  have r: "length ?r < 64" by simp
  show ?thesis
  proof (cases "?r = []")
    case True
    then have num: "sha256_num c = 0"
      using ctx by simp
    then have upd: "SHA256_Update c d = (1, SHA256_Update_blocks ?c d)"
      using False by (simp add: SHA256_Update_def SHA256_count_fields Let_def)
    have "sha256_ctx iv md (m @ d) (SHA256_Update_blocks ?c d)"
      unfolding sha256_ctx_def absorb_empty [OF _ True, simplified]
      using ctx num count by (simp add: SHA256_Update_blocks_spec SHA256_count_fields del: length_leftover)
    with upd show ?thesis by simp
  next
    case r0: False
    let ?n = "64 - length ?r"
    have num: "sha256_num c \<noteq> 0" "sha256_num c = length ?r"
      using r0 ctx by (simp_all del: length_leftover)
    show ?thesis
    proof (cases "length d < ?n")
      case True
      let ?c' = "?c\<lparr>sha256_data := memcpy_at (sha256_data ?c) (sha256_num ?c) d, sha256_num := sha256_num ?c + length d\<rparr>"
      have upd: "SHA256_Update c d = (1, ?c')"
        using False num True by (simp add: SHA256_Update_def SHA256_count_fields Let_def del: length_leftover)
      have short: "absorbed fips_compress256 64 iv (m @ d) = absorbed fips_compress256 64 iv m"
        "leftover 64 (m @ d) = ?r @ d"
        using True by (simp_all add: absorb_short)
      have "sha256_ctx iv md (m @ d) ?c'"
        unfolding sha256_ctx_def short using ctx count num True
        by (simp add: SHA256_count_fields buffer_simps del: length_leftover)
      with upd show ?thesis by blast
    next
      case fill: False
      let ?b = "memcpy_at (sha256_data c) (length ?r) (take ?n d)"
      let ?s = "fips_compress256 (absorbed fips_compress256 64 iv m) (?r @ take ?n d)"
      let ?c1 = "?c\<lparr>sha256_h := ?s, sha256_num := 0, sha256_data := replicate 64 0\<rparr>"
      have "take (length ?r) (sha256_data c) = ?r"
        using ctx by metis
      then have b: "?b = ?r @ take ?n d"
        using ctx fill r by (simp add: memcpy_at_full del: length_leftover)
      have len: "length (?r @ take ?n d) = 64"
        using fill r by simp
      have "sha256_block_data_order (absorbed fips_compress256 64 iv m) (?r @ take ?n d) 1 = ?s"
        using ctx len by (intro one_block256) simp_all
      moreover have "64 \<le> length d \<or> 64 \<le> length d + length ?r"
        using fill by linarith
      ultimately have upd: "SHA256_Update c d = (1, SHA256_Update_blocks ?c1 (drop ?n d))"
        using False num fill ctx b memset_64 [OF len]
        by (simp add: SHA256_Update_def SHA256_count_fields Let_def del: length_leftover sha256_block_data_order.simps)
      have fills: "absorbed fips_compress256 64 iv (m @ d) = absorbed fips_compress256 64 ?s (drop ?n d)"
        "leftover 64 (m @ d) = leftover 64 (drop ?n d)"
        using fill by (simp_all only: absorb_fill not_less zero_less_numeral)
      have "sha256_ctx iv md (m @ d) (SHA256_Update_blocks ?c1 (drop ?n d))"
        unfolding sha256_ctx_def fills using ctx count len b
        by (simp add: SHA256_Update_blocks_spec SHA256_count_fields del: length_leftover)
      with upd show ?thesis by blast
    qed
  qed
qed

section \<open>The digest\<close>

lemma length_field256:
  "HOST_l2c (word_of_nat (n div 2 ^ 32)) @ HOST_l2c (word_of_nat n) = be_of_nat 8 n"
proof -
  have "HOST_l2c (word_of_nat k) = be_of_nat 4 k" for k
    unfolding HOST_l2c_eq by (rule be_of_word_of_nat) simp
  moreover have "(2::nat) ^ 32 = 256 ^ 4"
    by simp
  ultimately show ?thesis
    using be_of_nat_append [of 4 n 4] by simp
qed

lemma memcpy_length_field256:
  assumes "length p = 64" "length a = 4" "length b = 4"
  shows "memcpy_at (memcpy_at p 56 a) 60 b = take 56 p @ a @ b"
  using assms by (simp add: memcpy_at_def)

lemma length_HOST_l2c [simp]: "length (HOST_l2c w) = 4"
  by (simp add: HOST_l2c_def)

lemma SHA256_pad_spec:
  assumes "sha256_ctx iv d m c"
  shows "sha256_h (SHA256_pad c) = absorbed fips_compress256 64 iv (md_pad 64 8 m)"
    "sha256_md_len (SHA256_pad c) = d" "length (sha256_data (SHA256_pad c)) = 64"
proof -
  define r where "r = leftover 64 m"
  define s where "s = absorbed fips_compress256 64 iv m"
  define n where "n = length r"
  define p where "p = sha256_data c"
  let ?len = "be_of_nat 8 (8 * length m)"
  have "take n p = r"
    using assms unfolding sha256_ctx_def r_def n_def p_def by metis
  then have ctx: "sha256_h c = s" "sha256_num c = n" "length p = 64" "take n p = r" "length s = 8"
    "sha256_Nl c = word_of_nat (8 * length m)" "sha256_Nh c = word_of_nat (8 * length m div 2 ^ 32)"
    "sha256_md_len c = d"
    using assms by (simp_all add: sha256_ctx_def r_def s_def n_def p_def del: length_leftover)
  have n: "n < 64"
    by (simp add: n_def r_def)
  have pad1: "take (n + 1) (p[n := 0x80]) = r @ [0x80]"
    using ctx n by (simp add: take_Suc_conv_app_nth)
  have len: "HOST_l2c (sha256_Nh c) @ HOST_l2c (sha256_Nl c) = ?len"
    unfolding ctx by (rule length_field256)
  have one: "sha256_block_data_order t b 1 = fips_compress256 t b" if "length t = 8" "length b = 64" for t b
    using that by (rule one_block256)
  have pad_def: "SHA256_pad c = (if 56 < n + 1
      then c\<lparr>sha256_num := 0, sha256_data := replicate 64 0,
        sha256_h := fips_compress256 (fips_compress256 s (r @ 0x80 # replicate (63 - n) 0)) (replicate 56 0 @ ?len)\<rparr>
      else c\<lparr>sha256_num := 0, sha256_data := replicate 64 0,
        sha256_h := fips_compress256 s (r @ 0x80 # replicate (55 - n) 0 @ ?len)\<rparr>)"
  proof (cases "56 < n + 1")
    case True
    have b: "memset_at (p[n := 0x80]) (n + 1) 0 (64 - (n + 1)) = r @ 0x80 # replicate (63 - n) 0"
      using pad1 n ctx by (simp add: memset_at_def memcpy_at_def)
    have l: "length (r @ 0x80 # replicate (63 - n) 0) = 64"
      using n by (simp add: n_def)
    have z: "take 56 (memset_at q 0 0 56) = replicate 56 0" "length (memset_at q 0 0 56) = 64"
      if "length q = 64" for q :: bytes
      using that by (simp_all add: memset_at_def memcpy_at_def)
    show ?thesis
      using True ctx n b l len one z
      by (simp add: SHA256_pad_def Let_def p_def [symmetric] memcpy_length_field256 memset_64)
  next
    case False
    have b: "take 56 (memset_at (p[n := 0x80]) (n + 1) 0 (56 - (n + 1))) = r @ 0x80 # replicate (55 - n) 0"
    proof -
      have "56 - n = Suc (55 - n)" "length r = n"
        using False by (simp_all add: n_def)
      then show ?thesis
        using pad1 n ctx False by (simp add: memset_at_def memcpy_at_def)
    qed
    have l: "length (r @ 0x80 # replicate (55 - n) 0 @ ?len) = 64"
      using n False by (simp add: n_def)
    show ?thesis
      using False ctx n b l len one
      by (simp add: SHA256_pad_def Let_def p_def [symmetric] memcpy_length_field256 memset_64)
  qed
  have nr: "length r = n"
    by (simp add: n_def)
  show "sha256_h (SHA256_pad c) = absorbed fips_compress256 64 iv (md_pad 64 8 m)"
  proof (cases "56 < n + 1")
    case True
    then show ?thesis
      using absorbed_md_pad(2) [of 8 64 m fips_compress256 iv] pad_def nr
      by (simp add: r_def [symmetric] s_def [symmetric])
  next
    case False
    then show ?thesis
      using absorbed_md_pad(1) [of 8 64 m fips_compress256 iv] pad_def nr
      by (simp add: r_def [symmetric] s_def [symmetric])
  qed
  show "sha256_md_len (SHA256_pad c) = d" "length (sha256_data (SHA256_pad c)) = 64"
    using pad_def ctx n nr by (auto split: if_splits)
qed

lemma digest_words256:
  assumes "length h = 8"
  shows "concat (map (\<lambda>n. HOST_l2c (h ! n)) [0..<7]) = take 28 (concat (map (be_of_word 4) h))"
    "concat (map (\<lambda>n. HOST_l2c (h ! n)) [0..<8]) = take 32 (concat (map (be_of_word 4) h))"
  using assms by (elim list8_cases; simp add: HOST_l2c_eq upt_rec)+

lemma sha256_ctx_final:
  assumes "sha256_ctx iv d m c" "d = 28 \<or> d = 32"
  shows "\<exists>c'. SHA256_Final c = (1, fips_hash256 iv d m, c') \<and> length (sha256_data c') = 64"
proof -
  note pad = SHA256_pad_spec [OF assms(1)]
  have "length iv = 8"
    using assms(1) by (simp add: sha256_ctx_def)
  then have "length (sha256_h (SHA256_pad c)) = 8"
    by (simp add: pad)
  from digest_words256 [OF this] show ?thesis
    using assms(2) by (auto simp: SHA256_Final_def SHA256_make_string_def Let_def fips_hash256_def pad)
qed

lemma length_fips_hash256:
  assumes "length iv = 8" "d \<le> 32"
  shows "length (fips_hash256 iv d m) = d"
proof -
  have "length (concat (map (be_of_word 4) h)) = 32" if "length h = 8" for h :: "u32 list"
    using that by (elim list8_cases) simp
  then show ?thesis
    using assms by (simp add: fips_hash256_def)
qed

lemma length_fips_iv256 [simp]: "length fips_iv256 = 8" "length fips_iv224 = 8"
  by (simp_all add: fips_iv256_def fips_iv224_def zero_sha256_ctx_def)

interpretation sha256: streaming_hash "sha256_ctx fips_iv256 32" "\<lambda>c d. snd (SHA256_Update c d)"
  "\<lambda>c. fst (snd (SHA256_Final c))" fips_sha256
proof
  fix m d c
  assume c: "sha256_ctx fips_iv256 32 m c"
  show "sha256_ctx fips_iv256 32 (m @ d) (snd (SHA256_Update c d))"
    using sha256_ctx_update [OF c, of d] by auto
  show "fst (snd (SHA256_Final c)) = fips_sha256 m"
    using sha256_ctx_final [OF c] by auto
qed

interpretation sha224: streaming_hash "sha256_ctx fips_iv224 28" "\<lambda>c d. snd (SHA224_Update c d)"
  "\<lambda>c. fst (snd (SHA224_Final c))" fips_sha224
proof
  fix m d c
  assume c: "sha256_ctx fips_iv224 28 m c"
  show "sha256_ctx fips_iv224 28 (m @ d) (snd (SHA224_Update c d))"
    using sha256_ctx_update [OF c, of d] by (auto simp: SHA224_Update_def)
  show "fst (snd (SHA224_Final c)) = fips_sha224 m"
    using sha256_ctx_final [OF c] by (auto simp: SHA224_Final_def)
qed

lemma sha256_one_shot: "SHA256 ctx data = fips_sha256 data"
proof -
  obtain c where c: "SHA256_Init ctx = (1, c)" "sha256_ctx fips_iv256 32 [] c"
    using sha256_ctx_init(1) by blast
  then show ?thesis
    using sha256.final_updates [OF c(2), of "[data]"] by (simp add: SHA256_def case_prod_beta Let_def)
qed

section \<open>Properties\<close>


end
