(* ===== verification/SHA512.thy ===== *)
theory SHA512
  imports SHA2_Rounds
begin

text \<open>
  \<open>crypto/fipsmodule/sha/sha512.c\<close>: SHA-512 and SHA-384 over a streaming context. The block
  function is the portable one (the code without \<open>SHA512_ASM\<close>, for a target that is not i386).
  The abstract side is FIPS 180-4; the invariant \<open>sha512_ctx\<close> says what a context holds after any
  sequence of updates, and the functions are shown to compute the standard's hash of the
  concatenation of what was passed to them.
\<close>

section \<open>Constants and macros\<close>

definition K512 :: "u64 list" where
  "K512 = [
     0x428A2F98D728AE22, 0x7137449123EF65CD, 0xB5C0FBCFEC4D3B2F, 0xE9B5DBA58189DBBC,
     0x3956C25BF348B538, 0x59F111F1B605D019, 0x923F82A4AF194F9B, 0xAB1C5ED5DA6D8118,
     0xD807AA98A3030242, 0x12835B0145706FBE, 0x243185BE4EE4B28C, 0x550C7DC3D5FFB4E2,
     0x72BE5D74F27B896F, 0x80DEB1FE3B1696B1, 0x9BDC06A725C71235, 0xC19BF174CF692694,
     0xE49B69C19EF14AD2, 0xEFBE4786384F25E3, 0x0FC19DC68B8CD5B5, 0x240CA1CC77AC9C65,
     0x2DE92C6F592B0275, 0x4A7484AA6EA6E483, 0x5CB0A9DCBD41FBD4, 0x76F988DA831153B5,
     0x983E5152EE66DFAB, 0xA831C66D2DB43210, 0xB00327C898FB213F, 0xBF597FC7BEEF0EE4,
     0xC6E00BF33DA88FC2, 0xD5A79147930AA725, 0x06CA6351E003826F, 0x142929670A0E6E70,
     0x27B70A8546D22FFC, 0x2E1B21385C26C926, 0x4D2C6DFC5AC42AED, 0x53380D139D95B3DF,
     0x650A73548BAF63DE, 0x766A0ABB3C77B2A8, 0x81C2C92E47EDAEE6, 0x92722C851482353B,
     0xA2BFE8A14CF10364, 0xA81A664BBC423001, 0xC24B8B70D0F89791, 0xC76C51A30654BE30,
     0xD192E819D6EF5218, 0xD69906245565A910, 0xF40E35855771202A, 0x106AA07032BBD1B8,
     0x19A4C116B8D2D0C8, 0x1E376C085141AB53, 0x2748774CDF8EEB99, 0x34B0BCB5E19B48A8,
     0x391C0CB3C5C95A63, 0x4ED8AA4AE3418ACB, 0x5B9CCA4F7763E373, 0x682E6FF3D6B2B8A3,
     0x748F82EE5DEFB2FC, 0x78A5636F43172F60, 0x84C87814A1F0AB72, 0x8CC702081A6439EC,
     0x90BEFFFA23631E28, 0xA4506CEBDE82BDE9, 0xBEF9A3F7B2C67915, 0xC67178F2E372532B,
     0xCA273ECEEA26619C, 0xD186B8C721C0C207, 0xEADA7DD6CDE0EB1E, 0xF57D4F7FEE6ED178,
     0x06F067AA72176FBA, 0x0A637DC5A2C898A6, 0x113F9804BEF90DAE, 0x1B710B35131C471B,
     0x28DB77F523047D84, 0x32CAAB7B40C72493, 0x3C9EBE0A15C9BEBC, 0x431D67C49C100D4C,
     0x4CC5D4BECB3E42B6, 0x597F299CFC657E2A, 0x5FCB6FAB3AD6FAEC, 0x6C44198C4A475817]"

definition ROTR :: "u64 \<Rightarrow> nat \<Rightarrow> u64" where
  "ROTR x s = drop_bit s x OR push_bit (64 - s) x"

definition load_u64_be :: "bytes \<Rightarrow> u64" where
  "load_u64_be p =
     push_bit 56 (ucast (p ! 0)) OR push_bit 48 (ucast (p ! 1)) OR
     push_bit 40 (ucast (p ! 2)) OR push_bit 32 (ucast (p ! 3)) OR
     push_bit 24 (ucast (p ! 4)) OR push_bit 16 (ucast (p ! 5)) OR
     push_bit 8 (ucast (p ! 6)) OR ucast (p ! 7)"

definition Sigma0 :: "u64 \<Rightarrow> u64" where
  "Sigma0 x = ROTR x 28 XOR ROTR x 34 XOR ROTR x 39"

definition Sigma1 :: "u64 \<Rightarrow> u64" where
  "Sigma1 x = ROTR x 14 XOR ROTR x 18 XOR ROTR x 41"

definition sigma0 :: "u64 \<Rightarrow> u64" where
  "sigma0 x = ROTR x 1 XOR ROTR x 8 XOR drop_bit 7 x"

definition sigma1 :: "u64 \<Rightarrow> u64" where
  "sigma1 x = ROTR x 19 XOR ROTR x 61 XOR drop_bit 6 x"

text \<open>
  \<open>ROUND_00_15 (i, ..)\<close> after the assignment to \<open>T1\<close> and \<open>X[i]\<close>, and \<open>ROUND_16_80 (i, j, .., X)\<close>.
\<close>

definition ROUND_00_15 :: "bytes \<Rightarrow> nat \<Rightarrow> u64 list \<times> u64 list \<Rightarrow> u64 list \<times> u64 list" where
  "ROUND_00_15 inp = load_round Sigma0 Sigma1 K512 (\<lambda>i. load_u64_be (drop (i * 8) inp))"

definition ROUND_16_80 :: "nat \<Rightarrow> nat \<Rightarrow> u64 list \<times> u64 list \<Rightarrow> u64 list \<times> u64 list" where
  "ROUND_16_80 i j = ring_round Sigma0 Sigma1 sigma0 sigma1 K512 (i + j) j"

section \<open>The block function\<close>

text \<open>
  One iteration of \<open>while (num--)\<close>. \<open>X\<close> is not initialised in the code; the first sixteen rounds
  write all of it before it is read.
\<close>

definition sha512_block :: "u64 list \<Rightarrow> bytes \<Rightarrow> u64 list" where
  "sha512_block state inp =
     (let X = replicate 16 0;
          s = fold (ROUND_00_15 inp) [0..<16] (X, state);
          s = fold (\<lambda>i. fold (ROUND_16_80 i) [0..<16]) [16, 32, 48, 64] s
      in map2 (+) state (snd s))"

fun sha512_block_data_order :: "u64 list \<Rightarrow> bytes \<Rightarrow> nat \<Rightarrow> u64 list" where
  "sha512_block_data_order state inp 0 = state"
| "sha512_block_data_order state inp (Suc num) =
     sha512_block_data_order (sha512_block state inp) (drop (16 * 8) inp) num"

section \<open>The context\<close>

record SHA512_CTX =
  sha512_h :: "u64 list"
  sha512_Nl :: u64
  sha512_Nh :: u64
  sha512_p :: bytes
  sha512_num :: nat
  sha512_md_len :: nat

text \<open>
  The functions below return the \<open>int\<close> status of the C functions with the new context. The
  \<open>Init\<close> functions leave the buffer as it is.
\<close>

definition SHA384_Init :: "SHA512_CTX \<Rightarrow> int \<times> SHA512_CTX" where
  "SHA384_Init sha = (1, sha
     \<lparr>sha512_h := [0xCBBB9D5DC1059ED8, 0x629A292A367CD507, 0x9159015A3070DD17, 0x152FECD8F70E5939,
        0x67332667FFC00B31, 0x8EB44A8768581511, 0xDB0C2E0D64F98FA7, 0x47B5481DBEFA4FA4],
      sha512_Nl := 0, sha512_Nh := 0, sha512_num := 0, sha512_md_len := 48\<rparr>)"

definition SHA512_Init :: "SHA512_CTX \<Rightarrow> int \<times> SHA512_CTX" where
  "SHA512_Init sha = (1, sha
     \<lparr>sha512_h := [0x6A09E667F3BCC908, 0xBB67AE8584CAA73B, 0x3C6EF372FE94F82B, 0xA54FF53A5F1D36F1,
        0x510E527FADE682D1, 0x9B05688C2B3E6C1F, 0x1F83D9ABFB41BD6B, 0x5BE0CD19137E2179],
      sha512_Nl := 0, sha512_Nh := 0, sha512_num := 0, sha512_md_len := 64\<rparr>)"

definition SHA512_Transform :: "SHA512_CTX \<Rightarrow> bytes \<Rightarrow> SHA512_CTX" where
  "SHA512_Transform c block = c\<lparr>sha512_h := sha512_block_data_order (sha512_h c) block 1\<rparr>"

text \<open>
  \<open>SHA512_Update\<close> in three steps: the bit counter, whole blocks with the rest into an empty
  buffer, and the function itself. A \<open>size_t\<close> is a \<open>nat\<close>: \<open>len >> 61\<close> is \<open>len div 2 ^ 61\<close>, also on
  targets where \<open>size_t\<close> has 32 bits and the code skips the addition of zero.
\<close>

definition SHA512_count :: "SHA512_CTX \<Rightarrow> nat \<Rightarrow> SHA512_CTX" where
  "SHA512_count c len =
     (let l = sha512_Nl c + push_bit 3 (word_of_nat len);
          c = (if l < sha512_Nl c then c\<lparr>sha512_Nh := sha512_Nh c + 1\<rparr> else c);
          c = c\<lparr>sha512_Nh := sha512_Nh c + word_of_nat (len div 2 ^ 61)\<rparr>
      in c\<lparr>sha512_Nl := l\<rparr>)"

definition SHA512_Update_blocks :: "SHA512_CTX \<Rightarrow> bytes \<Rightarrow> SHA512_CTX" where
  "SHA512_Update_blocks c data =
     (let len = length data;
          c = (if 128 \<le> len then c\<lparr>sha512_h := sha512_block_data_order (sha512_h c) data (len div 128)\<rparr> else c);
          data = (if 128 \<le> len then drop (len - len mod 128) data else data)
      in if length data \<noteq> 0
         then c\<lparr>sha512_p := memcpy_at (sha512_p c) 0 data, sha512_num := length data\<rparr> else c)"

definition SHA512_Update :: "SHA512_CTX \<Rightarrow> bytes \<Rightarrow> int \<times> SHA512_CTX" where
  "SHA512_Update c data =
     (if length data = 0 then (1, c)
      else
        let c = SHA512_count c (length data)
        in if sha512_num c \<noteq> 0 then
             let n = 128 - sha512_num c
             in if length data < n
                then (1, c\<lparr>sha512_p := memcpy_at (sha512_p c) (sha512_num c) data,
                           sha512_num := sha512_num c + length data\<rparr>)
                else
                  let c = c\<lparr>sha512_p := memcpy_at (sha512_p c) (sha512_num c) (take n data), sha512_num := 0\<rparr>;
                      c = c\<lparr>sha512_h := sha512_block_data_order (sha512_h c) (sha512_p c) 1\<rparr>
                  in (1, SHA512_Update_blocks c (drop n data))
           else (1, SHA512_Update_blocks c data))"

definition SHA384_Update :: "SHA512_CTX \<Rightarrow> bytes \<Rightarrow> int \<times> SHA512_CTX" where
  "SHA384_Update sha data = SHA512_Update sha data"

text \<open>
  \<open>SHA512_Final\<close>. The first part pads and compresses; the second writes the words of the state to
  \<open>out\<close>. The result is the status, the bytes written at \<open>out\<close> and the context; \<open>out\<close> itself only
  matters by being \<open>NULL\<close> or not.
\<close>

definition put_u64_be :: "u64 \<Rightarrow> bytes" where
  "put_u64_be t = [ucast (drop_bit 56 t), ucast (drop_bit 48 t), ucast (drop_bit 40 t), ucast (drop_bit 32 t),
     ucast (drop_bit 24 t), ucast (drop_bit 16 t), ucast (drop_bit 8 t), ucast t]"

definition SHA512_pad :: "SHA512_CTX \<Rightarrow> SHA512_CTX" where
  "SHA512_pad sha =
     (let n = sha512_num sha;
          sha = sha\<lparr>sha512_p := (sha512_p sha)[n := 0x80]\<rparr>;
          n = n + 1;
          (n, sha) =
            (if 128 - 16 < n then
               let sha = sha\<lparr>sha512_p := memset_at (sha512_p sha) n 0 (128 - n)\<rparr>
               in (0, sha\<lparr>sha512_h := sha512_block_data_order (sha512_h sha) (sha512_p sha) 1\<rparr>)
             else (n, sha));
          sha = sha\<lparr>sha512_p := memset_at (sha512_p sha) n 0 (128 - 16 - n)\<rparr>;
          sha = sha\<lparr>sha512_p := memcpy_at (sha512_p sha) (128 - 8) (put_u64_be (sha512_Nl sha))\<rparr>;
          sha = sha\<lparr>sha512_p := memcpy_at (sha512_p sha) (128 - 16) (put_u64_be (sha512_Nh sha))\<rparr>
      in sha\<lparr>sha512_h := sha512_block_data_order (sha512_h sha) (sha512_p sha) 1\<rparr>)"

definition SHA512_Final :: "bool \<Rightarrow> SHA512_CTX \<Rightarrow> int \<times> bytes \<times> SHA512_CTX" where
  "SHA512_Final out_nonnull sha =
     (let sha = SHA512_pad sha
      in if \<not> out_nonnull then (0, [], sha)
         else if sha512_md_len sha = 48
         then (1, concat (map (\<lambda>n. put_u64_be (sha512_h sha ! n)) [0..<48 div 8]), sha)
         else if sha512_md_len sha = 64
         then (1, concat (map (\<lambda>n. put_u64_be (sha512_h sha ! n)) [0..<64 div 8]), sha)
         else (0, [], sha))"

definition SHA384_Final :: "bool \<Rightarrow> SHA512_CTX \<Rightarrow> int \<times> bytes \<times> SHA512_CTX" where
  "SHA384_Final out_nonnull sha = SHA512_Final out_nonnull sha"

text \<open>The one-shot functions; \<open>ctx\<close> is the uninitialised context on the stack.\<close>

definition SHA384 :: "SHA512_CTX \<Rightarrow> bytes \<Rightarrow> bytes" where
  "SHA384 ctx data =
     (let (_, ctx) = SHA384_Init ctx;
          (_, ctx) = SHA384_Update ctx data;
          (_, out, _) = SHA384_Final True ctx
      in out)"

definition SHA512 :: "SHA512_CTX \<Rightarrow> bytes \<Rightarrow> bytes" where
  "SHA512 ctx data =
     (let (_, ctx) = SHA512_Init ctx;
          (_, ctx) = SHA512_Update ctx data;
          (_, out, _) = SHA512_Final True ctx
      in out)"

section \<open>FIPS 180-4\<close>

text \<open>
  Sections 4.1.3, 5.2.2 and 6.4: the functions over 64-bit words with the library's rotation, the
  words of a block, the compression function, and the hash: padding with a 128-bit length, the run
  over the blocks, and the leading \<open>d\<close> bytes of the final state.
\<close>

definition fips_block512 :: "bytes \<Rightarrow> u64 list" where
  "fips_block512 blk = map (\<lambda>i. word_of_be (take 8 (drop (8 * i) blk))) [0..<16]"

definition fips_compress512 :: "u64 list \<Rightarrow> bytes \<Rightarrow> u64 list" where
  "fips_compress512 H blk = fips_compress
     (\<lambda>x. word_rotr 28 x XOR word_rotr 34 x XOR word_rotr 39 x)
     (\<lambda>x. word_rotr 14 x XOR word_rotr 18 x XOR word_rotr 41 x)
     (\<lambda>x. word_rotr 1 x XOR word_rotr 8 x XOR drop_bit 7 x)
     (\<lambda>x. word_rotr 19 x XOR word_rotr 61 x XOR drop_bit 6 x)
     K512 H (fips_block512 blk)"

definition fips_iv512 :: "u64 list" where
  "fips_iv512 = [0x6a09e667f3bcc908, 0xbb67ae8584caa73b, 0x3c6ef372fe94f82b, 0xa54ff53a5f1d36f1,
     0x510e527fade682d1, 0x9b05688c2b3e6c1f, 0x1f83d9abfb41bd6b, 0x5be0cd19137e2179]"

definition fips_iv384 :: "u64 list" where
  "fips_iv384 = [0xcbbb9d5dc1059ed8, 0x629a292a367cd507, 0x9159015a3070dd17, 0x152fecd8f70e5939,
     0x67332667ffc00b31, 0x8eb44a8768581511, 0xdb0c2e0d64f98fa7, 0x47b5481dbefa4fa4]"

definition fips_hash512 :: "u64 list \<Rightarrow> nat \<Rightarrow> bytes \<Rightarrow> bytes" where
  "fips_hash512 iv d m =
     take d (concat (map (be_of_word 8) (absorbed fips_compress512 128 iv (md_pad 128 16 m))))"

abbreviation fips_sha512 :: "bytes \<Rightarrow> bytes" where
  "fips_sha512 \<equiv> fips_hash512 fips_iv512 64"

abbreviation fips_sha384 :: "bytes \<Rightarrow> bytes" where
  "fips_sha384 \<equiv> fips_hash512 fips_iv384 48"

section \<open>The block function is the compression function\<close>

lemma length_K512: "length K512 = 80"
  by (simp add: K512_def)

lemma ROTR_word_rotr: "s < 64 \<Longrightarrow> ROTR x s = word_rotr s x"
  using rotr_shifts [of s x] by (simp add: ROTR_def)

lemma word_of_be_8:
  assumes "8 \<le> length p"
  shows "word_of_be (take 8 p) = load_u64_be p"
proof -
  obtain a b c d e f g h where p: "take 8 p = [a, b, c, d, e, f, g, h]"
    using assms by (metis length_take min_absorb2 list8_cases)
  have "p ! i = take 8 p ! i" if "i < 8" for i
    using that by simp
  then have "p ! i = [a, b, c, d, e, f, g, h] ! i" if "i < 8" for i
    using that by (simp only: p)
  then show ?thesis
    unfolding load_u64_be_def p by (simp add: word_of_be_def push_bit_or or.assoc)
qed

lemma put_u64_be_eq: "put_u64_be t = be_of_word 8 t"
  by (simp add: put_u64_be_def be_of_word_def upt_rec)

lemma ROUND_16_80_flat:
  "fold (\<lambda>i. fold (ROUND_16_80 i) [0..<16]) [16, 32, 48, 64] s =
   fold (\<lambda>t. ring_round Sigma0 Sigma1 sigma0 sigma1 K512 t t) [16..<length K512] s"
proof -
  let ?g = "\<lambda>t. ring_round Sigma0 Sigma1 sigma0 sigma1 K512 t t"
  have shift: "j mod 16 = (i + j) mod 16" if "i mod 16 = 0" for i j :: nat
    using mod_add_left_eq [of i 16 j] that by simp
  have "ROUND_16_80 i = (\<lambda>j. ?g (i + j))" if "i mod 16 = 0" for i
    unfolding ROUND_16_80_def by (rule ext) (rule ring_round_mod16 [OF shift [OF that]])
  then have run: "fold (ROUND_16_80 i) [0..<16] s = fold ?g [i..<i + 16] s" if "i mod 16 = 0" for i s
    using that fold_upt_shift [of ?g i 16] by simp
  have "[16..<80] = [16..<32] @ [32..<48] @ [48..<64] @ [64..<80::nat]"
    by simp
  then show ?thesis
    by (simp add: run length_K512)
qed

lemma sha512_block_compress:
  assumes "length state = 8" "128 \<le> length inp"
  shows "sha512_block state inp = fips_compress512 state (take 128 inp)"
proof -
  have ld: "load_u64_be (drop (i * 8) inp) = fips_block512 (take 128 inp) ! i" if "i < 16" for i
    using that assms(2) by (simp add: fips_block512_def word_of_be_8 [symmetric] take_drop min_def mult.commute)
  have "sha512_block state inp = fips_compress Sigma0 Sigma1 sigma0 sigma1 K512 state (fips_block512 (take 128 inp))"
    unfolding sha512_block_def Let_def ROUND_16_80_flat ROUND_00_15_def
    using assms(1) ld
    by (intro rounds_compress) (simp_all add: length_K512 fips_block512_def)
  then show ?thesis
    by (simp add: fips_compress512_def Sigma0_def [abs_def] Sigma1_def [abs_def] sigma0_def [abs_def]
      sigma1_def [abs_def] ROTR_word_rotr)
qed

lemma length_fips_compress512 [simp]: "length H = 8 \<Longrightarrow> length (fips_compress512 H blk) = 8"
  by (simp add: fips_compress512_def length_fips_compress length_K512)

lemma block_data_order_hash_blocks:
  assumes "length state = 8" "128 * num \<le> length inp"
  shows "sha512_block_data_order state inp num = hash_blocks fips_compress512 128 state inp num"
  using assms
proof (induction num arbitrary: state inp)
  case (Suc num)
  then show ?case
    by (simp add: sha512_block_compress)
qed simp

section \<open>What a context holds\<close>

text \<open>
  \<open>sha512_ctx iv d m c\<close>: the context \<open>c\<close> was initialised with the value \<open>iv\<close> and the digest length
  \<open>d\<close> and has taken the message \<open>m\<close>.
\<close>

definition sha512_ctx :: "u64 list \<Rightarrow> nat \<Rightarrow> bytes \<Rightarrow> SHA512_CTX \<Rightarrow> bool" where
  "sha512_ctx iv d m c \<longleftrightarrow>
     length iv = 8 \<and> sha512_md_len c = d \<and>
     sha512_h c = absorbed fips_compress512 128 iv m \<and>
     sha512_num c = length (leftover 128 m) \<and>
     length (sha512_p c) = 128 \<and> take (sha512_num c) (sha512_p c) = leftover 128 m \<and>
     sha512_Nl c = word_of_nat (8 * length m) \<and> sha512_Nh c = word_of_nat (8 * length m div 2 ^ 64)"

lemma length_absorbed512 [simp]:
  "length iv = 8 \<Longrightarrow> length (absorbed fips_compress512 128 iv m) = 8"
proof -
  have "length s = 8 \<Longrightarrow> length (hash_blocks fips_compress512 128 s xs n) = 8" for s xs n
    by (induction n arbitrary: s xs) simp_all
  then show "length iv = 8 \<Longrightarrow> ?thesis"
    by (simp add: absorbed_def)
qed

lemma sha512_ctx_init:
  assumes "length (sha512_p c) = 128"
  shows "\<exists>c'. SHA512_Init c = (1, c') \<and> sha512_ctx fips_iv512 64 [] c'"
    "\<exists>c'. SHA384_Init c = (1, c') \<and> sha512_ctx fips_iv384 48 [] c'"
  using assms
  by (simp_all add: SHA512_Init_def SHA384_Init_def sha512_ctx_def fips_iv512_def fips_iv384_def)

lemma one_block512:
  "length s = 8 \<Longrightarrow> length b = 128 \<Longrightarrow> sha512_block_data_order s b 1 = fips_compress512 s b"
  using block_data_order_hash_blocks [of s 1 b] by simp

lemma SHA512_count_fields:
  "sha512_h (SHA512_count c n) = sha512_h c" "sha512_p (SHA512_count c n) = sha512_p c"
  "sha512_num (SHA512_count c n) = sha512_num c" "sha512_md_len (SHA512_count c n) = sha512_md_len c"
  by (simp_all add: SHA512_count_def Let_def)

lemma SHA512_count_value:
  assumes "sha512_Nl c = word_of_nat (8 * t)" "sha512_Nh c = word_of_nat (8 * t div 2 ^ 64)"
  shows "sha512_Nl (SHA512_count c n) = word_of_nat (8 * (t + n))"
    "sha512_Nh (SHA512_count c n) = word_of_nat (8 * (t + n) div 2 ^ 64)"
proof -
  show "sha512_Nl (SHA512_count c n) = word_of_nat (8 * (t + n))"
    using counter_low [of t n, where 'a = 64] assms(1) by (simp add: SHA512_count_def Let_def)
  show "sha512_Nh (SHA512_count c n) = word_of_nat (8 * (t + n) div 2 ^ 64)"
  proof -
    have "sha512_Nh (SHA512_count c n) = sha512_Nh c +
        (if sha512_Nl c + push_bit 3 (word_of_nat n) < sha512_Nl c then 1 else 0) + word_of_nat (n div 2 ^ 61)"
      by (simp add: SHA512_count_def Let_def)
    also have "\<dots> = word_of_nat (8 * (t + n) div 2 ^ 64)"
      unfolding assms counter_low by (rule counter_high) simp_all
    finally show ?thesis .
  qed
qed

text \<open>
  The whole blocks of the data are absorbed and the rest goes to the start of the buffer.
\<close>

lemma SHA512_Update_blocks_spec:
  assumes "length (sha512_h c) = 8" "length (sha512_p c) = 128" "sha512_num c = 0"
  shows "sha512_h (SHA512_Update_blocks c d) = absorbed fips_compress512 128 (sha512_h c) d"
    "sha512_num (SHA512_Update_blocks c d) = length (leftover 128 d)"
    "length (sha512_p (SHA512_Update_blocks c d)) = 128"
    "take (length (leftover 128 d)) (sha512_p (SHA512_Update_blocks c d)) = leftover 128 d"
    "sha512_Nl (SHA512_Update_blocks c d) = sha512_Nl c" "sha512_Nh (SHA512_Update_blocks c d) = sha512_Nh c"
    "sha512_md_len (SHA512_Update_blocks c d) = sha512_md_len c"
proof -
  let ?s = "hash_blocks fips_compress512 128 (sha512_h c) d (length d div 128)"
  have "sha512_block_data_order (sha512_h c) d (length d div 128) = ?s"
    using assms(1) by (intro block_data_order_hash_blocks) (simp_all add: times_div_less_eq_dividend)
  moreover have "drop (length d - length d mod 128) d = leftover 128 d"
    by (simp add: leftover_def minus_mod_eq_mult_div)
  moreover have "length d < 128 \<Longrightarrow> ?s = sha512_h c \<and> leftover 128 d = d"
    by (simp add: leftover_short)
  ultimately have *: "SHA512_Update_blocks c d =
      (let c = c\<lparr>sha512_h := ?s\<rparr>; r = leftover 128 d
       in if length r \<noteq> 0 then c\<lparr>sha512_p := memcpy_at (sha512_p c) 0 r, sha512_num := length r\<rparr> else c)"
    by (cases "128 \<le> length d") (simp_all add: SHA512_Update_blocks_def Let_def)
  have r: "length (leftover 128 d) < 128"
    by simp
  show "sha512_h (SHA512_Update_blocks c d) = absorbed fips_compress512 128 (sha512_h c) d"
    "sha512_num (SHA512_Update_blocks c d) = length (leftover 128 d)"
    "length (sha512_p (SHA512_Update_blocks c d)) = 128"
    "take (length (leftover 128 d)) (sha512_p (SHA512_Update_blocks c d)) = leftover 128 d"
    "sha512_Nl (SHA512_Update_blocks c d) = sha512_Nl c" "sha512_Nh (SHA512_Update_blocks c d) = sha512_Nh c"
    "sha512_md_len (SHA512_Update_blocks c d) = sha512_md_len c"
    using assms r by (auto simp: * Let_def absorbed_def memcpy_at_def simp del: length_leftover)
qed

lemma sha512_ctx_update:
  assumes "sha512_ctx iv md m c"
  shows "\<exists>c'. SHA512_Update c d = (1, c') \<and> sha512_ctx iv md (m @ d) c'"
proof (cases "d = []")
  case True
  with assms show ?thesis by (simp add: SHA512_Update_def)
next
  case False
  let ?c = "SHA512_count c (length d)" and ?r = "leftover 128 m"
  note ctx = assms [unfolded sha512_ctx_def]
  have count: "sha512_Nl ?c = word_of_nat (8 * length (m @ d))" "sha512_Nh ?c = word_of_nat (8 * length (m @ d) div 2 ^ 64)"
    using SHA512_count_value [of c "length m" "length d"] ctx by simp_all
  have r: "length ?r < 128" by simp
  show ?thesis
  proof (cases "?r = []")
    case True
    then have num: "sha512_num c = 0"
      using ctx by simp
    then have upd: "SHA512_Update c d = (1, SHA512_Update_blocks ?c d)"
      using False by (simp add: SHA512_Update_def SHA512_count_fields Let_def)
    have "sha512_ctx iv md (m @ d) (SHA512_Update_blocks ?c d)"
      unfolding sha512_ctx_def absorb_empty [OF _ True, simplified]
      using ctx num count by (simp add: SHA512_Update_blocks_spec SHA512_count_fields del: length_leftover)
    with upd show ?thesis by simp
  next
    case r0: False
    let ?n = "128 - length ?r"
    have num: "sha512_num c \<noteq> 0" "sha512_num c = length ?r"
      using r0 ctx by (simp_all del: length_leftover)
    show ?thesis
    proof (cases "length d < ?n")
      case True
      let ?c' = "?c\<lparr>sha512_p := memcpy_at (sha512_p ?c) (sha512_num ?c) d, sha512_num := sha512_num ?c + length d\<rparr>"
      have upd: "SHA512_Update c d = (1, ?c')"
        using False num True by (simp add: SHA512_Update_def SHA512_count_fields Let_def del: length_leftover)
      have short: "absorbed fips_compress512 128 iv (m @ d) = absorbed fips_compress512 128 iv m"
        "leftover 128 (m @ d) = ?r @ d"
        using True by (simp_all add: absorb_short)
      have "sha512_ctx iv md (m @ d) ?c'"
        unfolding sha512_ctx_def short using ctx count num True
        by (simp add: SHA512_count_fields buffer_simps del: length_leftover)
      with upd show ?thesis by blast
    next
      case fill: False
      let ?b = "memcpy_at (sha512_p c) (length ?r) (take ?n d)"
      let ?s = "fips_compress512 (absorbed fips_compress512 128 iv m) (?r @ take ?n d)"
      let ?c1 = "?c\<lparr>sha512_p := ?b, sha512_num := 0, sha512_h := ?s\<rparr>"
      have "take (length ?r) (sha512_p c) = ?r"
        using ctx by metis
      then have b: "?b = ?r @ take ?n d"
        using ctx fill r by (simp add: memcpy_at_full del: length_leftover)
      have len: "length (?r @ take ?n d) = 128"
        using fill r by simp
      have "sha512_block_data_order (absorbed fips_compress512 128 iv m) (?r @ take ?n d) 1 = ?s"
        using ctx len by (intro one_block512) simp_all
      then have upd: "SHA512_Update c d = (1, SHA512_Update_blocks ?c1 (drop ?n d))"
        using False num fill ctx b
        by (simp add: SHA512_Update_def SHA512_count_fields Let_def del: length_leftover sha512_block_data_order.simps)
      have fills: "absorbed fips_compress512 128 iv (m @ d) = absorbed fips_compress512 128 ?s (drop ?n d)"
        "leftover 128 (m @ d) = leftover 128 (drop ?n d)"
        using fill by (simp_all only: absorb_fill not_less zero_less_numeral)
      have "sha512_ctx iv md (m @ d) (SHA512_Update_blocks ?c1 (drop ?n d))"
        unfolding sha512_ctx_def fills using ctx count len b
        by (simp add: SHA512_Update_blocks_spec SHA512_count_fields del: length_leftover)
      with upd show ?thesis by blast
    qed
  qed
qed

section \<open>The digest\<close>

lemma length_field512:
  "put_u64_be (word_of_nat (n div 2 ^ 64)) @ put_u64_be (word_of_nat n) = be_of_nat 16 n"
proof -
  have "put_u64_be (word_of_nat k) = be_of_nat 8 k" for k
    unfolding put_u64_be_eq by (rule be_of_word_of_nat) simp
  moreover have "(2::nat) ^ 64 = 256 ^ 8"
    by simp
  ultimately show ?thesis
    using be_of_nat_append [of 8 n 8] by simp
qed

lemma memcpy_length_field:
  assumes "length p = 128" "length a = 8" "length b = 8"
  shows "memcpy_at (memcpy_at p 120 b) 112 a = take 112 p @ a @ b"
  using assms by (simp add: memcpy_at_def)

lemma length_put_u64_be [simp]: "length (put_u64_be w) = 8"
  by (simp add: put_u64_be_def)

lemma SHA512_pad_spec:
  assumes "sha512_ctx iv d m c"
  shows "sha512_h (SHA512_pad c) = absorbed fips_compress512 128 iv (md_pad 128 16 m)"
    "sha512_md_len (SHA512_pad c) = d" "length (sha512_p (SHA512_pad c)) = 128"
proof -
  define r where "r = leftover 128 m"
  define s where "s = absorbed fips_compress512 128 iv m"
  define n where "n = length r"
  define p where "p = sha512_p c"
  let ?len = "be_of_nat 16 (8 * length m)"
  have "take n p = r"
    using assms unfolding sha512_ctx_def r_def n_def p_def by metis
  then have ctx: "sha512_h c = s" "sha512_num c = n" "length p = 128" "take n p = r" "length s = 8"
    "sha512_Nl c = word_of_nat (8 * length m)" "sha512_Nh c = word_of_nat (8 * length m div 2 ^ 64)"
    "sha512_md_len c = d"
    using assms by (simp_all add: sha512_ctx_def r_def s_def n_def p_def del: length_leftover)
  have n: "n < 128"
    by (simp add: n_def r_def)
  have pad1: "take (n + 1) (p[n := 0x80]) = r @ [0x80]"
    using ctx n by (simp add: take_Suc_conv_app_nth)
  have len: "put_u64_be (sha512_Nh c) @ put_u64_be (sha512_Nl c) = ?len"
    unfolding ctx by (rule length_field512)
  have one: "sha512_block_data_order t b 1 = fips_compress512 t b" if "length t = 8" "length b = 128" for t b
    using that by (rule one_block512)
  have pad_def: "SHA512_pad c = (if 112 < n + 1
      then c\<lparr>sha512_p := replicate 112 0 @ ?len,
        sha512_h := fips_compress512 (fips_compress512 s (r @ 0x80 # replicate (127 - n) 0)) (replicate 112 0 @ ?len)\<rparr>
      else c\<lparr>sha512_p := r @ 0x80 # replicate (111 - n) 0 @ ?len,
        sha512_h := fips_compress512 s (r @ 0x80 # replicate (111 - n) 0 @ ?len)\<rparr>)"
  proof (cases "112 < n + 1")
    case True
    have b: "memset_at (p[n := 0x80]) (n + 1) 0 (128 - (n + 1)) = r @ 0x80 # replicate (127 - n) 0"
      using pad1 n ctx by (simp add: memset_at_def memcpy_at_def)
    have l: "length (r @ 0x80 # replicate (127 - n) 0) = 128"
      using n by (simp add: n_def)
    show ?thesis
      using True ctx n b l len one
      by (simp add: SHA512_pad_def Let_def p_def [symmetric] memcpy_length_field memset_at_def memcpy_at_def)
  next
    case False
    have b: "take 112 (memset_at (p[n := 0x80]) (n + 1) 0 (112 - (n + 1))) = r @ 0x80 # replicate (111 - n) 0"
    proof -
      have "112 - n = Suc (111 - n)" "length r = n"
        using False by (simp_all add: n_def)
      then show ?thesis
        using pad1 n ctx False by (simp add: memset_at_def memcpy_at_def)
    qed
    have l: "length (r @ 0x80 # replicate (111 - n) 0 @ ?len) = 128"
      using n False by (simp add: n_def)
    show ?thesis
      using False ctx n b l len one
      by (simp add: SHA512_pad_def Let_def p_def [symmetric] memcpy_length_field)
  qed
  have nr: "length r = n"
    by (simp add: n_def)
  show "sha512_h (SHA512_pad c) = absorbed fips_compress512 128 iv (md_pad 128 16 m)"
  proof (cases "112 < n + 1")
    case True
    then show ?thesis
      using absorbed_md_pad(2) [of 16 128 m fips_compress512 iv] pad_def nr
      by (simp add: r_def [symmetric] s_def [symmetric])
  next
    case False
    then show ?thesis
      using absorbed_md_pad(1) [of 16 128 m fips_compress512 iv] pad_def nr
      by (simp add: r_def [symmetric] s_def [symmetric])
  qed
  show "sha512_md_len (SHA512_pad c) = d" "length (sha512_p (SHA512_pad c)) = 128"
    using pad_def ctx n nr by (auto split: if_splits)
qed

lemma digest_words:
  assumes "length h = 8"
  shows "concat (map (\<lambda>n. put_u64_be (h ! n)) [0..<6]) = take 48 (concat (map (be_of_word 8) h))"
    "concat (map (\<lambda>n. put_u64_be (h ! n)) [0..<8]) = take 64 (concat (map (be_of_word 8) h))"
  using assms by (elim list8_cases; simp add: put_u64_be_eq upt_rec)+

lemma sha512_ctx_final:
  assumes "sha512_ctx iv d m c" "d = 48 \<or> d = 64"
  shows "\<exists>c'. SHA512_Final True c = (1, fips_hash512 iv d m, c') \<and> length (sha512_p c') = 128"
proof -
  note pad = SHA512_pad_spec [OF assms(1)]
  have "length iv = 8"
    using assms(1) by (simp add: sha512_ctx_def)
  then have "length (sha512_h (SHA512_pad c)) = 8"
    by (simp add: pad)
  from digest_words [OF this] show ?thesis
    using assms(2) by (auto simp: SHA512_Final_def Let_def fips_hash512_def pad)
qed

lemma length_fips_hash512:
  assumes "length iv = 8" "d \<le> 64"
  shows "length (fips_hash512 iv d m) = d"
proof -
  have "length (concat (map (be_of_word 8) h)) = 64" if "length h = 8" for h :: "u64 list"
    using that by (elim list8_cases) simp
  then show ?thesis
    using assms by (simp add: fips_hash512_def)
qed

lemma length_fips_iv512 [simp]: "length fips_iv512 = 8" "length fips_iv384 = 8"
  by (simp_all add: fips_iv512_def fips_iv384_def)

interpretation sha512: streaming_hash "sha512_ctx fips_iv512 64" "\<lambda>c d. snd (SHA512_Update c d)"
  "\<lambda>c. fst (snd (SHA512_Final True c))" fips_sha512
proof
  fix m d c
  assume c: "sha512_ctx fips_iv512 64 m c"
  show "sha512_ctx fips_iv512 64 (m @ d) (snd (SHA512_Update c d))"
    using sha512_ctx_update [OF c, of d] by auto
  show "fst (snd (SHA512_Final True c)) = fips_sha512 m"
    using sha512_ctx_final [OF c] by auto
qed

interpretation sha384: streaming_hash "sha512_ctx fips_iv384 48" "\<lambda>c d. snd (SHA384_Update c d)"
  "\<lambda>c. fst (snd (SHA384_Final True c))" fips_sha384
proof
  fix m d c
  assume c: "sha512_ctx fips_iv384 48 m c"
  show "sha512_ctx fips_iv384 48 (m @ d) (snd (SHA384_Update c d))"
    using sha512_ctx_update [OF c, of d] by (auto simp: SHA384_Update_def)
  show "fst (snd (SHA384_Final True c)) = fips_sha384 m"
    using sha512_ctx_final [OF c] by (auto simp: SHA384_Final_def)
qed

lemma sha512_one_shot:
  assumes "length (sha512_p ctx) = 128"
  shows "SHA512 ctx data = fips_sha512 data"
proof -
  obtain c where c: "SHA512_Init ctx = (1, c)" "sha512_ctx fips_iv512 64 [] c"
    using sha512_ctx_init(1) [OF assms] by blast
  then show ?thesis
    using sha512.final_updates [OF c(2), of "[data]"] by (simp add: SHA512_def case_prod_beta)
qed

section \<open>Properties\<close>



text \<open>A message may be passed in any pieces.\<close>

lemma SHA512_streaming:
  assumes "length (sha512_p ctx) = 128"
  shows "let c0 = snd (SHA512_Init ctx); c = foldl (\<lambda>c d. snd (SHA512_Update c d)) c0 pieces
    in fst (SHA512_Init ctx) = 1 \<and> fst (SHA512_Update c d) = 1 \<and> fst (SHA512_Final True c) = 1 \<and>
       fst (snd (SHA512_Final True c)) = fips_sha512 (concat pieces)"
proof -
  obtain c where c: "SHA512_Init ctx = (1, c)" "sha512_ctx fips_iv512 64 [] c"
    using sha512_ctx_init(1) [OF assms] by blast
  define c' where "c' = foldl (\<lambda>c d. snd (SHA512_Update c d)) c pieces"
  have c': "sha512_ctx fips_iv512 64 (concat pieces) c'"
    using sha512.holds_updates [OF c(2), of pieces] by (simp add: c'_def)
  show ?thesis
    using sha512_ctx_update [OF c', of d] sha512_ctx_final [OF c']
    by (auto simp: Let_def c(1) c'_def [symmetric])
qed

text \<open>
  C10: the invariant of a context: after any sequence of updates it holds the state after the
  whole blocks of the message, the rest of the message in its buffer, fewer than 128 bytes, and eight
  times the length of the message modulo \<open>2 ^ 128\<close> in its two counters, carries included.
\<close>

theorem SHA512_context_invariant:
  assumes "length (sha512_p ctx) = 128"
  shows "let m = concat pieces; c = foldl (\<lambda>c d. snd (SHA512_Update c d)) (snd (SHA512_Init ctx)) pieces
    in sha512_h c = hash_blocks fips_compress512 128 fips_iv512 m (length m div 128) \<and>
       sha512_num c = length m mod 128 \<and> length (sha512_p c) = 128 \<and>
       take (sha512_num c) (sha512_p c) = drop (128 * (length m div 128)) m \<and>
       unat (sha512_Nl c) + 2 ^ 64 * unat (sha512_Nh c) = 8 * length m mod 2 ^ 128"
proof -
  obtain c where c: "SHA512_Init ctx = (1, c)" "sha512_ctx fips_iv512 64 [] c"
    using sha512_ctx_init(1) [OF assms] by blast
  define c' where "c' = foldl (\<lambda>c d. snd (SHA512_Update c d)) c pieces"
  define m where "m = concat pieces"
  have c': "sha512_ctx fips_iv512 64 m c'"
    using sha512.holds_updates [OF c(2), of pieces] by (simp add: c'_def m_def)
  have "unat (sha512_Nl c') = 8 * length m mod 2 ^ 64" "unat (sha512_Nh c') = 8 * length m div 2 ^ 64 mod 2 ^ 64"
    using c' by (simp_all only: sha512_ctx_def unat_word_of_nat_mod) simp_all
  then have counter: "unat (sha512_Nl c') + 2 ^ 64 * unat (sha512_Nh c') = 8 * length m mod 2 ^ 128"
    using mod_mult2_eq [of "8 * length m" "2 ^ 64" "2 ^ 64"] by simp
  note ctx = c' [unfolded sha512_ctx_def absorbed_def leftover_def]
  have "sha512_num c' = length m mod 128"
    using c' by (simp add: sha512_ctx_def)
  then show ?thesis
    unfolding Let_def c(1) snd_conv m_def [symmetric] c'_def [symmetric] using ctx counter by blast
qed

theorem SHA512_context_invariant_witness:
  "sha512_num (foldl (\<lambda>c d. snd (SHA512_Update c d))
     (snd (SHA512_Init \<lparr>sha512_h = [], sha512_Nl = 5, sha512_Nh = 6, sha512_p = replicate 128 9,
        sha512_num = 77, sha512_md_len = 0\<rparr>)) [replicate 100 1, replicate 100 2]) = 72"
  using SHA512_context_invariant [of "\<lparr>sha512_h = [], sha512_Nl = 5, sha512_Nh = 6, sha512_p = replicate 128 9,
      sha512_num = 77, sha512_md_len = 0\<rparr>" "[replicate 100 1, replicate 100 2]"]
  by (simp add: Let_def)

text \<open>
  \<open>SHA512_Final\<close> fails, writing nothing, exactly when \<open>out\<close> is null or \<open>md_len\<close> is not the length of
  one of its two digests.
\<close>

lemma SHA512_Final_errors:
  "fst (SHA512_Final out_nonnull sha) =
      (if out_nonnull \<and> (sha512_md_len sha = 48 \<or> sha512_md_len sha = 64) then 1 else 0) \<and>
    (fst (SHA512_Final out_nonnull sha) = 1 \<or> fst (snd (SHA512_Final out_nonnull sha)) = [])"
proof -
  have "sha512_md_len (SHA512_pad sha) = sha512_md_len sha"
    by (simp add: SHA512_pad_def Let_def)
  then show ?thesis
    by (simp add: SHA512_Final_def Let_def)
qed

end
