(* ===== verification/Digest.thy ===== *)
theory Digest
  imports SHA256 SHA512 "HOL-Library.Monad_Syntax"
begin

text \<open>
  \<open>crypto/fipsmodule/digest/digest.c\<close> and \<open>digests.c\<close>: the generic digest interface. A digest is one
  of the static \<open>EVP_MD\<close> objects of \<open>digests.c\<close> (the SHA-2 family is modelled; MD4, MD5, SHA-1 and
  their combination are not), and its function pointers dispatch on it. A context owns a block of
  memory for the state of the hash; \<open>OPENSSL_malloc\<close> may fail. Contexts for signatures (\<open>pctx\<close>) are
  outside the model: the field is \<open>NULL\<close> here.

  A function that would follow a \<open>NULL\<close> pointer, or read the state of one hash as that of another,
  returns \<open>None\<close>; the lemmas show that this does not happen.
\<close>

section \<open>The allocator\<close>

text \<open>
  The answers of the calls of \<open>OPENSSL_malloc\<close> to come, \<open>False\<close> for a failure. When the list is used
  up the calls succeed.
\<close>

type_synonym heap = "bool list"

definition OPENSSL_malloc :: "heap \<Rightarrow> bool \<times> heap" where
  "OPENSSL_malloc h = (case h of [] \<Rightarrow> (True, []) | ok # h' \<Rightarrow> (ok, h'))"

abbreviation no_oom :: "heap \<Rightarrow> bool" where
  "no_oom h \<equiv> False \<notin> set h"

lemma OPENSSL_malloc_cases:
  obtains h' where "OPENSSL_malloc h = (True, h')" "set h' \<subseteq> set h"
  | h' where "OPENSSL_malloc h = (False, h')" "False \<in> set h"
proof (cases h)
  case (Cons ok h')
  then show thesis
    by (cases ok) (auto simp: OPENSSL_malloc_def intro: that)
qed (auto simp: OPENSSL_malloc_def intro: that)

section \<open>The digests\<close>

datatype EVP_MD = EVP_sha224 | EVP_sha256 | EVP_sha384 | EVP_sha512

text \<open>The contents of the block at \<open>md_data\<close>.\<close>

datatype md_data = MD_SHA256 SHA256_CTX | MD_SHA512 SHA512_CTX

fun EVP_MD_type :: "EVP_MD \<Rightarrow> nat" where
  "EVP_MD_type EVP_sha224 = 675"
| "EVP_MD_type EVP_sha256 = 672"
| "EVP_MD_type EVP_sha384 = 673"
| "EVP_MD_type EVP_sha512 = 674"

fun EVP_MD_size :: "EVP_MD \<Rightarrow> nat" where
  "EVP_MD_size EVP_sha224 = 28"
| "EVP_MD_size EVP_sha256 = 32"
| "EVP_MD_size EVP_sha384 = 48"
| "EVP_MD_size EVP_sha512 = 64"

fun EVP_MD_block_size :: "EVP_MD \<Rightarrow> nat" where
  "EVP_MD_block_size EVP_sha224 = 64"
| "EVP_MD_block_size EVP_sha256 = 64"
| "EVP_MD_block_size EVP_sha384 = 128"
| "EVP_MD_block_size EVP_sha512 = 128"

text \<open>
  The function pointers \<open>init\<close>, \<open>update\<close> and \<open>final\<close>. The status of the hash functions goes to
  \<open>CHECK\<close>, which ignores it.
\<close>

fun md_init :: "EVP_MD \<Rightarrow> md_data \<Rightarrow> md_data option" where
  "md_init EVP_sha224 (MD_SHA256 c) = Some (MD_SHA256 (snd (SHA224_Init c)))"
| "md_init EVP_sha256 (MD_SHA256 c) = Some (MD_SHA256 (snd (SHA256_Init c)))"
| "md_init EVP_sha384 (MD_SHA512 c) = Some (MD_SHA512 (snd (SHA384_Init c)))"
| "md_init EVP_sha512 (MD_SHA512 c) = Some (MD_SHA512 (snd (SHA512_Init c)))"
| "md_init _ _ = None"

fun md_update :: "EVP_MD \<Rightarrow> md_data \<Rightarrow> bytes \<Rightarrow> md_data option" where
  "md_update EVP_sha224 (MD_SHA256 c) data = Some (MD_SHA256 (snd (SHA224_Update c data)))"
| "md_update EVP_sha256 (MD_SHA256 c) data = Some (MD_SHA256 (snd (SHA256_Update c data)))"
| "md_update EVP_sha384 (MD_SHA512 c) data = Some (MD_SHA512 (snd (SHA384_Update c data)))"
| "md_update EVP_sha512 (MD_SHA512 c) data = Some (MD_SHA512 (snd (SHA512_Update c data)))"
| "md_update _ _ _ = None"

fun md_final :: "EVP_MD \<Rightarrow> md_data \<Rightarrow> (bytes \<times> md_data) option" where
  "md_final EVP_sha224 (MD_SHA256 c) = (let (_, out, c) = SHA224_Final c in Some (out, MD_SHA256 c))"
| "md_final EVP_sha256 (MD_SHA256 c) = (let (_, out, c) = SHA256_Final c in Some (out, MD_SHA256 c))"
| "md_final EVP_sha384 (MD_SHA512 c) = (let (_, out, c) = SHA384_Final True c in Some (out, MD_SHA512 c))"
| "md_final EVP_sha512 (MD_SHA512 c) = (let (_, out, c) = SHA512_Final True c in Some (out, MD_SHA512 c))"
| "md_final _ _ = None"

text \<open>
  A block of \<open>ctx_size\<close> bytes, all zero. A block that \<open>OPENSSL_malloc\<close> returns has arbitrary
  contents, which no function reads before \<open>md_init\<close> has overwritten them (\<open>md_init_holds\<close> below is
  for any contents); the model takes zeros.
\<close>

definition zero_sha512_ctx :: SHA512_CTX where
  "zero_sha512_ctx = \<lparr>sha512_h = replicate 8 0, sha512_Nl = 0, sha512_Nh = 0,
     sha512_p = replicate 128 0, sha512_num = 0, sha512_md_len = 0\<rparr>"

fun zero_md_data :: "EVP_MD \<Rightarrow> md_data" where
  "zero_md_data EVP_sha224 = MD_SHA256 zero_sha256_ctx"
| "zero_md_data EVP_sha256 = MD_SHA256 zero_sha256_ctx"
| "zero_md_data EVP_sha384 = MD_SHA512 zero_sha512_ctx"
| "zero_md_data EVP_sha512 = MD_SHA512 zero_sha512_ctx"

section \<open>Contexts\<close>

record EVP_MD_CTX =
  digest :: "EVP_MD option"
  md_data :: "md_data option"

definition EVP_MD_CTX_init :: EVP_MD_CTX where
  "EVP_MD_CTX_init = \<lparr>digest = None, md_data = None\<rparr>"

definition EVP_MD_CTX_cleanup :: "EVP_MD_CTX \<Rightarrow> int \<times> EVP_MD_CTX" where
  "EVP_MD_CTX_cleanup ctx = (1, EVP_MD_CTX_init)"

definition EVP_MD_CTX_new :: "heap \<Rightarrow> EVP_MD_CTX option \<times> heap" where
  "EVP_MD_CTX_new h = (let (ok, h) = OPENSSL_malloc h in (if ok then Some EVP_MD_CTX_init else None, h))"

definition EVP_MD_CTX_reset :: "EVP_MD_CTX \<Rightarrow> int \<times> EVP_MD_CTX" where
  "EVP_MD_CTX_reset ctx = (1, EVP_MD_CTX_init)"

definition EVP_DigestInit_ex :: "heap \<Rightarrow> EVP_MD_CTX \<Rightarrow> EVP_MD \<Rightarrow> (int \<times> EVP_MD_CTX \<times> heap) option" where
  "EVP_DigestInit_ex h ctx type =
     (let (ok, ctx, h) =
        (if digest ctx \<noteq> Some type then
           let (ok, h) = OPENSSL_malloc h
           in if \<not> ok then (False, ctx, h)
              else (True, ctx\<lparr>md_data := Some (zero_md_data type), digest := Some type\<rparr>, h)
         else (True, ctx, h))
      in if \<not> ok then Some (0, ctx, h)
         else do {
           md \<leftarrow> digest ctx;
           d \<leftarrow> md_data ctx;
           d \<leftarrow> md_init md d;
           Some (1, ctx\<lparr>md_data := Some d\<rparr>, h)
         })"

definition EVP_DigestInit :: "heap \<Rightarrow> EVP_MD_CTX \<Rightarrow> EVP_MD \<Rightarrow> (int \<times> EVP_MD_CTX \<times> heap) option" where
  "EVP_DigestInit h ctx type = EVP_DigestInit_ex h EVP_MD_CTX_init type"

definition EVP_DigestUpdate :: "EVP_MD_CTX \<Rightarrow> bytes \<Rightarrow> (int \<times> EVP_MD_CTX) option" where
  "EVP_DigestUpdate ctx data = do {
     md \<leftarrow> digest ctx;
     d \<leftarrow> md_data ctx;
     d \<leftarrow> md_update md d data;
     Some (1, ctx\<lparr>md_data := Some d\<rparr>)
   }"

text \<open>
  The result has the bytes written at \<open>md_out\<close>; \<open>*size\<close> is \<open>EVP_MD_size\<close> of the digest. The state
  is wiped with \<open>OPENSSL_cleanse\<close>, which writes zeros.
\<close>

definition EVP_DigestFinal_ex :: "EVP_MD_CTX \<Rightarrow> (int \<times> bytes \<times> nat \<times> EVP_MD_CTX) option" where
  "EVP_DigestFinal_ex ctx = do {
     md \<leftarrow> digest ctx;
     d \<leftarrow> md_data ctx;
     (out, d) \<leftarrow> md_final md d;
     Some (1, out, EVP_MD_size md, ctx\<lparr>md_data := Some (zero_md_data md)\<rparr>)
   }"

definition EVP_DigestFinal :: "EVP_MD_CTX \<Rightarrow> (int \<times> bytes \<times> nat \<times> EVP_MD_CTX) option" where
  "EVP_DigestFinal ctx = do {
     (_, out, size, ctx) \<leftarrow> EVP_DigestFinal_ex ctx;
     Some (1, out, size, snd (EVP_MD_CTX_cleanup ctx))
   }"

text \<open>
  \<open>EVP_MD_CTX_copy_ex\<close> of a context to another object. The block of the target is kept when it has
  the right size, which is so when both have the same digest.
\<close>

definition EVP_MD_CTX_copy_ex :: "heap \<Rightarrow> EVP_MD_CTX \<Rightarrow> EVP_MD_CTX \<Rightarrow> (int \<times> EVP_MD_CTX \<times> heap) option" where
  "EVP_MD_CTX_copy_ex h out inp =
     (case digest inp of
        None \<Rightarrow> Some (0, out, h)
      | Some type \<Rightarrow>
          let (ok, tmp_buf, h) =
            (if digest out \<noteq> digest inp then
               let (ok, h) = OPENSSL_malloc h
               in if \<not> ok then (False, None, h) else (True, Some (zero_md_data type), h)
             else (True, md_data out, h))
          in if \<not> ok then Some (0, out, h)
             else do {
               _ \<leftarrow> tmp_buf;
               d \<leftarrow> md_data inp;
               Some (1, (snd (EVP_MD_CTX_cleanup out))\<lparr>digest := digest inp, md_data := Some d\<rparr>, h)
             })"

definition EVP_MD_CTX_copy :: "heap \<Rightarrow> EVP_MD_CTX \<Rightarrow> (int \<times> EVP_MD_CTX \<times> heap) option" where
  "EVP_MD_CTX_copy h inp = EVP_MD_CTX_copy_ex h EVP_MD_CTX_init inp"

text \<open>The one-shot digest: the status and the bytes written.\<close>

definition EVP_Digest :: "heap \<Rightarrow> bytes \<Rightarrow> EVP_MD \<Rightarrow> (int \<times> bytes \<times> heap) option" where
  "EVP_Digest h data type = do {
     (ret, ctx, h) \<leftarrow> EVP_DigestInit_ex h EVP_MD_CTX_init type;
     if ret = 0 then Some (0, [], h)
     else do {
       (ret, ctx) \<leftarrow> EVP_DigestUpdate ctx data;
       if ret = 0 then Some (0, [], h)
       else do {
         (ret, out, _, ctx) \<leftarrow> EVP_DigestFinal_ex ctx;
         Some (ret, out, h)
       }
     }
   }"

section \<open>What a context holds\<close>

fun fips_hash :: "EVP_MD \<Rightarrow> bytes \<Rightarrow> bytes" where
  "fips_hash EVP_sha224 m = fips_sha224 m"
| "fips_hash EVP_sha256 m = fips_sha256 m"
| "fips_hash EVP_sha384 m = fips_sha384 m"
| "fips_hash EVP_sha512 m = fips_sha512 m"

fun data_holds :: "EVP_MD \<Rightarrow> bytes \<Rightarrow> md_data \<Rightarrow> bool" where
  "data_holds EVP_sha224 m (MD_SHA256 c) = sha256_ctx fips_iv224 28 m c"
| "data_holds EVP_sha256 m (MD_SHA256 c) = sha256_ctx fips_iv256 32 m c"
| "data_holds EVP_sha384 m (MD_SHA512 c) = sha512_ctx fips_iv384 48 m c"
| "data_holds EVP_sha512 m (MD_SHA512 c) = sha512_ctx fips_iv512 64 m c"
| "data_holds _ _ _ = False"

fun data_ok :: "EVP_MD \<Rightarrow> md_data \<Rightarrow> bool" where
  "data_ok EVP_sha224 (MD_SHA256 c) = True"
| "data_ok EVP_sha256 (MD_SHA256 c) = True"
| "data_ok EVP_sha384 (MD_SHA512 c) = (length (sha512_p c) = 128)"
| "data_ok EVP_sha512 (MD_SHA512 c) = (length (sha512_p c) = 128)"
| "data_ok _ _ = False"

text \<open>The type invariant of a context, and the contexts that have taken a message.\<close>

definition md_ctx_ok :: "EVP_MD_CTX \<Rightarrow> bool" where
  "md_ctx_ok ctx \<longleftrightarrow> (case digest ctx of
     None \<Rightarrow> md_data ctx = None
   | Some md \<Rightarrow> (case md_data ctx of None \<Rightarrow> False | Some d \<Rightarrow> data_ok md d))"

definition md_holds :: "EVP_MD \<Rightarrow> bytes \<Rightarrow> EVP_MD_CTX \<Rightarrow> bool" where
  "md_holds md m ctx \<longleftrightarrow> digest ctx = Some md \<and> (\<exists>d. md_data ctx = Some d \<and> data_holds md m d)"

lemma EVP_MD_size_pos [simp]: "0 < EVP_MD_size md"
  by (cases md) simp_all

lemma EVP_MD_size_le: "EVP_MD_size md \<le> 64" "EVP_MD_size md \<le> EVP_MD_block_size md"
  by (cases md; simp)+

lemma EVP_MD_block_size_le: "EVP_MD_block_size md \<le> 128" "0 < EVP_MD_block_size md"
  by (cases md; simp)+

lemma length_fips_hash [simp]: "length (fips_hash md m) = EVP_MD_size md"
  by (cases md) (simp_all add: length_fips_hash256 length_fips_hash512)

lemma data_holds_ok: "data_holds md m d \<Longrightarrow> data_ok md d"
  by (cases "(md, m, d)" rule: data_holds.cases) (auto simp: sha512_ctx_def)

lemma md_holds_ok: "md_holds md m ctx \<Longrightarrow> md_ctx_ok ctx"
  by (auto simp: md_holds_def md_ctx_ok_def intro: data_holds_ok)

lemma zero_md_data_ok [simp]: "data_ok md (zero_md_data md)"
  by (cases md) (simp_all add: zero_sha512_ctx_def)

lemma md_ctx_ok_init [simp]: "md_ctx_ok EVP_MD_CTX_init"
  by (simp add: md_ctx_ok_def EVP_MD_CTX_init_def)

lemma init_holds:
  "sha256_ctx fips_iv224 28 [] (snd (SHA224_Init c))"
  "sha256_ctx fips_iv256 32 [] (snd (SHA256_Init c))"
  "length (sha512_p c') = 128 \<Longrightarrow> sha512_ctx fips_iv384 48 [] (snd (SHA384_Init c'))"
  "length (sha512_p c') = 128 \<Longrightarrow> sha512_ctx fips_iv512 64 [] (snd (SHA512_Init c'))"
  using sha256_ctx_init [of c] sha512_ctx_init [of c'] by auto

lemma md_init_holds: "data_ok md d \<Longrightarrow> \<exists>d'. md_init md d = Some d' \<and> data_holds md [] d'"
  by (cases "(md, d)" rule: md_init.cases) (simp_all add: init_holds)

lemma md_update_holds: "data_holds md m d \<Longrightarrow> \<exists>d'. md_update md d x = Some d' \<and> data_holds md (m @ x) d'"
  using sha256.holds_update sha224.holds_update sha384.holds_update sha512.holds_update
  by (cases "(md, d, x)" rule: md_update.cases) (simp_all add: SHA224_Update_def SHA384_Update_def)

lemma md_final_hash: "data_holds md m d \<Longrightarrow> \<exists>d'. md_final md d = Some (fips_hash md m, d')"
  by (cases "(md, d)" rule: md_final.cases)
    (simp_all add: case_prod_beta sha224.final_hash sha256.final_hash sha384.final_hash sha512.final_hash)

section \<open>The operations on contexts\<close>

lemma EVP_DigestInit_ex_holds:
  assumes "md_ctx_ok ctx"
  obtains ctx' h' where "EVP_DigestInit_ex h ctx md = Some (1, ctx', h')" "md_holds md [] ctx'"
      "set h' \<subseteq> set h" "digest ctx = Some md \<Longrightarrow> h' = h"
  | h' where "EVP_DigestInit_ex h ctx md = Some (0, ctx, h')" "digest ctx \<noteq> Some md" "False \<in> set h"
proof (cases "digest ctx = Some md")
  case True
  with assms obtain d where d: "md_data ctx = Some d" "data_ok md d"
    by (auto simp: md_ctx_ok_def split: option.splits)
  with md_init_holds obtain d' where "md_init md d = Some d'" "data_holds md [] d'"
    by blast
  then show thesis
    using True d by (intro that(1)) (auto simp: EVP_DigestInit_ex_def md_holds_def)
next
  case False
  obtain d' where d': "md_init md (zero_md_data md) = Some d'" "data_holds md [] d'"
    using md_init_holds zero_md_data_ok by blast
  show thesis
  proof (cases h rule: OPENSSL_malloc_cases)
    case (1 h')
    then show thesis
      using False d' by (intro that(1)) (auto simp: EVP_DigestInit_ex_def md_holds_def)
  next
    case (2 h')
    then show thesis
      using False by (intro that(2)) (auto simp: EVP_DigestInit_ex_def)
  qed
qed

lemma EVP_DigestUpdate_holds:
  assumes "md_holds md m ctx"
  obtains ctx' where "EVP_DigestUpdate ctx x = Some (1, ctx')" "md_holds md (m @ x) ctx'"
proof -
  from assms obtain d where d: "digest ctx = Some md" "md_data ctx = Some d" "data_holds md m d"
    by (auto simp: md_holds_def)
  with md_update_holds obtain d' where "md_update md d x = Some d'" "data_holds md (m @ x) d'"
    by blast
  with d show thesis
    by (intro that) (auto simp: EVP_DigestUpdate_def md_holds_def)
qed

lemma EVP_DigestFinal_ex_hash:
  assumes "md_holds md m ctx"
  obtains ctx' where "EVP_DigestFinal_ex ctx = Some (1, fips_hash md m, EVP_MD_size md, ctx')"
    "md_ctx_ok ctx'" "digest ctx' = Some md"
proof -
  from assms obtain d where d: "digest ctx = Some md" "md_data ctx = Some d" "data_holds md m d"
    by (auto simp: md_holds_def)
  with md_final_hash obtain d' where "md_final md d = Some (fips_hash md m, d')"
    by blast
  with d show thesis
    by (intro that [of "ctx\<lparr>md_data := Some (zero_md_data md)\<rparr>"])
      (auto simp: EVP_DigestFinal_ex_def md_ctx_ok_def)
qed

lemma EVP_MD_CTX_copy_ex_holds:
  assumes "md_ctx_ok out" "md_holds md m inp"
  obtains out' h' where "EVP_MD_CTX_copy_ex h out inp = Some (1, out', h')" "md_holds md m out'"
      "set h' \<subseteq> set h" "digest out = Some md \<Longrightarrow> h' = h"
  | h' where "EVP_MD_CTX_copy_ex h out inp = Some (0, out, h')" "digest out \<noteq> Some md" "False \<in> set h"
proof -
  from assms(2) obtain d where d: "digest inp = Some md" "md_data inp = Some d" "data_holds md m d"
    by (auto simp: md_holds_def)
  show thesis
  proof (cases "digest out = Some md")
    case True
    with assms(1) obtain d0 where "md_data out = Some d0"
      by (auto simp: md_ctx_ok_def split: option.splits)
    with True d show thesis
      by (intro that(1)) (auto simp: EVP_MD_CTX_copy_ex_def EVP_MD_CTX_cleanup_def md_holds_def)
  next
    case False
    show thesis
    proof (cases h rule: OPENSSL_malloc_cases)
      case (1 h')
      with False d show thesis
        by (intro that(1)) (auto simp: EVP_MD_CTX_copy_ex_def EVP_MD_CTX_cleanup_def md_holds_def)
    next
      case (2 h')
      with False d show thesis
        by (intro that(2)) (auto simp: EVP_MD_CTX_copy_ex_def)
    qed
  qed
qed

interpretation evp: streaming_hash "md_holds md" "\<lambda>ctx d. snd (the (EVP_DigestUpdate ctx d))"
  "\<lambda>ctx. fst (snd (the (EVP_DigestFinal_ex ctx)))" "fips_hash md" for md
proof
  fix m d ctx
  assume ctx: "md_holds md m ctx"
  show "md_holds md (m @ d) (snd (the (EVP_DigestUpdate ctx d)))"
    using EVP_DigestUpdate_holds [OF ctx, of d] by fastforce
  show "fst (snd (the (EVP_DigestFinal_ex ctx))) = fips_hash md m"
    using EVP_DigestFinal_ex_hash [OF ctx] by fastforce
qed

section \<open>Properties\<close>

text \<open>
  C17: the one-shot digest does not follow a null pointer; it returns 1 with the hash of FIPS
  180-4, or 0 with nothing written, and the latter only when an allocation failed.
\<close>

theorem EVP_Digest_outcomes:
  "\<exists>h'. EVP_Digest h data type = Some (1, fips_hash type data, h') \<or>
    EVP_Digest h data type = Some (0, [], h') \<and> False \<in> set h"
proof (cases rule: EVP_DigestInit_ex_holds [OF md_ctx_ok_init, of h type])
  case (1 c h')
  obtain c1 where c1: "EVP_DigestUpdate c data = Some (1, c1)" "md_holds type data c1"
    using EVP_DigestUpdate_holds [OF 1(2), of data] by auto
  obtain c2 where "EVP_DigestFinal_ex c1 = Some (1, fips_hash type data, EVP_MD_size type, c2)"
    using EVP_DigestFinal_ex_hash [OF c1(2)] by auto
  with 1(1) c1(1) show ?thesis
    by (auto simp: EVP_Digest_def)
next
  case (2 h')
  then show ?thesis
    by (auto simp: EVP_Digest_def)
qed

text \<open>
  A copied context continues the message of the original: feeding both with further data
  and finishing them gives the two hashes, and a copy between contexts of the same digest never
  fails.
\<close>

lemma EVP_MD_CTX_copy_is_independent:
  assumes "md_holds md m inp" "md_ctx_ok out" "digest out = Some md"
  shows "\<exists>out'. EVP_MD_CTX_copy_ex h out inp = Some (1, out', h) \<and>
    fst (snd (the (EVP_DigestFinal_ex (snd (the (EVP_DigestUpdate out' x)))))) = fips_hash md (m @ x) \<and>
    fst (snd (the (EVP_DigestFinal_ex (snd (the (EVP_DigestUpdate inp y)))))) = fips_hash md (m @ y)"
proof (cases rule: EVP_MD_CTX_copy_ex_holds [OF assms(2,1), of h])
  case (1 out' h')
  then show ?thesis
    using evp.final_updates [OF 1(2), of "[x]"] evp.final_updates [OF assms(1), of "[y]"] assms(3) by auto
next
  case (2 h')
  with assms(3) show ?thesis by simp
qed

end
