(* ===== verification/HMAC.thy ===== *)
theory HMAC
  imports Digest
begin

text \<open>
  \<open>crypto/fipsmodule/hmac/hmac.c\<close>: HMAC over the generic digest interface. A context keeps three
  digest contexts: \<open>i_ctx\<close> and \<open>o_ctx\<close> have taken the padded key, \<open>md_ctx\<close> is the running one. The
  abstract side is the HMAC of FIPS 198-1 over the hash of FIPS 180-4.
\<close>

section \<open>The code\<close>

record HMAC_CTX =
  hmac_md :: "EVP_MD option"
  md_ctx :: EVP_MD_CTX
  i_ctx :: EVP_MD_CTX
  o_ctx :: EVP_MD_CTX

definition HMAC_CTX_init :: HMAC_CTX where
  "HMAC_CTX_init = \<lparr>hmac_md = None, md_ctx = EVP_MD_CTX_init, i_ctx = EVP_MD_CTX_init, o_ctx = EVP_MD_CTX_init\<rparr>"

text \<open>Cleaning up frees the three contexts and writes zeros, which are null pointers.\<close>

definition HMAC_CTX_cleanup :: "HMAC_CTX \<Rightarrow> HMAC_CTX" where
  "HMAC_CTX_cleanup ctx = \<lparr>hmac_md = None, md_ctx = snd (EVP_MD_CTX_cleanup (md_ctx ctx)),
     i_ctx = snd (EVP_MD_CTX_cleanup (i_ctx ctx)), o_ctx = snd (EVP_MD_CTX_cleanup (o_ctx ctx))\<rparr>"

definition HMAC_CTX_reset :: "HMAC_CTX \<Rightarrow> HMAC_CTX" where
  "HMAC_CTX_reset ctx = HMAC_CTX_init"

text \<open>
  The steps of \<open>HMAC_Init_ex\<close> when it takes a new key. \<open>HMAC_key_block\<close> fills the 128 bytes of
  \<open>key_block\<close>, hashing a long key through \<open>md_ctx\<close>; \<open>kb\<close> is their uninitialised contents.
  \<open>HMAC_pad_ctx\<close> starts a digest context with the key block xored with a constant.
\<close>

definition HMAC_key_block ::
  "heap \<Rightarrow> EVP_MD_CTX \<Rightarrow> EVP_MD \<Rightarrow> bytes \<Rightarrow> bytes \<Rightarrow> (int \<times> bytes \<times> EVP_MD_CTX \<times> heap) option" where
  "HMAC_key_block h mctx md key kb =
     (if EVP_MD_block_size md < length key then do {
        (ret, mctx, h) \<leftarrow> EVP_DigestInit_ex h mctx md;
        if ret = 0 then Some (0, kb, mctx, h)
        else do {
          (ret, mctx) \<leftarrow> EVP_DigestUpdate mctx key;
          if ret = 0 then Some (0, kb, mctx, h)
          else do {
            (ret, out, key_block_len, mctx) \<leftarrow> EVP_DigestFinal_ex mctx;
            let kb = memcpy_at kb 0 out;
            let kb = (if key_block_len \<noteq> 128 then memset_at kb key_block_len 0 (128 - key_block_len) else kb);
            Some (ret, kb, mctx, h)
          }
        }
      } else
        (let kb = memcpy_at kb 0 key;
             key_block_len = length key;
             kb = (if key_block_len \<noteq> 128 then memset_at kb key_block_len 0 (128 - key_block_len) else kb)
         in Some (1, kb, mctx, h)))"

definition HMAC_pad_ctx ::
  "heap \<Rightarrow> EVP_MD_CTX \<Rightarrow> EVP_MD \<Rightarrow> u8 \<Rightarrow> bytes \<Rightarrow> (int \<times> EVP_MD_CTX \<times> heap) option" where
  "HMAC_pad_ctx h ctx md c key_block = do {
     let pad = map (\<lambda>i. c XOR key_block ! i) [0..<128];
     (ret, ctx, h) \<leftarrow> EVP_DigestInit_ex h ctx md;
     if ret = 0 then Some (0, ctx, h)
     else do {
       (ret, ctx) \<leftarrow> EVP_DigestUpdate ctx (take (EVP_MD_block_size md) pad);
       Some (ret, ctx, h)
     }
   }"

text \<open>
  \<open>HMAC_Init_ex\<close>; \<open>None\<close> for \<open>md\<close> or \<open>key\<close> is a null pointer. Asking for the block size of a null
  digest is a fault.
\<close>

definition HMAC_rekey :: "heap \<Rightarrow> HMAC_CTX \<Rightarrow> bytes \<Rightarrow> EVP_MD \<Rightarrow> bytes \<Rightarrow> (int \<times> HMAC_CTX \<times> heap) option" where
  "HMAC_rekey h ctx key md kb = do {
     (ret, key_block, c, h) \<leftarrow> HMAC_key_block h (md_ctx ctx) md key kb;
     let ctx = ctx\<lparr>md_ctx := c\<rparr>;
     if ret = 0 then Some (0, ctx, h)
     else do {
       (ret, c, h) \<leftarrow> HMAC_pad_ctx h (i_ctx ctx) md 0x36 key_block;
       let ctx = ctx\<lparr>i_ctx := c\<rparr>;
       if ret = 0 then Some (0, ctx, h)
       else do {
         (ret, c, h) \<leftarrow> HMAC_pad_ctx h (o_ctx ctx) md 0x5c key_block;
         let ctx = ctx\<lparr>o_ctx := c\<rparr>;
         if ret = 0 then Some (0, ctx, h)
         else Some (1, ctx\<lparr>hmac_md := Some md\<rparr>, h)
       }
     }
   }"

definition HMAC_rewind :: "heap \<Rightarrow> HMAC_CTX \<Rightarrow> (int \<times> HMAC_CTX \<times> heap) option" where
  "HMAC_rewind h ctx = do {
     (ret, c, h) \<leftarrow> EVP_MD_CTX_copy_ex h (md_ctx ctx) (i_ctx ctx);
     let ctx = ctx\<lparr>md_ctx := c\<rparr>;
     if ret = 0 then Some (0, ctx, h) else Some (1, ctx, h)
   }"

definition HMAC_Init_ex ::
  "heap \<Rightarrow> HMAC_CTX \<Rightarrow> bytes option \<Rightarrow> EVP_MD option \<Rightarrow> (int \<times> HMAC_CTX \<times> heap) option" where
  "HMAC_Init_ex h ctx key md =
     (let md = (if md = None then hmac_md ctx else md)
      in if md \<noteq> hmac_md ctx \<or> key \<noteq> None then do {
           m \<leftarrow> md;
           (ret, ctx, h) \<leftarrow> HMAC_rekey h ctx (case key of None \<Rightarrow> [] | Some k \<Rightarrow> k) m (replicate 128 0);
           if ret = 0 then Some (0, ctx, h) else HMAC_rewind h ctx
         } else HMAC_rewind h ctx)"

definition HMAC_Update :: "HMAC_CTX \<Rightarrow> bytes \<Rightarrow> (int \<times> HMAC_CTX) option" where
  "HMAC_Update ctx data = do {
     (ret, c) \<leftarrow> EVP_DigestUpdate (md_ctx ctx) data;
     Some (ret, ctx\<lparr>md_ctx := c\<rparr>)
   }"

text \<open>
  \<open>HMAC_Final\<close>: the status, the bytes written at \<open>out\<close>, and the length. When the copy fails the
  code stores through \<open>out_len\<close>; \<open>out_len_nonnull\<close> says whether the caller passed a pointer.
\<close>

definition HMAC_Final :: "heap \<Rightarrow> bool \<Rightarrow> HMAC_CTX \<Rightarrow> (int \<times> bytes \<times> nat \<times> HMAC_CTX \<times> heap) option" where
  "HMAC_Final h out_len_nonnull ctx = do {
     (_, buf, i, c) \<leftarrow> EVP_DigestFinal_ex (md_ctx ctx);
     (ret, c, h) \<leftarrow> EVP_MD_CTX_copy_ex h c (o_ctx ctx);
     let ctx = ctx\<lparr>md_ctx := c\<rparr>;
     if ret = 0 then (if out_len_nonnull then Some (0, [], 0, ctx, h) else None)
     else do {
       (_, c) \<leftarrow> EVP_DigestUpdate (md_ctx ctx) (take i buf);
       (_, out, out_len, c) \<leftarrow> EVP_DigestFinal_ex c;
       Some (1, out, out_len, ctx\<lparr>md_ctx := c\<rparr>, h)
     }
   }"

definition HMAC_size :: "HMAC_CTX \<Rightarrow> nat option" where
  "HMAC_size ctx = map_option EVP_MD_size (hmac_md ctx)"

definition HMAC_CTX_copy_ex :: "heap \<Rightarrow> HMAC_CTX \<Rightarrow> HMAC_CTX \<Rightarrow> (int \<times> HMAC_CTX \<times> heap) option" where
  "HMAC_CTX_copy_ex h dest src = do {
     (ret, c, h) \<leftarrow> EVP_MD_CTX_copy_ex h (i_ctx dest) (i_ctx src);
     let dest = dest\<lparr>i_ctx := c\<rparr>;
     if ret = 0 then Some (0, dest, h)
     else do {
       (ret, c, h) \<leftarrow> EVP_MD_CTX_copy_ex h (o_ctx dest) (o_ctx src);
       let dest = dest\<lparr>o_ctx := c\<rparr>;
       if ret = 0 then Some (0, dest, h)
       else do {
         (ret, c, h) \<leftarrow> EVP_MD_CTX_copy_ex h (md_ctx dest) (md_ctx src);
         let dest = dest\<lparr>md_ctx := c\<rparr>;
         if ret = 0 then Some (0, dest, h)
         else Some (1, dest\<lparr>hmac_md := hmac_md src\<rparr>, h)
       }
     }
   }"

definition HMAC_CTX_copy :: "heap \<Rightarrow> HMAC_CTX \<Rightarrow> (int \<times> HMAC_CTX \<times> heap) option" where
  "HMAC_CTX_copy h src = HMAC_CTX_copy_ex h HMAC_CTX_init src"

definition HMAC_Init :: "heap \<Rightarrow> HMAC_CTX \<Rightarrow> bytes option \<Rightarrow> EVP_MD option \<Rightarrow> (int \<times> HMAC_CTX \<times> heap) option" where
  "HMAC_Init h ctx key md =
     (let ctx = (if key \<noteq> None \<and> md \<noteq> None then HMAC_CTX_init else ctx) in HMAC_Init_ex h ctx key md)"

text \<open>The one-shot function: the bytes written, or \<open>None\<close> for the result \<open>NULL\<close>.\<close>

definition HMAC :: "heap \<Rightarrow> EVP_MD \<Rightarrow> bytes option \<Rightarrow> bytes \<Rightarrow> bool \<Rightarrow> (bytes option \<times> heap) option" where
  "HMAC h evp_md key data out_len_nonnull = do {
     (ret, ctx, h) \<leftarrow> HMAC_Init_ex h HMAC_CTX_init key (Some evp_md);
     if ret = 0 then Some (None, h)
     else do {
       (ret, ctx) \<leftarrow> HMAC_Update ctx data;
       if ret = 0 then Some (None, h)
       else do {
         (ret, out, _, ctx, h) \<leftarrow> HMAC_Final h out_len_nonnull ctx;
         Some (if ret = 0 then None else Some out, h)
       }
     }
   }"

section \<open>FIPS 198-1\<close>

text \<open>
  The key of one block, the two padded keys, and \<open>H ((K0 xor opad) || H ((K0 xor ipad) || text))\<close>.
\<close>

definition fips_K0 :: "EVP_MD \<Rightarrow> bytes \<Rightarrow> bytes" where
  "fips_K0 md key =
     (let B = EVP_MD_block_size md;
          k = (if length key \<le> B then key else fips_hash md key)
      in k @ replicate (B - length k) 0)"

definition fips_pad_key :: "EVP_MD \<Rightarrow> u8 \<Rightarrow> bytes \<Rightarrow> bytes" where
  "fips_pad_key md c key = xor_bytes (fips_K0 md key) (replicate (EVP_MD_block_size md) c)"

definition fips_hmac :: "EVP_MD \<Rightarrow> bytes \<Rightarrow> bytes \<Rightarrow> bytes" where
  "fips_hmac md key text =
     fips_hash md (fips_pad_key md 0x5c key @ fips_hash md (fips_pad_key md 0x36 key @ text))"

lemma length_fips_hmac [simp]: "length (fips_hmac md key text) = EVP_MD_size md"
  by (simp add: fips_hmac_def)

section \<open>What a context holds\<close>

text \<open>
  \<open>hmac_ok\<close>: the three contexts are well formed. \<open>hmac_keyed md key\<close>: a key is set, so that
  rewinding cannot fail. \<open>hmac_holds md key m\<close>: the message so far is \<open>m\<close>.
\<close>

definition hmac_ok :: "HMAC_CTX \<Rightarrow> bool" where
  "hmac_ok ctx \<longleftrightarrow> md_ctx_ok (md_ctx ctx) \<and> md_ctx_ok (i_ctx ctx) \<and> md_ctx_ok (o_ctx ctx)"

definition hmac_keyed :: "EVP_MD \<Rightarrow> bytes \<Rightarrow> HMAC_CTX \<Rightarrow> bool" where
  "hmac_keyed md key ctx \<longleftrightarrow>
     hmac_md ctx = Some md \<and> md_ctx_ok (md_ctx ctx) \<and> digest (md_ctx ctx) = Some md \<and>
     md_holds md (fips_pad_key md 0x36 key) (i_ctx ctx) \<and> md_holds md (fips_pad_key md 0x5c key) (o_ctx ctx)"

definition hmac_holds :: "EVP_MD \<Rightarrow> bytes \<Rightarrow> bytes \<Rightarrow> HMAC_CTX \<Rightarrow> bool" where
  "hmac_holds md key m ctx \<longleftrightarrow>
     hmac_keyed md key ctx \<and> md_holds md (fips_pad_key md 0x36 key @ m) (md_ctx ctx)"

lemma hmac_ok_init [simp]: "hmac_ok HMAC_CTX_init"
  by (simp add: hmac_ok_def HMAC_CTX_init_def)

lemma hmac_holds_keyed: "hmac_holds md key m ctx \<Longrightarrow> hmac_keyed md key ctx"
  by (simp add: hmac_holds_def)

lemma hmac_keyed_ok: "hmac_keyed md key ctx \<Longrightarrow> hmac_ok ctx"
  by (auto simp: hmac_keyed_def hmac_ok_def intro: md_holds_ok)

lemma length_fips_K0: "length (fips_K0 md key) = EVP_MD_block_size md"
  using EVP_MD_size_le [of md] by (auto simp: fips_K0_def Let_def)

text \<open>The first bytes of the filled key block are the key of the standard.\<close>

lemma take_key_block:
  assumes "length kb = 128" "length k \<le> EVP_MD_block_size md"
    "k = (if length key \<le> EVP_MD_block_size md then key else fips_hash md key)"
  defines "kb' \<equiv> (if length k \<noteq> 128 then memset_at (memcpy_at kb 0 k) (length k) 0 (128 - length k)
     else memcpy_at kb 0 k)"
  shows "length kb' = 128" "take (EVP_MD_block_size md) kb' = fips_K0 md key"
proof -
  have kb': "kb' = k @ replicate (128 - length k) 0"
    using assms(1,2) EVP_MD_block_size_le [of md] by (simp add: kb'_def memset_at_def memcpy_at_def)
  then show "length kb' = 128"
    using assms(2) EVP_MD_block_size_le [of md] by simp
  show "take (EVP_MD_block_size md) kb' = fips_K0 md key"
    using assms(2) EVP_MD_block_size_le [of md]
    by (simp add: kb' fips_K0_def Let_def assms(3) [symmetric] min_def)
qed

lemma take_pad:
  assumes "length kb = 128" "take (EVP_MD_block_size md) kb = fips_K0 md key"
  shows "take (EVP_MD_block_size md) (map (\<lambda>i. c XOR kb ! i) [0..<128]) = fips_pad_key md c key"
proof (rule nth_equalityI)
  have len: "EVP_MD_block_size md \<le> 128" "length (fips_K0 md key) = EVP_MD_block_size md"
    by (simp_all add: EVP_MD_block_size_le length_fips_K0)
  then show "length (take (EVP_MD_block_size md) (map (\<lambda>i. c XOR kb ! i) [0..<128])) = length (fips_pad_key md c key)"
    by (simp add: fips_pad_key_def)
  fix i
  assume "i < length (take (EVP_MD_block_size md) (map (\<lambda>i. c XOR kb ! i) [0..<128]))"
  then have i: "i < EVP_MD_block_size md" by simp
  then have "kb ! i = fips_K0 md key ! i"
    using assms(2) by (metis nth_take)
  then show "take (EVP_MD_block_size md) (map (\<lambda>i. c XOR kb ! i) [0..<128]) ! i = fips_pad_key md c key ! i"
    using i len by (simp add: fips_pad_key_def xor.commute)
qed

section \<open>Setting the key\<close>

lemma HMAC_key_block_cases:
  assumes "md_ctx_ok c" "length kb = 128"
  obtains kb' c' h' where "HMAC_key_block h c md key kb = Some (1, kb', c', h')" "length kb' = 128"
      "take (EVP_MD_block_size md) kb' = fips_K0 md key" "md_ctx_ok c'" "set h' \<subseteq> set h"
  | c' h' where "HMAC_key_block h c md key kb = Some (0, kb, c', h')" "md_ctx_ok c'" "False \<in> set h"
proof (cases "EVP_MD_block_size md < length key")
  case False
  then show thesis
    using take_key_block [of kb key md key] assms
    by (intro that(1)) (auto simp: HMAC_key_block_def Let_def)
next
  case True
  show thesis
  proof (cases rule: EVP_DigestInit_ex_holds [OF assms(1), of h md])
    case (1 c1 h1)
    obtain c2 where c2: "EVP_DigestUpdate c1 key = Some (1, c2)" "md_holds md key c2"
      using EVP_DigestUpdate_holds [OF 1(2), of key] by auto
    obtain c3 where "EVP_DigestFinal_ex c2 = Some (1, fips_hash md key, EVP_MD_size md, c3)" "md_ctx_ok c3"
      using EVP_DigestFinal_ex_hash [OF c2(2)] by auto
    then show thesis
      using take_key_block [of kb "fips_hash md key" md key] assms(2) True 1 c2 EVP_MD_size_le [of md]
      by (intro that(1)) (auto simp: HMAC_key_block_def Let_def)
  next
    case (2 h1)
    then show thesis
      using True assms(1) by (intro that(2)) (auto simp: HMAC_key_block_def)
  qed
qed

lemma HMAC_pad_ctx_cases:
  assumes "md_ctx_ok c" "length kb = 128" "take (EVP_MD_block_size md) kb = fips_K0 md key"
  obtains c' h' where "HMAC_pad_ctx h c md x kb = Some (1, c', h')" "md_holds md (fips_pad_key md x key) c'"
      "set h' \<subseteq> set h"
  | c' h' where "HMAC_pad_ctx h c md x kb = Some (0, c', h')" "md_ctx_ok c'" "False \<in> set h"
proof (cases rule: EVP_DigestInit_ex_holds [OF assms(1), of h md])
  case (1 c1 h1)
  obtain c2 where "EVP_DigestUpdate c1 (fips_pad_key md x key) = Some (1, c2)" "md_holds md (fips_pad_key md x key) c2"
    using EVP_DigestUpdate_holds [OF 1(2), of "fips_pad_key md x key"] by auto
  then show thesis
    using 1 by (intro that(1)) (auto simp: HMAC_pad_ctx_def Let_def take_pad [OF assms(2,3)])
next
  case (2 h1)
  then show thesis
    using assms(1) by (intro that(2)) (auto simp: HMAC_pad_ctx_def)
qed

text \<open>
  Every outcome of setting a key: the context is keyed, or an allocation failed and the context is
  still well formed.
\<close>

lemma HMAC_rekey_cases:
  assumes "hmac_ok ctx" "length kb = 128"
  obtains ctx' h' where "HMAC_rekey h ctx key md kb = Some (1, ctx', h')" "hmac_md ctx' = Some md"
      "md_ctx_ok (md_ctx ctx')" "md_holds md (fips_pad_key md 0x36 key) (i_ctx ctx')"
      "md_holds md (fips_pad_key md 0x5c key) (o_ctx ctx')" "set h' \<subseteq> set h"
  | ctx' h' where "HMAC_rekey h ctx key md kb = Some (0, ctx', h')" "hmac_ok ctx'" "False \<in> set h"
proof -
  have ok: "md_ctx_ok (md_ctx ctx)" "md_ctx_ok (i_ctx ctx)" "md_ctx_ok (o_ctx ctx)"
    using assms(1) by (simp_all add: hmac_ok_def)
  show thesis
  proof (cases rule: HMAC_key_block_cases [OF ok(1) assms(2), of h md key])
    case (2 c h1)
    then show thesis
      using ok by (intro that(2) [of "ctx\<lparr>md_ctx := c\<rparr>"]) (auto simp: HMAC_rekey_def hmac_ok_def)
  next
    case kb: (1 kb' c h1)
    show thesis
    proof (cases rule: HMAC_pad_ctx_cases [OF ok(2) kb(2,3), of h1 "0x36"])
      case (2 ci h2)
      then show thesis
        using kb ok by (intro that(2) [of "ctx\<lparr>md_ctx := c, i_ctx := ci\<rparr>"]) (auto simp: HMAC_rekey_def hmac_ok_def)
    next
      case i: (1 ci h2)
      show thesis
      proof (cases rule: HMAC_pad_ctx_cases [OF ok(3) kb(2,3), of h2 "0x5c"])
        case (2 co h3)
        then show thesis
          using kb i by (intro that(2) [of "ctx\<lparr>md_ctx := c, i_ctx := ci, o_ctx := co\<rparr>"])
            (auto simp: HMAC_rekey_def hmac_ok_def md_holds_ok)
      next
        case (1 co h3)
        then show thesis
          using kb i by (intro that(1) [of "ctx\<lparr>md_ctx := c, i_ctx := ci, o_ctx := co, hmac_md := Some md\<rparr>" h3])
            (auto simp: HMAC_rekey_def)
      qed
    qed
  qed
qed

lemma HMAC_Init_ex_cases:
  assumes "hmac_ok ctx"
  obtains ctx' h' where "HMAC_Init_ex h ctx (Some key) (Some md) = Some (1, ctx', h')"
      "hmac_holds md key [] ctx'" "set h' \<subseteq> set h"
  | ctx' h' where "HMAC_Init_ex h ctx (Some key) (Some md) = Some (0, ctx', h')" "hmac_ok ctx'" "False \<in> set h"
proof (cases rule: HMAC_rekey_cases [OF assms length_replicate [of 128 0], of h key md])
  case keyed: (1 ctx1 h1)
  show thesis
  proof (cases rule: EVP_MD_CTX_copy_ex_holds [OF keyed(3,4), of h1])
    case (1 c h2)
    moreover have "digest c = Some md" "md_ctx_ok c"
      using 1(2) md_holds_ok by (auto simp: md_holds_def)
    ultimately show thesis
      using keyed by (intro that(1) [of "ctx1\<lparr>md_ctx := c\<rparr>" h2])
        (auto simp: HMAC_Init_ex_def HMAC_rewind_def hmac_holds_def hmac_keyed_def)
  next
    case (2 h2)
    then show thesis
      using keyed by (intro that(2) [of "ctx1" h2]) (auto simp: HMAC_Init_ex_def HMAC_rewind_def hmac_ok_def md_holds_ok)
  qed
next
  case (2 ctx1 h1)
  then show thesis
    by (intro that(2)) (auto simp: HMAC_Init_ex_def)
qed

section \<open>Rewinding, updating and finishing\<close>

text \<open>A keyed context can be rewound without an allocation.\<close>

lemma HMAC_Init_ex_rewinds:
  assumes "hmac_keyed md key ctx"
  obtains ctx' where "HMAC_Init_ex h ctx None None = Some (1, ctx', h)" "hmac_holds md key [] ctx'"
proof -
  note keyed = assms [unfolded hmac_keyed_def]
  have ok: "md_ctx_ok (md_ctx ctx)" and i: "md_holds md (fips_pad_key md 0x36 key) (i_ctx ctx)"
    using keyed by simp_all
  show thesis
  proof (cases rule: EVP_MD_CTX_copy_ex_holds [OF ok i, of h])
    case (1 c h2)
    then have "digest c = Some md" "md_ctx_ok c" "h2 = h"
      using keyed md_holds_ok by (auto simp: md_holds_def)
    with 1 keyed show thesis
      by (intro that) (auto simp: HMAC_Init_ex_def HMAC_rewind_def hmac_holds_def hmac_keyed_def)
  next
    case (2 h2)
    with keyed show thesis by simp
  qed
qed

lemma HMAC_Update_holds:
  assumes "hmac_holds md key m ctx"
  obtains ctx' where "HMAC_Update ctx d = Some (1, ctx')" "hmac_holds md key (m @ d) ctx'"
proof -
  have "md_holds md (fips_pad_key md 0x36 key @ m) (md_ctx ctx)"
    using assms by (simp add: hmac_holds_def)
  then obtain c where c: "EVP_DigestUpdate (md_ctx ctx) d = Some (1, c)"
    "md_holds md ((fips_pad_key md 0x36 key @ m) @ d) c"
    by (rule EVP_DigestUpdate_holds)
  then have "digest c = Some md" "md_ctx_ok c"
    using md_holds_ok by (auto simp: md_holds_def)
  with c assms show thesis
    by (intro that) (auto simp: HMAC_Update_def hmac_holds_def hmac_keyed_def)
qed

lemma HMAC_Final_hmac:
  assumes "hmac_holds md key m ctx"
  obtains ctx' where "HMAC_Final h b ctx = Some (1, fips_hmac md key m, EVP_MD_size md, ctx', h)"
    "hmac_keyed md key ctx'"
proof -
  note holds = assms [unfolded hmac_holds_def hmac_keyed_def]
  obtain c1 where c1: "EVP_DigestFinal_ex (md_ctx ctx) =
      Some (1, fips_hash md (fips_pad_key md 0x36 key @ m), EVP_MD_size md, c1)" "md_ctx_ok c1" "digest c1 = Some md"
    using EVP_DigestFinal_ex_hash holds by blast
  have o: "md_holds md (fips_pad_key md 0x5c key) (o_ctx ctx)"
    using holds by simp
  obtain c2 where c2: "EVP_MD_CTX_copy_ex h c1 (o_ctx ctx) = Some (1, c2, h)" "md_holds md (fips_pad_key md 0x5c key) c2"
    by (rule EVP_MD_CTX_copy_ex_holds [OF c1(2) o, of h]) (use c1(3) in auto)
  obtain c3 where c3: "EVP_DigestUpdate c2 (fips_hash md (fips_pad_key md 0x36 key @ m)) = Some (1, c3)"
    "md_holds md (fips_pad_key md 0x5c key @ fips_hash md (fips_pad_key md 0x36 key @ m)) c3"
    by (rule EVP_DigestUpdate_holds [OF c2(2)])
  obtain c4 where c4: "EVP_DigestFinal_ex c3 = Some (1, fips_hmac md key m, EVP_MD_size md, c4)"
    "md_ctx_ok c4" "digest c4 = Some md"
    using EVP_DigestFinal_ex_hash [OF c3(2)] by (auto simp: fips_hmac_def)
  show thesis
    by (rule that [of "ctx\<lparr>md_ctx := c4\<rparr>"])
      (use c1 c2 c3 c4 holds in \<open>auto simp: HMAC_Final_def hmac_keyed_def\<close>)
qed

interpretation hmac: streaming_hash "hmac_holds md key" "\<lambda>ctx d. snd (the (HMAC_Update ctx d))"
  "\<lambda>ctx. fst (snd (the (HMAC_Final [] False ctx)))" "fips_hmac md key" for md key
proof
  fix m d ctx
  assume ctx: "hmac_holds md key m ctx"
  show "hmac_holds md key (m @ d) (snd (the (HMAC_Update ctx d)))"
    by (rule HMAC_Update_holds [OF ctx, of d]) simp
  show "fst (snd (the (HMAC_Final [] False ctx))) = fips_hmac md key m"
    by (rule HMAC_Final_hmac [OF ctx, of "[]" False]) simp
qed

text \<open>The one-shot function, with what it leaves of the allocator's answers.\<close>

lemma HMAC_cases:
  obtains h' where "HMAC h md (Some key) data b = Some (Some (fips_hmac md key data), h')" "set h' \<subseteq> set h"
  | h' where "HMAC h md (Some key) data b = Some (None, h')" "False \<in> set h"
proof (cases rule: HMAC_Init_ex_cases [OF hmac_ok_init, of h key md])
  case (1 c h')
  obtain c1 where c1: "HMAC_Update c data = Some (1, c1)" "hmac_holds md key ([] @ data) c1"
    by (rule HMAC_Update_holds [OF 1(2)])
  obtain c2 where "HMAC_Final h' b c1 = Some (1, fips_hmac md key ([] @ data), EVP_MD_size md, c2, h')"
    by (rule HMAC_Final_hmac [OF c1(2)])
  then show thesis
    using 1(1,3) c1(1) by (intro that(1)) (auto simp: HMAC_def)
next
  case (2 c h')
  then show thesis
    by (intro that(2)) (auto simp: HMAC_def)
qed

section \<open>Properties\<close>


text \<open>
  C12: once a key is set, a context can be used for one message after another by
  \<open>HMAC_Init_ex\<close> without key and digest: rewinding needs no allocation, cannot fail, and every message
  gets its own HMAC under the same key, however it is cut into pieces.
\<close>

theorem HMAC_rewind_reuses_key:
  assumes "hmac_holds md key m ctx"
  shows "\<exists>c1 c2. HMAC_Final h b ctx = Some (1, fips_hmac md key m, EVP_MD_size md, c1, h) \<and>
    HMAC_Init_ex h c1 None None = Some (1, c2, h) \<and>
    fst (snd (the (HMAC_Final [] False (foldl (\<lambda>c d. snd (the (HMAC_Update c d))) c2 pieces)))) =
      fips_hmac md key (concat pieces)"
proof -
  obtain c1 where c1: "HMAC_Final h b ctx = Some (1, fips_hmac md key m, EVP_MD_size md, c1, h)" "hmac_keyed md key c1"
    by (rule HMAC_Final_hmac [OF assms])
  obtain c2 where c2: "HMAC_Init_ex h c1 None None = Some (1, c2, h)" "hmac_holds md key [] c2"
    by (rule HMAC_Init_ex_rewinds [OF c1(2)])
  show ?thesis
    using c1(1) c2(1) hmac.final_updates [OF c2(2), of pieces] by auto
qed

theorem HMAC_rewind_reuses_key_witness:
  "\<exists>ctx c1 c2. HMAC_Init_ex [] HMAC_CTX_init (Some (replicate 200 1)) (Some EVP_sha512) = Some (1, ctx, []) \<and>
    HMAC_Final [] False ctx = Some (1, fips_hmac EVP_sha512 (replicate 200 1) [], 64, c1, []) \<and>
    HMAC_Init_ex [] c1 None None = Some (1, c2, [])"
proof (cases rule: HMAC_Init_ex_cases [OF hmac_ok_init, of "[]" "replicate 200 1" EVP_sha512])
  case (1 ctx h')
  from HMAC_rewind_reuses_key [OF 1(2), of "[]" False "[]"] show ?thesis
    using 1(1,3) by auto
qed simp

end
