(* ===== verification/PBKDF2.thy ===== *)
theory PBKDF2
  imports HMAC
begin

text \<open>
  \<open>crypto/evp/pbkdf.c\<close>: PBKDF2 with HMAC. One HMAC context is keyed with the password and rewound
  for every application of the pseudo-random function. The abstract side is RFC 8018, section 5.2.
\<close>

section \<open>The code\<close>

definition pbkdf2_i_buf :: "u32 \<Rightarrow> bytes" where
  "pbkdf2_i_buf i = [ucast (drop_bit 24 i AND 0xff), ucast (drop_bit 16 i AND 0xff),
     ucast (drop_bit 8 i AND 0xff), ucast (i AND 0xff)]"

text \<open>
  The loop \<open>for (unsigned j = 1; j < iterations; j++)\<close> with \<open>n\<close> rounds to go. \<open>digest_tmp\<close> is the
  buffer for the previous \<open>U\<close>, \<open>out\<close> is the memory from \<open>out_key\<close> on. The status 0 stands for the
  jump to \<open>err\<close>.
\<close>

fun pbkdf2_iterate ::
  "heap \<Rightarrow> HMAC_CTX \<Rightarrow> nat \<Rightarrow> nat \<Rightarrow> nat \<Rightarrow> bytes \<Rightarrow> bytes \<Rightarrow> (int \<times> HMAC_CTX \<times> bytes \<times> heap) option" where
  "pbkdf2_iterate h hctx md_len todo 0 digest_tmp out = Some (1, hctx, out, h)"
| "pbkdf2_iterate h hctx md_len todo (Suc n) digest_tmp out = do {
     (ret, hctx, h) \<leftarrow> HMAC_Init_ex h hctx None None;
     if ret = 0 then Some (0, hctx, out, h)
     else do {
       (ret, hctx) \<leftarrow> HMAC_Update hctx (take md_len digest_tmp);
       if ret = 0 then Some (0, hctx, out, h)
       else do {
         (ret, md, _, hctx, h) \<leftarrow> HMAC_Final h False hctx;
         if ret = 0 then Some (0, hctx, out, h)
         else do {
           let digest_tmp = memcpy_at digest_tmp 0 md;
           let out = map (\<lambda>k. if k < todo then out ! k XOR digest_tmp ! k else out ! k) [0..<length out];
           pbkdf2_iterate h hctx md_len todo n digest_tmp out
         }
       }
     }
   }"

text \<open>One iteration of \<open>while (key_len > 0)\<close>: the block with the counter \<open>i\<close>.\<close>

definition pbkdf2_block ::
  "heap \<Rightarrow> HMAC_CTX \<Rightarrow> bytes \<Rightarrow> nat \<Rightarrow> nat \<Rightarrow> nat \<Rightarrow> u32 \<Rightarrow> bytes \<Rightarrow> (int \<times> HMAC_CTX \<times> bytes \<times> heap) option" where
  "pbkdf2_block h hctx salt iterations md_len todo i out = do {
     let i_buf = pbkdf2_i_buf i;
     (ret, hctx, h) \<leftarrow> HMAC_Init_ex h hctx None None;
     if ret = 0 then Some (0, hctx, out, h)
     else do {
       (ret, hctx) \<leftarrow> HMAC_Update hctx salt;
       if ret = 0 then Some (0, hctx, out, h)
       else do {
         (ret, hctx) \<leftarrow> HMAC_Update hctx i_buf;
         if ret = 0 then Some (0, hctx, out, h)
         else do {
           (ret, md, _, hctx, h) \<leftarrow> HMAC_Final h False hctx;
           if ret = 0 then Some (0, hctx, out, h)
           else do {
             let digest_tmp = memcpy_at (replicate 64 0) 0 md;
             let out = memcpy_at out 0 (take todo digest_tmp);
             pbkdf2_iterate h hctx md_len todo (iterations - 1) digest_tmp out
           }
         }
       }
     }
   }"

text \<open>
  The loop. \<open>out\<close> is the memory from the advancing pointer \<open>out_key\<close> on; \<open>i\<close> is a \<open>uint32_t\<close>. The loop
  ends because a digest has at least one byte.
\<close>

function pbkdf2_loop ::
  "heap \<Rightarrow> HMAC_CTX \<Rightarrow> EVP_MD \<Rightarrow> bytes \<Rightarrow> nat \<Rightarrow> u32 \<Rightarrow> nat \<Rightarrow> bytes \<Rightarrow> (int \<times> HMAC_CTX \<times> bytes \<times> heap) option" where
  "pbkdf2_loop h hctx md salt iterations i key_len out =
     (if key_len = 0 then Some (1, hctx, out, h)
      else do {
        let md_len = EVP_MD_size md;
        let todo = (if key_len < md_len then key_len else md_len);
        (ret, hctx, out, h) \<leftarrow> pbkdf2_block h hctx salt iterations md_len todo i out;
        if ret = 0 then Some (0, hctx, out, h)
        else do {
          (ret, hctx, rest, h) \<leftarrow>
            pbkdf2_loop h hctx md salt iterations (i + 1) (key_len - todo) (drop todo out);
          Some (ret, hctx, take todo out @ rest, h)
        }
      })"
  by pat_completeness auto

termination
  by (relation "measure (\<lambda>(h, hctx, md, salt, iterations, i, key_len, out). key_len)") auto

text \<open>
  The whole function: the status and the contents of the output buffer. An iteration count of 0 gives
  the status 0 after the key was derived as for 1.
\<close>

definition PKCS5_PBKDF2_HMAC ::
  "heap \<Rightarrow> bytes \<Rightarrow> bytes \<Rightarrow> nat \<Rightarrow> EVP_MD \<Rightarrow> nat \<Rightarrow> bytes \<Rightarrow> (int \<times> bytes \<times> heap) option" where
  "PKCS5_PBKDF2_HMAC h password salt iterations md key_len out_key = do {
     (ret, hctx, h) \<leftarrow> HMAC_Init_ex h HMAC_CTX_init (Some password) (Some md);
     if ret = 0 then Some (0, out_key, h)
     else do {
       (ret, hctx, out_key, h) \<leftarrow> pbkdf2_loop h hctx md salt iterations 1 key_len out_key;
       if ret = 0 then Some (0, out_key, h)
       else if iterations = 0 then Some (0, out_key, h)
       else Some (1, out_key, h)
     }
   }"

section \<open>RFC 8018\<close>

text \<open>
  The pseudo-random function is HMAC. \<open>rfc_U md P s n\<close> is the value the RFC calls \<open>U\<close> with the index
  \<open>n + 1\<close>, where \<open>s\<close> is the salt with the block index; the block \<open>F\<close> is the exclusive or of the
  first \<open>c\<close> of them, and the key is the concatenation of the blocks, cut to its length.
\<close>

fun rfc_U :: "EVP_MD \<Rightarrow> bytes \<Rightarrow> bytes \<Rightarrow> nat \<Rightarrow> bytes" where
  "rfc_U md P s 0 = fips_hmac md P s"
| "rfc_U md P s (Suc n) = fips_hmac md P (rfc_U md P s n)"

definition rfc_F :: "EVP_MD \<Rightarrow> bytes \<Rightarrow> bytes \<Rightarrow> nat \<Rightarrow> nat \<Rightarrow> bytes" where
  "rfc_F md P S c i =
     (let s = S @ be_of_nat 4 i
      in foldl xor_bytes (rfc_U md P s 0) (map (rfc_U md P s) [1..<c]))"

definition rfc_pbkdf2 :: "EVP_MD \<Rightarrow> bytes \<Rightarrow> bytes \<Rightarrow> nat \<Rightarrow> nat \<Rightarrow> bytes" where
  "rfc_pbkdf2 md P S c dkLen =
     (let hLen = EVP_MD_size md;
          l = (dkLen + hLen - 1) div hLen
      in take dkLen (concat (map (rfc_F md P S c) [1..<l + 1])))"

section \<open>The pieces\<close>

lemma pbkdf2_i_buf_eq: "pbkdf2_i_buf (word_of_nat n) = be_of_nat 4 n"
proof -
  have "pbkdf2_i_buf (word_of_nat n) = HOST_l2c (word_of_nat n)"
    by (simp add: pbkdf2_i_buf_def HOST_l2c_def)
  then show ?thesis
    unfolding HOST_l2c_eq by (simp add: be_of_word_of_nat)
qed

lemma length_rfc_U [simp]: "length (rfc_U md P s n) = EVP_MD_size md"
  by (cases n) simp_all

lemma length_foldl_xor: "\<forall>y\<in>set ys. length y = length x \<Longrightarrow> length (foldl xor_bytes x ys) = length x"
  by (induction ys arbitrary: x) simp_all

lemma length_rfc_F [simp]: "length (rfc_F md P S c i) = EVP_MD_size md"
  unfolding rfc_F_def Let_def by (subst length_foldl_xor) simp_all

lemma take_xor_bytes: "take n (xor_bytes xs ys) = xor_bytes (take n xs) (take n ys)"
  by (simp add: xor_bytes_def take_map take_zip)

text \<open>The exclusive or of a prefix in place.\<close>

lemma xor_prefix:
  assumes "todo \<le> length out" "todo \<le> length d"
  shows "map (\<lambda>k. if k < todo then out ! k XOR d ! k else out ! k) [0..<length out] =
    xor_bytes (take todo out) (take todo d) @ drop todo out"
  using assms by (intro nth_equalityI) (auto simp: nth_append)

lemma pbkdf2_iterate_spec:
  assumes "hmac_keyed md P hctx" "take (EVP_MD_size md) dt = rfc_U md P s j" "length dt = 64"
    "todo \<le> EVP_MD_size md" "todo \<le> length out" "length x = EVP_MD_size md" "take todo out = take todo x"
  shows "\<exists>hctx'. hmac_keyed md P hctx' \<and>
    pbkdf2_iterate h hctx (EVP_MD_size md) todo n dt out =
      Some (1, hctx', take todo (foldl xor_bytes x (map (rfc_U md P s) [Suc j..<Suc j + n])) @ drop todo out, h)"
  using assms
proof (induction n arbitrary: hctx dt out x j)
  case 0
  then show ?case
    by (auto simp del: rfc_U.simps) (metis append_take_drop_id)
next
  case (Suc n)
  let ?U = "rfc_U md P s"
  obtain h1 where h1: "HMAC_Init_ex h hctx None None = Some (1, h1, h)" "hmac_holds md P [] h1"
    by (rule HMAC_Init_ex_rewinds [OF Suc.prems(1)])
  obtain h2 where h2: "HMAC_Update h1 (?U j) = Some (1, h2)" "hmac_holds md P ([] @ ?U j) h2"
    by (rule HMAC_Update_holds [OF h1(2)])
  obtain h3 where h3: "HMAC_Final h False h2 = Some (1, ?U (Suc j), EVP_MD_size md, h3, h)" "hmac_keyed md P h3"
    by (rule HMAC_Final_hmac [OF h2(2), of h False]) simp
  define dt' where "dt' = memcpy_at dt 0 (?U (Suc j))"
  define out' where "out' = xor_bytes (take todo out) (take todo (?U (Suc j))) @ drop todo out"
  define x' where "x' = xor_bytes x (?U (Suc j))"
  note le = EVP_MD_size_le(1) [of md]
  have dt': "take (EVP_MD_size md) dt' = ?U (Suc j)" "length dt' = 64"
    using Suc.prems(3) le by (simp_all add: dt'_def memcpy_at_def del: rfc_U.simps)
  then have "take todo dt' = take todo (?U (Suc j))"
    using Suc.prems(4) by (metis min_absorb1 take_take)
  then have out: "map (\<lambda>k. if k < todo then out ! k XOR dt' ! k else out ! k) [0..<length out] = out'"
    unfolding out'_def using Suc.prems(4,5) dt'(2) le by (subst xor_prefix) auto
  have len: "todo \<le> length out'" "length x' = EVP_MD_size md" "drop todo out' = drop todo out"
    using Suc.prems by (simp_all add: out'_def x'_def del: rfc_U.simps)
  have tk: "take todo out' = take todo x'"
    using Suc.prems(4-7) by (simp add: out'_def x'_def take_xor_bytes del: rfc_U.simps)
  have step: "pbkdf2_iterate h hctx (EVP_MD_size md) todo (Suc n) dt out =
      pbkdf2_iterate h h3 (EVP_MD_size md) todo n dt' out'"
    using h1 h2 h3 Suc.prems(2) by (simp add: out [unfolded dt'_def] dt'_def del: rfc_U.simps)
  have "[Suc j..<Suc j + Suc n] = Suc j # [Suc (Suc j)..<Suc (Suc j) + n]"
    by (simp add: upt_conv_Cons)
  then show ?case
    using Suc.IH [OF h3(2) dt' Suc.prems(4) len(1,2) tk]
    by (simp add: step len(3) x'_def del: rfc_U.simps pbkdf2_iterate.simps)
qed

lemma pbkdf2_block_spec:
  assumes "hmac_keyed md P hctx" "todo \<le> EVP_MD_size md" "todo \<le> length out"
  shows "\<exists>hctx'. hmac_keyed md P hctx' \<and>
    pbkdf2_block h hctx S c (EVP_MD_size md) todo (word_of_nat i) out =
      Some (1, hctx', take todo (rfc_F md P S (max 1 c) i) @ drop todo out, h)"
proof -
  let ?s = "S @ be_of_nat 4 i"
  let ?U = "rfc_U md P ?s"
  obtain h1 where h1: "HMAC_Init_ex h hctx None None = Some (1, h1, h)" "hmac_holds md P [] h1"
    by (rule HMAC_Init_ex_rewinds [OF assms(1)])
  obtain h2 where h2: "HMAC_Update h1 S = Some (1, h2)" "hmac_holds md P ([] @ S) h2"
    by (rule HMAC_Update_holds [OF h1(2)])
  obtain h3 where h3: "HMAC_Update h2 (be_of_nat 4 i) = Some (1, h3)" "hmac_holds md P (([] @ S) @ be_of_nat 4 i) h3"
    by (rule HMAC_Update_holds [OF h2(2)])
  obtain h4 where h4: "HMAC_Final h False h3 = Some (1, ?U 0, EVP_MD_size md, h4, h)" "hmac_keyed md P h4"
    by (rule HMAC_Final_hmac [OF h3(2), of h False]) simp
  define dt where "dt = memcpy_at (replicate 64 0) 0 (?U 0)"
  define out' where "out' = memcpy_at out 0 (take todo dt)"
  note le = EVP_MD_size_le(1) [of md]
  have dt: "take (EVP_MD_size md) dt = ?U 0" "length dt = 64"
    using le by (simp_all add: dt_def memcpy_at_def del: rfc_U.simps)
  then have tk: "take todo dt = take todo (?U 0)"
    using assms(2) by (metis min_absorb1 take_take)
  have out': "todo \<le> length out'" "take todo out' = take todo (?U 0)" "drop todo out' = drop todo out"
    using assms(2,3) by (simp_all add: out'_def tk memcpy_at_def del: rfc_U.simps)
  have step: "pbkdf2_block h hctx S c (EVP_MD_size md) todo (word_of_nat i) out =
      pbkdf2_iterate h h4 (EVP_MD_size md) todo (c - 1) dt out'"
    unfolding pbkdf2_block_def pbkdf2_i_buf_eq
    using h1 h2 h3 h4 by (simp add: Let_def dt_def out'_def del: rfc_U.simps pbkdf2_iterate.simps)
  have "[1..<max 1 c] = [Suc 0..<Suc 0 + (c - 1)]"
    by (cases c) simp_all
  then have F: "rfc_F md P S (max 1 c) i = foldl xor_bytes (?U 0) (map ?U [Suc 0..<Suc 0 + (c - 1)])"
    by (simp only: rfc_F_def Let_def)
  show ?thesis
    using pbkdf2_iterate_spec [OF h4(2) dt assms(2) out'(1) length_rfc_U out'(2), of h "c - 1"]
    unfolding step F out'(3) .
qed

section \<open>The whole key\<close>

text \<open>The blocks from the index \<open>i\<close> on, cut to \<open>n\<close> bytes.\<close>

definition key_from :: "EVP_MD \<Rightarrow> (nat \<Rightarrow> bytes) \<Rightarrow> nat \<Rightarrow> nat \<Rightarrow> bytes" where
  "key_from md F i n =
     take n (concat (map F [i..<i + (n + EVP_MD_size md - 1) div EVP_MD_size md]))"

lemma key_from_step:
  assumes "0 < n" "\<And>i. length (F i) = EVP_MD_size md"
  defines "todo \<equiv> (if n < EVP_MD_size md then n else EVP_MD_size md)"
  shows "key_from md F i n = take todo (F i) @ key_from md F (Suc i) (n - todo)"
proof -
  let ?h = "EVP_MD_size md"
  let ?l = "\<lambda>n. (n + ?h - 1) div ?h"
  have h: "0 < ?h" by simp
  have l: "?l n = Suc (?l (n - todo))"
  proof (cases "n < ?h")
    case True
    then have "?l n = 1"
      using assms(1) by (simp add: le_div_geq)
    moreover have "?l 0 = 0"
      using h by simp
    ultimately show ?thesis
      using True by (simp add: todo_def)
  next
    case False
    then have "n + ?h - 1 = (n - 1) + ?h" "n - ?h + ?h - 1 = n - 1"
      using assms(1) by simp_all
    moreover have "((n - 1) + ?h) div ?h = Suc ((n - 1) div ?h)"
      using h by (simp add: div_add_self2)
    ultimately show ?thesis
      using False by (simp only: todo_def if_False)
  qed
  have "[i..<i + ?l n] = i # [Suc i..<Suc i + ?l (n - todo)]"
    unfolding l by (simp add: upt_conv_Cons)
  then have "key_from md F i n = take n (F i @ concat (map F [Suc i..<Suc i + ?l (n - todo)]))"
    by (simp only: key_from_def list.map concat.simps)
  then show ?thesis
    by (simp add: key_from_def assms(2) todo_def)
qed

lemma rfc_pbkdf2_key_from: "rfc_pbkdf2 md P S c n = key_from md (rfc_F md P S c) 1 n"
  by (simp add: rfc_pbkdf2_def key_from_def Let_def add.commute)

lemma length_key_from: "(\<And>i. length (F i) = EVP_MD_size md) \<Longrightarrow> length (key_from md F i n) = n"
proof (induction n arbitrary: i rule: less_induct)
  case (less n)
  show ?case
  proof (cases "n = 0")
    case False
    with less show ?thesis
      by (subst key_from_step) auto
  qed (simp add: key_from_def)
qed

lemma length_rfc_pbkdf2 [simp]: "length (rfc_pbkdf2 md P S c n) = n"
  by (simp add: rfc_pbkdf2_key_from length_key_from)

declare pbkdf2_loop.simps [simp del]

lemma pbkdf2_loop_spec:
  assumes "hmac_keyed md P hctx" "n \<le> length out"
  shows "\<exists>hctx'. pbkdf2_loop h hctx md S c (word_of_nat i) n out =
    Some (1, hctx', key_from md (rfc_F md P S (max 1 c)) i n @ drop n out, h)"
  using assms
proof (induction n arbitrary: i hctx out rule: less_induct)
  case (less n)
  let ?F = "rfc_F md P S (max 1 c)"
  show ?case
  proof (cases "n = 0")
    case True
    then show ?thesis
      by (subst pbkdf2_loop.simps) (simp add: key_from_def)
  next
    case False
    define todo where "todo = (if n < EVP_MD_size md then n else EVP_MD_size md)"
    have todo: "todo \<le> EVP_MD_size md" "todo \<le> n" "n - todo < n"
      using False by (simp_all add: todo_def)
    obtain h1 where h1: "hmac_keyed md P h1"
      "pbkdf2_block h hctx S c (EVP_MD_size md) todo (word_of_nat i) out = Some (1, h1, take todo (?F i) @ drop todo out, h)"
      using pbkdf2_block_spec [OF less.prems(1) todo(1), of out h S c i] todo(2) less.prems(2) by auto
    obtain h2 where h2: "pbkdf2_loop h h1 md S c (word_of_nat (Suc i)) (n - todo) (drop todo out) =
        Some (1, h2, key_from md ?F (Suc i) (n - todo) @ drop (n - todo) (drop todo out), h)"
    proof -
      have "n - todo \<le> length (drop todo out)"
        using less.prems(2) by simp
      from less.IH [OF todo(3) h1(1) this, of "Suc i"] that show thesis by blast
    qed
    have "pbkdf2_loop h hctx md S c (word_of_nat i) n out =
        Some (1, h2, take todo (?F i) @ key_from md ?F (Suc i) (n - todo) @ drop n out, h)"
      using False h1 h2 todo less.prems(2)
      by (subst pbkdf2_loop.simps) (simp add: Let_def todo_def [symmetric] add.commute)
    then show ?thesis
      using False by (subst key_from_step) (simp_all add: todo_def [symmetric])
  qed
qed

lemma PKCS5_PBKDF2_HMAC_cases:
  assumes "key_len \<le> length out"
  obtains h' where "PKCS5_PBKDF2_HMAC h P S c md key_len out =
      Some (if c = 0 then 0 else 1, rfc_pbkdf2 md P S (max 1 c) key_len @ drop key_len out, h')" "set h' \<subseteq> set h"
  | h' where "PKCS5_PBKDF2_HMAC h P S c md key_len out = Some (0, out, h')" "False \<in> set h"
proof (cases rule: HMAC_Init_ex_cases [OF hmac_ok_init, of h P md])
  case (1 hctx h1)
  obtain h2 where "pbkdf2_loop h1 hctx md S c (word_of_nat 1) key_len out =
      Some (1, h2, key_from md (rfc_F md P S (max 1 c)) 1 key_len @ drop key_len out, h1)"
    using pbkdf2_loop_spec [OF hmac_holds_keyed [OF 1(2)] assms, of h1 S c 1] by blast
  then show thesis
    using 1(1,3) by (intro that(1)) (auto simp: PKCS5_PBKDF2_HMAC_def rfc_pbkdf2_key_from)
next
  case (2 ctx h1)
  then show thesis
    by (intro that(2)) (auto simp: PKCS5_PBKDF2_HMAC_def)
qed

section \<open>Properties\<close>

text \<open>
  C3: \<open>PKCS5_PBKDF2_HMAC\<close> always returns. Unless an allocation failed it fills the output with the
  key of RFC 8018 for the password, the salt, the count and the length asked for, leaving the bytes
  after it, and returns 1; for a count of 0 it returns 0 with the key for the count 1. When an
  allocation failed it may return 0 with the output untouched.
\<close>

theorem PBKDF2_is_RFC8018:
  assumes "key_len \<le> length out"
  shows "\<exists>h'. PKCS5_PBKDF2_HMAC h password salt iterations md key_len out =
      Some (if iterations = 0 then 0 else 1,
        rfc_pbkdf2 md password salt (max 1 iterations) key_len @ drop key_len out, h') \<or>
    PKCS5_PBKDF2_HMAC h password salt iterations md key_len out = Some (0, out, h') \<and> False \<in> set h"
  by (rule PKCS5_PBKDF2_HMAC_cases [OF assms, of h password salt iterations md]) blast+

theorem PBKDF2_is_RFC8018_witness:
  "\<exists>h'. PKCS5_PBKDF2_HMAC [True] [0x70] [0x73] 0 EVP_sha512 70 (replicate 72 5) =
    Some (0, rfc_pbkdf2 EVP_sha512 [0x70] [0x73] 1 70 @ [5, 5], h')"
  using PBKDF2_is_RFC8018 [of 70 "replicate 72 5" "[True]" "[0x70]" "[0x73]" 0 EVP_sha512]
  by (auto simp: drop_replicate numeral_eq_Suc)

end
