(* ===== verification/AES_CBC.thy ===== *)
theory AES_CBC
  imports Memory Block_Cipher AES_IGE
begin

text \<open>
  Cipher block chaining: \<open>crypto/fipsmodule/modes/cbc.c\<close> and its AES instance in
  \<open>crypto/fipsmodule/aes/mode_wrappers.c\<close>. The routines work on the flat memory of the theory
  \<open>Memory\<close>. Encryption keeps a pointer to the previous ciphertext block. Decryption has two loops,
  one for buffers that are the same or close together and one for the rest; the comparison of the
  pointers decides. A \<open>size_t\<close> has eight bytes here, so a block is two words.

  The abstract specification is the recursion over blocks \<open>cbc_enc_blocks\<close> and
  \<open>cbc_dec_blocks\<close>.
\<close>

section \<open>The mode on lists of blocks\<close>

fun cbc_enc_blocks :: "(bytes \<Rightarrow> bytes) \<Rightarrow> bytes \<Rightarrow> bytes list \<Rightarrow> bytes list" where
  "cbc_enc_blocks E iv [] = []"
| "cbc_enc_blocks E iv (p # ps) = (let c = E (xor_bytes p iv) in c # cbc_enc_blocks E c ps)"

fun cbc_dec_blocks :: "(bytes \<Rightarrow> bytes) \<Rightarrow> bytes \<Rightarrow> bytes list \<Rightarrow> bytes list" where
  "cbc_dec_blocks D iv [] = []"
| "cbc_dec_blocks D iv (c # cs) = xor_bytes (D c) iv # cbc_dec_blocks D c cs"

lemma length_cbc_blocks [simp]:
  "length (cbc_enc_blocks E iv ps) = length ps"
  "length (cbc_dec_blocks E iv ps) = length ps"
  by (induction ps arbitrary: iv) (simp_all add: Let_def)

lemma cbc_blocks_Nil_iff [simp]:
  "cbc_enc_blocks E iv ps = [] \<longleftrightarrow> ps = []" "cbc_dec_blocks E iv ps = [] \<longleftrightarrow> ps = []"
  by (cases ps; simp add: Let_def)+

lemma cbc_enc_blocks_all:
  assumes "\<And>b. length b = 16 \<Longrightarrow> length (E b) = 16" "all_blocks ps" "length iv = 16"
  shows "all_blocks (cbc_enc_blocks E iv ps)"
  using assms(2-3) by (induction ps arbitrary: iv) (simp_all add: Let_def assms(1))

lemma cbc_dec_blocks_all:
  assumes "\<And>b. length b = 16 \<Longrightarrow> length (D b) = 16" "all_blocks cs" "length iv = 16"
  shows "all_blocks (cbc_dec_blocks D iv cs)"
  using assms(2-3) by (induction cs arbitrary: iv) (simp_all add: assms(1))

lemma cbc_enc_blocks_cong:
  assumes "\<And>b. length b = 16 \<Longrightarrow> E b = E' b" "\<And>b. length b = 16 \<Longrightarrow> length (E b) = 16"
    "all_blocks ps" "length iv = 16"
  shows "cbc_enc_blocks E iv ps = cbc_enc_blocks E' iv ps"
  using assms(3,4)
proof (induction ps arbitrary: iv)
  case (Cons p ps)
  then have x: "length (xor_bytes p iv) = 16"
    by simp
  have "cbc_enc_blocks E (E (xor_bytes p iv)) ps = cbc_enc_blocks E' (E (xor_bytes p iv)) ps"
    using Cons.prems by (intro Cons.IH) (simp_all add: assms(2) x)
  then show ?case
    by (simp add: Let_def assms(1) [OF x, symmetric])
qed simp

lemma cbc_dec_blocks_cong:
  assumes "\<And>b. length b = 16 \<Longrightarrow> D b = D' b" "all_blocks cs"
  shows "cbc_dec_blocks D iv cs = cbc_dec_blocks D' iv cs"
  using assms(2) by (induction cs arbitrary: iv) (simp_all add: assms(1))

context block_cipher
begin

lemma cbc_dec_enc:
  assumes "valid k" "all_blocks ps" "length iv = 16"
  shows "cbc_dec_blocks (dec k) iv (cbc_enc_blocks (enc k) iv ps) = ps"
  using assms(2-3)
  by (induction ps arbitrary: iv) (simp_all add: Let_def dec_enc length_enc assms(1) xor_bytes_cancel)

end

section \<open>Encryption\<close>

text \<open>
  The loop \<open>for (n = 0; n < 16; n += sizeof(size_t))\<close> that stores the exclusive or of the words at
  \<open>a\<close> and \<open>b\<close> to \<open>dst\<close>.
\<close>

definition xor_words :: "mem \<Rightarrow> nat \<Rightarrow> nat \<Rightarrow> nat \<Rightarrow> mem" where
  "xor_words m dst a b =
     foldl (\<lambda>m n. store m (dst + n) (xor_bytes (load 8 m (a + n)) (load 8 m (b + n)))) m [0, 8]"

text \<open>
  The two \<open>while\<close> loops of \<open>CRYPTO_cbc128_encrypt\<close>. The state is the memory, the pointers \<open>in\<close>,
  \<open>out\<close> and \<open>iv\<close>, and the length that remains.
\<close>

fun cbc_enc_loop :: "(bytes \<Rightarrow> bytes) \<Rightarrow> mem \<Rightarrow> nat \<Rightarrow> nat \<Rightarrow> nat \<Rightarrow> nat \<Rightarrow> mem \<times> nat \<times> nat \<times> nat \<times> nat" where
  "cbc_enc_loop block m inp outp iv len =
     (if 16 \<le> len then
        let m = xor_words m outp inp iv;
            m = store m outp (block (load 16 m outp))
        in cbc_enc_loop block m (inp + 16) (outp + 16) outp (len - 16)
      else (m, inp, outp, iv, len))"

fun cbc_enc_tail :: "(bytes \<Rightarrow> bytes) \<Rightarrow> mem \<Rightarrow> nat \<Rightarrow> nat \<Rightarrow> nat \<Rightarrow> nat \<Rightarrow> mem \<times> nat" where
  "cbc_enc_tail block m inp outp iv len =
     (if len = 0 then (m, iv)
      else
        let m = foldl (\<lambda>m n. store m (outp + n) [m ! (inp + n) XOR m ! (iv + n)]) m [0..<min 16 len];
            m = foldl (\<lambda>m n. store m (outp + n) [m ! (iv + n)]) m [min 16 len..<16];
            m = store m outp (block (load 16 m outp))
        in if len \<le> 16 then (m, outp)
           else cbc_enc_tail block m (inp + 16) (outp + 16) outp (len - 16))"

declare cbc_enc_loop.simps [simp del] cbc_enc_tail.simps [simp del]

definition CRYPTO_cbc128_encrypt :: "mem \<Rightarrow> nat \<Rightarrow> nat \<Rightarrow> nat \<Rightarrow> nat \<Rightarrow> (bytes \<Rightarrow> bytes) \<Rightarrow> mem" where
  "CRYPTO_cbc128_encrypt m inp outp len ivec block =
     (let (m, inp, outp, iv, len) = cbc_enc_loop block m inp outp ivec len;
          (m, iv) = cbc_enc_tail block m inp outp iv len
      in store m ivec (load 16 m iv))"

section \<open>Decryption\<close>

text \<open>
  The loop for buffers that lie apart, or with the output at least two blocks behind the input:
  it deciphers straight into the output and keeps a pointer to the previous ciphertext block.
\<close>

fun cbc_dec_direct :: "(bytes \<Rightarrow> bytes) \<Rightarrow> mem \<Rightarrow> nat \<Rightarrow> nat \<Rightarrow> nat \<Rightarrow> nat \<Rightarrow> mem \<times> nat \<times> nat \<times> nat \<times> nat" where
  "cbc_dec_direct block m inp outp iv len =
     (if 16 \<le> len then
        let m = store m outp (block (load 16 m inp));
            m = xor_words m outp outp iv
        in cbc_dec_direct block m (inp + 16) (outp + 16) inp (len - 16)
      else (m, inp, outp, iv, len))"

text \<open>The loop through the temporary block \<open>tmp\<close>, which updates \<open>ivec\<close> word by word.\<close>

definition cbc_dec_words :: "mem \<Rightarrow> nat \<Rightarrow> nat \<Rightarrow> nat \<Rightarrow> bytes \<Rightarrow> mem" where
  "cbc_dec_words m inp outp ivec tmp =
     foldl (\<lambda>m n.
        let c = load 8 m (inp + n);
            m = store m (outp + n) (xor_bytes (take 8 (drop n tmp)) (load 8 m (ivec + n)))
        in store m (ivec + n) c) m [0, 8]"

fun cbc_dec_tmp :: "(bytes \<Rightarrow> bytes) \<Rightarrow> mem \<Rightarrow> nat \<Rightarrow> nat \<Rightarrow> nat \<Rightarrow> nat \<Rightarrow> mem \<times> nat \<times> nat \<times> nat" where
  "cbc_dec_tmp block m inp outp ivec len =
     (if 16 \<le> len then
        let tmp = block (load 16 m inp);
            m = cbc_dec_words m inp outp ivec tmp
        in cbc_dec_tmp block m (inp + 16) (outp + 16) ivec (len - 16)
      else (m, inp, outp, len))"

text \<open>The last \<open>while\<close> loop, for what is left of the length.\<close>

fun cbc_dec_tail :: "(bytes \<Rightarrow> bytes) \<Rightarrow> mem \<Rightarrow> nat \<Rightarrow> nat \<Rightarrow> nat \<Rightarrow> nat \<Rightarrow> mem" where
  "cbc_dec_tail block m inp outp ivec len =
     (if len = 0 then m
      else
        let tmp = block (load 16 m inp);
            m = foldl (\<lambda>m n.
                  let c = m ! (inp + n);
                      m = store m (outp + n) [tmp ! n XOR m ! (ivec + n)]
                  in store m (ivec + n) [c]) m [0..<min 16 len]
        in if len \<le> 16 then foldl (\<lambda>m n. store m (ivec + n) [m ! (inp + n)]) m [min 16 len..<16]
           else cbc_dec_tail block m (inp + 16) (outp + 16) ivec (len - 16))"

declare cbc_dec_direct.simps [simp del] cbc_dec_tmp.simps [simp del] cbc_dec_tail.simps [simp del]

definition CRYPTO_cbc128_decrypt :: "mem \<Rightarrow> nat \<Rightarrow> nat \<Rightarrow> nat \<Rightarrow> nat \<Rightarrow> (bytes \<Rightarrow> bytes) \<Rightarrow> mem" where
  "CRYPTO_cbc128_decrypt m inp outp len ivec block =
     (if (32 \<le> inp \<and> outp \<le> inp - 32) \<or> inp < outp then
        let (m, inp, outp, iv, len) = cbc_dec_direct block m inp outp ivec len;
            m = store m ivec (load 16 m iv)
        in cbc_dec_tail block m inp outp ivec len
      else
        let (m, inp, outp, len) = cbc_dec_tmp block m inp outp ivec len
        in cbc_dec_tail block m inp outp ivec len)"

section \<open>AES in this mode\<close>

text \<open>
  \<open>aes_hw_cbc_encrypt\<close> is assembly that the build generates: the argument \<open>hw\<close>. \<open>AES_NOHW_CBC\<close> is
  not defined for the targets of the application.
\<close>

type_synonym hw_cbc = "mem \<Rightarrow> nat \<Rightarrow> nat \<Rightarrow> nat \<Rightarrow> AES_KEY \<Rightarrow> nat \<Rightarrow> int \<Rightarrow> mem"

definition AES_cbc_encrypt ::
  "aes_backend \<Rightarrow> hw_cbc \<Rightarrow> mem \<Rightarrow> nat \<Rightarrow> nat \<Rightarrow> nat \<Rightarrow> AES_KEY \<Rightarrow> nat \<Rightarrow> int \<Rightarrow> mem" where
  "AES_cbc_encrypt be hw m inp outp len key ivec enc =
     (if hwaes_capable be then hw m inp outp len key ivec enc
      else if enc \<noteq> 0 then CRYPTO_cbc128_encrypt m inp outp len ivec (\<lambda>b. AES_encrypt be b key)
      else CRYPTO_cbc128_decrypt m inp outp len ivec (\<lambda>b. AES_decrypt be b key))"

definition AES_ecb_encrypt :: "aes_backend \<Rightarrow> bytes \<Rightarrow> AES_KEY \<Rightarrow> int \<Rightarrow> bytes" where
  "AES_ecb_encrypt be inp key enc =
     (if AES_ENCRYPT = enc then AES_encrypt be inp key else AES_decrypt be inp key)"

section \<open>The loops refine the mode\<close>

lemma xor_words_spec:
  assumes "dst + 16 \<le> length m" "a + 16 \<le> length m" "b + 16 \<le> length m"
    "dst \<le> a \<or> a + 16 \<le> dst" "dst \<le> b \<or> b + 16 \<le> dst"
  shows "xor_words m dst a b = store m dst (xor_bytes (load 16 m a) (load 16 m b))"
proof -
  let ?x = "xor_bytes (load 8 m a) (load 8 m b)"
  have "load 8 (store m dst ?x) (a + 8) = load 8 m (a + 8)"
    "load 8 (store m dst ?x) (b + 8) = load 8 m (b + 8)"
    using assms by (auto intro!: load_store_apart simp: apart_def)
  moreover have "xor_bytes (load 16 m a) (load 16 m b) = ?x @ xor_bytes (load 8 m (a + 8)) (load 8 m (b + 8))"
    using load_append [of 8 8 m a] load_append [of 8 8 m b] assms by (simp add: xor_bytes_append)
  ultimately show ?thesis
    using assms by (simp add: xor_words_def store_append)
qed

lemma cbc_dec_words_spec:
  assumes "outp + 16 \<le> length m" "inp + 16 \<le> length m" "ivec + 16 \<le> length m" "length tmp = 16"
    "outp \<le> inp \<or> inp + 16 \<le> outp" "apart outp 16 ivec 16" "apart inp 16 ivec 16"
  shows "cbc_dec_words m inp outp ivec tmp =
    store (store m outp (xor_bytes tmp (load 16 m ivec))) ivec (load 16 m inp)"
proof -
  let ?x = "xor_bytes (take 8 tmp) (load 8 m ivec)" and ?c = "load 8 m inp"
  let ?y = "xor_bytes (drop 8 tmp) (load 8 m (ivec + 8))" and ?d = "load 8 m (inp + 8)"
  let ?m = "store (store m outp ?x) ivec ?c"
  have len: "length ?x = 8" "length ?y = 8" "length ?c = 8" "length ?d = 8"
    using assms by simp_all
  have d: "load 8 ?m (inp + 8) = ?d"
    using assms len by (subst load_store_apart; (subst load_store_apart)?; force simp: apart_def)
  have iv: "load 8 ?m (ivec + 8) = load 8 m (ivec + 8)"
    using assms len by (subst load_store_apart; (subst load_store_apart)?; force simp: apart_def)
  have swap: "store ?m (outp + 8) ?y = store (store (store m outp ?x) (outp + 8) ?y) ivec ?c"
    using assms len by (intro store_commute) (auto simp: apart_def)
  have cat: "xor_bytes tmp (load 16 m ivec) = ?x @ ?y" "load 16 m inp = ?c @ ?d"
    using load_append [of 8 8 m ivec] load_append [of 8 8 m inp] assms
      xor_bytes_append [of "take 8 tmp" "load 8 m ivec" "drop 8 tmp"] by simp_all
  have "cbc_dec_words m inp outp ivec tmp = store (store ?m (outp + 8) ?y) (ivec + 8) ?d"
    using assms by (simp add: cbc_dec_words_def Let_def d iv)
  also have "\<dots> = store (store (store m outp (?x @ ?y)) ivec ?c) (ivec + 8) ?d"
    unfolding swap using assms len by (simp add: store_append)
  also have "\<dots> = store (store m outp (?x @ ?y)) ivec (?c @ ?d)"
    using assms len by (intro store_append) auto
  finally show ?thesis
    by (simp only: cat)
qed

lemma cbc_enc_loop_spec:
  assumes "\<And>b. length b = 16 \<Longrightarrow> length (E b) = 16"
    "inp + 16 * n \<le> length m" "outp + 16 * n \<le> length m" "iv + 16 \<le> length m"
    "inp = outp \<or> apart inp (16 * n) outp (16 * n)" "iv + 16 \<le> outp \<or> outp + 16 * n \<le> iv"
  shows "cbc_enc_loop E m inp outp iv (16 * n) =
    (store m outp (concat (cbc_enc_blocks E (load 16 m iv) (blocks m inp n))),
     inp + 16 * n, outp + 16 * n, if n = 0 then iv else outp + 16 * (n - 1), 0)"
  using assms(2-6)
proof (induction n arbitrary: m inp outp iv)
  case (Suc n)
  let ?p = "load 16 m inp" and ?iv = "load 16 m iv"
  let ?c = "E (xor_bytes ?p ?iv)"
  let ?m = "store m outp ?c"
  have len: "length ?p = 16" "length ?iv = 16" "length ?c = 16"
    using Suc.prems by (simp_all add: assms(1))
  have xor: "xor_words m outp inp iv = store m outp (xor_bytes ?p ?iv)"
    using Suc.prems by (intro xor_words_spec) (auto simp: apart_def)
  have step: "cbc_enc_loop E m inp outp iv (16 * Suc n) =
      cbc_enc_loop E ?m (inp + 16) (outp + 16) outp (16 * n)"
    using Suc.prems len
    by (subst cbc_enc_loop.simps) (simp add: xor Let_def load_store_same store_store_same)
  have same: "blocks ?m (inp + 16) n = blocks m (inp + 16) n" "load 16 ?m outp = ?c"
    using Suc.prems len
    by (auto intro!: blocks_store_apart load_store_same simp: apart_def)
  have "all_blocks (cbc_enc_blocks E ?c (blocks m (inp + 16) n))"
    using len Suc.prems by (intro cbc_enc_blocks_all) (auto simp: assms(1))
  then have cs: "length (concat (cbc_enc_blocks E ?c (blocks m (inp + 16) n))) = 16 * n"
    by (simp add: length_concat_blocks)
  have "cbc_enc_loop E ?m (inp + 16) (outp + 16) outp (16 * n) =
    (store ?m (outp + 16) (concat (cbc_enc_blocks E ?c (blocks m (inp + 16) n))),
     inp + 16 * Suc n, outp + 16 * Suc n, outp + 16 * n, 0)"
    using Suc.prems len by (subst Suc.IH) (auto simp: same apart_def)
  then show ?case
    unfolding step using Suc.prems len cs by (simp add: Let_def store_append)
qed (simp add: cbc_enc_loop.simps)

text \<open>
  Decryption: the output may overlap the input when it starts before it. For the direct loop the
  previous ciphertext block must not be overwritten, which the distance of two blocks gives.
\<close>

lemma cbc_dec_direct_spec:
  assumes "\<And>b. length b = 16 \<Longrightarrow> length (D b) = 16"
    "inp + 16 * n \<le> length m" "outp + 16 * n \<le> length m" "iv + 16 \<le> length m"
    "outp + 32 \<le> inp \<or> inp + 16 * n \<le> outp" "iv + 16 \<le> outp \<or> outp + 16 \<le> iv"
  shows "cbc_dec_direct D m inp outp iv (16 * n) =
    (store m outp (concat (cbc_dec_blocks D (load 16 m iv) (blocks m inp n))),
     inp + 16 * n, outp + 16 * n, if n = 0 then iv else inp + 16 * (n - 1), 0)"
  using assms(2-6)
proof (induction n arbitrary: m inp outp iv)
  case (Suc n)
  let ?c = "load 16 m inp" and ?iv = "load 16 m iv"
  let ?p = "xor_bytes (D ?c) ?iv"
  let ?m = "store m outp ?p"
  have len: "length ?c = 16" "length ?iv = 16" "length (D ?c) = 16" "length ?p = 16"
    using Suc.prems by (simp_all add: assms(1))
  have iv: "load 16 (store m outp (D ?c)) iv = ?iv"
    using Suc.prems len by (intro load_store_apart) (auto simp: apart_def)
  have "xor_words (store m outp (D ?c)) outp outp iv =
      store (store m outp (D ?c)) outp (xor_bytes (load 16 (store m outp (D ?c)) outp) (load 16 (store m outp (D ?c)) iv))"
    using Suc.prems len by (intro xor_words_spec) auto
  also have "\<dots> = ?m"
    using Suc.prems len by (simp add: iv load_store_same store_store_same)
  finally have step: "cbc_dec_direct D m inp outp iv (16 * Suc n) =
      cbc_dec_direct D ?m (inp + 16) (outp + 16) inp (16 * n)"
    by (subst cbc_dec_direct.simps) (simp add: Let_def)
  have same: "blocks ?m (inp + 16) n = blocks m (inp + 16) n" "load 16 ?m inp = ?c"
    using Suc.prems len
    by (auto intro!: blocks_store_apart load_store_apart simp: apart_def)
  have "all_blocks (cbc_dec_blocks D ?c (blocks m (inp + 16) n))"
    using len Suc.prems by (intro cbc_dec_blocks_all) (auto simp: assms(1))
  then have cs: "length (concat (cbc_dec_blocks D ?c (blocks m (inp + 16) n))) = 16 * n"
    by (simp add: length_concat_blocks)
  have "cbc_dec_direct D ?m (inp + 16) (outp + 16) inp (16 * n) =
    (store ?m (outp + 16) (concat (cbc_dec_blocks D ?c (blocks m (inp + 16) n))),
     inp + 16 * Suc n, outp + 16 * Suc n, inp + 16 * n, 0)"
    using Suc.prems len by (subst Suc.IH) (auto simp: same)
  then show ?case
    unfolding step using Suc.prems len cs by (simp add: store_append)
qed (simp add: cbc_dec_direct.simps)

lemma cbc_dec_tmp_spec:
  assumes "\<And>b. length b = 16 \<Longrightarrow> length (D b) = 16"
    "inp + 16 * n \<le> length m" "outp + 16 * n \<le> length m" "ivec + 16 \<le> length m"
    "outp \<le> inp \<or> inp + 16 * n \<le> outp" "apart outp (16 * n) ivec 16" "apart inp (16 * n) ivec 16"
  shows "cbc_dec_tmp D m inp outp ivec (16 * n) =
    (let cs = blocks m inp n; iv = load 16 m ivec
     in (store (store m outp (concat (cbc_dec_blocks D iv cs))) ivec (last (iv # cs)),
         inp + 16 * n, outp + 16 * n, 0))"
  using assms(2-7)
proof (induction n arbitrary: m inp outp)
  case (Suc n)
  let ?c = "load 16 m inp" and ?iv = "load 16 m ivec"
  let ?p = "xor_bytes (D ?c) ?iv"
  let ?m = "store (store m outp ?p) ivec ?c"
  let ?cs = "blocks m (inp + 16) n"
  have len: "length ?c = 16" "length ?iv = 16" "length (D ?c) = 16" "length ?p = 16"
    using Suc.prems by (simp_all add: assms(1))
  have apart: "apart outp 16 ivec 16" "apart inp 16 ivec 16" "apart (outp + 16) (16 * n) ivec 16"
    "apart (inp + 16) (16 * n) ivec 16"
    using Suc.prems by (auto simp: apart_def)
  have "cbc_dec_words m inp outp ivec (D ?c) = ?m"
    using Suc.prems len apart by (intro cbc_dec_words_spec) auto
  then have step: "cbc_dec_tmp D m inp outp ivec (16 * Suc n) =
      cbc_dec_tmp D ?m (inp + 16) (outp + 16) ivec (16 * n)"
    by (subst cbc_dec_tmp.simps) (simp add: Let_def)
  have same: "blocks ?m (inp + 16) n = ?cs"
    using Suc.prems len apart
    by (subst blocks_store_apart; (subst blocks_store_apart)?; force simp: apart_def)
  have iv: "load 16 ?m ivec = ?c"
    using Suc.prems len by (simp add: load_store_same)
  let ?ps = "concat (cbc_dec_blocks D ?c ?cs)"
  have "all_blocks (cbc_dec_blocks D ?c ?cs)"
    using len Suc.prems by (intro cbc_dec_blocks_all) (auto simp: assms(1))
  then have ps: "length ?ps = 16 * n"
    by (simp add: length_concat_blocks)
  have last: "length (last (?c # ?cs)) = 16"
    using len Suc.prems by (intro last_block) auto
  have "cbc_dec_tmp D ?m (inp + 16) (outp + 16) ivec (16 * n) =
    (store (store ?m (outp + 16) ?ps) ivec (last (?c # ?cs)), inp + 16 * Suc n, outp + 16 * Suc n, 0)"
    using Suc.prems len apart by (subst Suc.IH) (auto simp: same iv Let_def)
  also have "store ?m (outp + 16) ?ps = store (store m outp (?p @ ?ps)) ivec ?c"
    using Suc.prems len ps apart
      store_commute [of "outp + 16" ?ps ivec ?c "store m outp ?p"] by (simp add: store_append)
  also have "store (store (store m outp (?p @ ?ps)) ivec ?c) ivec (last (?c # ?cs)) =
      store (store m outp (?p @ ?ps)) ivec (last (?c # ?cs))"
    using Suc.prems len ps last by (intro store_store_same) (simp_all del: last.simps)
  finally show ?case
    unfolding step by (simp add: Let_def)
qed (simp add: cbc_dec_tmp.simps store_load_same)

section \<open>The whole call\<close>

text \<open>
  The buffers of a call for whole blocks: the input and the output are the same or apart, and the
  chaining vector lies apart from both.
\<close>

definition cbc_layout :: "mem \<Rightarrow> nat \<Rightarrow> nat \<Rightarrow> nat \<Rightarrow> nat \<Rightarrow> bool" where
  "cbc_layout m inp outp len ivec \<longleftrightarrow>
     16 dvd len \<and> inp + len \<le> length m \<and> outp + len \<le> length m \<and> ivec + 16 \<le> length m \<and>
     (inp = outp \<or> apart inp len outp len) \<and> apart outp len ivec 16 \<and> apart inp len ivec 16"

definition cbc_enc_result :: "(bytes \<Rightarrow> bytes) \<Rightarrow> mem \<Rightarrow> nat \<Rightarrow> nat \<Rightarrow> nat \<Rightarrow> nat \<Rightarrow> mem" where
  "cbc_enc_result E m inp outp len ivec =
     (let iv = load 16 m ivec; cs = cbc_enc_blocks E iv (blocks m inp (len div 16))
      in store (store m outp (concat cs)) ivec (last (iv # cs)))"

definition cbc_dec_result :: "(bytes \<Rightarrow> bytes) \<Rightarrow> mem \<Rightarrow> nat \<Rightarrow> nat \<Rightarrow> nat \<Rightarrow> nat \<Rightarrow> mem" where
  "cbc_dec_result D m inp outp len ivec =
     (let iv = load 16 m ivec; cs = blocks m inp (len div 16)
      in store (store m outp (concat (cbc_dec_blocks D iv cs))) ivec (last (iv # cs)))"

lemma CRYPTO_cbc128_encrypt_refines:
  assumes lay: "cbc_layout m inp outp len ivec" and E: "\<And>b. length b = 16 \<Longrightarrow> length (E b) = 16"
  shows "CRYPTO_cbc128_encrypt m inp outp len ivec E = cbc_enc_result E m inp outp len ivec"
proof -
  obtain n where n: "len = 16 * n"
    using lay by (auto simp: cbc_layout_def)
  let ?iv = "load 16 m ivec"
  let ?cs = "cbc_enc_blocks E ?iv (blocks m inp n)"
  note layout = lay [unfolded cbc_layout_def n]
  have cs: "all_blocks ?cs" "length ?cs = n"
    using layout by (auto intro!: cbc_enc_blocks_all simp: E)
  then have k: "length (concat ?cs) = 16 * n"
    by (simp add: length_concat_blocks)
  have run: "cbc_enc_loop E m inp outp ivec (16 * n) =
      (store m outp (concat ?cs), inp + 16 * n, outp + 16 * n, if n = 0 then ivec else outp + 16 * (n - 1), 0)"
    using layout by (intro cbc_enc_loop_spec) (auto simp: E apart_def)
  have "load 16 (store m outp (concat ?cs)) (if n = 0 then ivec else outp + 16 * (n - 1)) = last (?iv # ?cs)"
    using load_last_stored [OF cs(1), of outp m] cs(2) layout by (cases "n = 0") auto
  then show ?thesis
    by (simp add: CRYPTO_cbc128_encrypt_def cbc_enc_result_def n run cbc_enc_tail.simps Let_def del: last.simps)
qed

lemma CRYPTO_cbc128_decrypt_refines:
  assumes lay: "cbc_layout m inp outp len ivec" and D: "\<And>b. length b = 16 \<Longrightarrow> length (D b) = 16"
  shows "CRYPTO_cbc128_decrypt m inp outp len ivec D = cbc_dec_result D m inp outp len ivec"
proof -
  obtain n where n: "len = 16 * n"
    using lay by (auto simp: cbc_layout_def)
  let ?iv = "load 16 m ivec" and ?cs = "blocks m inp n"
  let ?ps = "cbc_dec_blocks D ?iv ?cs"
  note layout = lay [unfolded cbc_layout_def n]
  have ps: "all_blocks ?ps" "length ?ps = n"
    using layout by (auto intro!: cbc_dec_blocks_all simp: D)
  then have k: "length (concat ?ps) = 16 * n"
    by (simp add: length_concat_blocks)
  show ?thesis
  proof (cases "(32 \<le> inp \<and> outp \<le> inp - 32) \<or> inp < outp")
    case False
    have "cbc_dec_tmp D m inp outp ivec (16 * n) =
        (store (store m outp (concat ?ps)) ivec (last (?iv # ?cs)), inp + 16 * n, outp + 16 * n, 0)"
      using layout False by (subst cbc_dec_tmp_spec) (auto simp: D Let_def apart_def)
    then show ?thesis
      unfolding CRYPTO_cbc128_decrypt_def if_not_P [OF False]
      by (simp add: cbc_dec_result_def n cbc_dec_tail.simps Let_def del: last.simps)
  next
    case True
    let ?ivp = "if n = 0 then ivec else inp + 16 * (n - 1)"
    show ?thesis
    proof (cases "n = 0")
      case n0: True
      show ?thesis
        unfolding CRYPTO_cbc128_decrypt_def if_P [OF True] using layout n n0
        by (simp add: cbc_dec_result_def cbc_dec_direct.simps cbc_dec_tail.simps store_load_same)
    next
      case False
      have run: "cbc_dec_direct D m inp outp ivec (16 * n) =
          (store m outp (concat ?ps), inp + 16 * n, outp + 16 * n, ?ivp, 0)"
        using layout True False by (intro cbc_dec_direct_spec) (auto simp: D apart_def)
      have "apart inp (16 * n) outp (16 * n)"
        using layout True by auto
      then have "load 16 (store m outp (concat ?ps)) ?ivp = last (?iv # ?cs)"
        using load_last_input [of inp n outp "concat ?ps" m] layout k False by simp
      then show ?thesis
        unfolding CRYPTO_cbc128_decrypt_def if_P [OF True]
        by (simp add: cbc_dec_result_def n run cbc_dec_tail.simps Let_def del: last.simps)
    qed
  qed
qed

text \<open>What \<open>AES_cbc_encrypt\<close> relies on when the processor has instructions for AES.\<close>

definition hw_cbc_ok :: "aes_backend \<Rightarrow> hw_cbc \<Rightarrow> bool" where
  "hw_cbc_ok be hw \<longleftrightarrow> (hwaes_capable be \<longrightarrow>
     (\<forall>m inp outp len key ivec. cbc_layout m inp outp len ivec \<longrightarrow>
        hw m inp outp len key ivec AES_ENCRYPT = cbc_enc_result (\<lambda>b. AES_encrypt be b key) m inp outp len ivec \<and>
        hw m inp outp len key ivec AES_DECRYPT = cbc_dec_result (\<lambda>b. AES_decrypt be b key) m inp outp len ivec))"

lemma AES_cbc_encrypt_refines:
  assumes "hw_cbc_ok be hw" "cbc_layout m inp outp len ivec"
    "\<And>b. length b = 16 \<Longrightarrow> length (AES_encrypt be b key) = 16"
  shows "AES_cbc_encrypt be hw m inp outp len key ivec AES_ENCRYPT =
    cbc_enc_result (\<lambda>b. AES_encrypt be b key) m inp outp len ivec"
  using assms by (simp add: AES_cbc_encrypt_def hw_cbc_ok_def AES_ENCRYPT_def CRYPTO_cbc128_encrypt_refines)

lemma AES_cbc_decrypt_refines:
  assumes "hw_cbc_ok be hw" "cbc_layout m inp outp len ivec"
    "\<And>b. length b = 16 \<Longrightarrow> length (AES_decrypt be b key) = 16"
  shows "AES_cbc_encrypt be hw m inp outp len key ivec AES_DECRYPT =
    cbc_dec_result (\<lambda>b. AES_decrypt be b key) m inp outp len ivec"
  using assms by (simp add: AES_cbc_encrypt_def hw_cbc_ok_def AES_DECRYPT_def CRYPTO_cbc128_decrypt_refines)

text \<open>
  The calls of the application: a message in one buffer, the result in another, and the chaining
  vector in a third. \<open>cbc_text\<close> and \<open>cbc_plain\<close> are the mode on whole messages.
\<close>

definition cbc_text :: "(bytes \<Rightarrow> bytes) \<Rightarrow> bytes \<Rightarrow> bytes \<Rightarrow> bytes" where
  "cbc_text E iv msg = concat (cbc_enc_blocks E iv (blocks msg 0 (length msg div 16)))"

definition cbc_plain :: "(bytes \<Rightarrow> bytes) \<Rightarrow> bytes \<Rightarrow> bytes \<Rightarrow> bytes" where
  "cbc_plain D iv msg = concat (cbc_dec_blocks D iv (blocks msg 0 (length msg div 16)))"

lemma length_cbc_text:
  assumes "\<And>b. length b = 16 \<Longrightarrow> length (f b) = 16" "16 dvd length msg" "length iv = 16"
  shows "length (cbc_text f iv msg) = length msg" "length (cbc_plain f iv msg) = length msg"
  unfolding cbc_text_def cbc_plain_def using assms
  by (auto simp: length_concat_blocks cbc_enc_blocks_all cbc_dec_blocks_all)

lemma blocks_concat: "all_blocks bs \<Longrightarrow> blocks (concat bs) 0 (length bs) = bs"
  using blocks_store_same [of bs 0 "concat bs"]
  by (simp add: store_def memcpy_at_def length_concat_blocks)

lemma blocks_append_left: "p + 16 * n \<le> length xs \<Longrightarrow> blocks (xs @ ys) p n = blocks xs p n"
  by (induction n arbitrary: p) (simp_all add: load_def)

lemma concat_blocks_whole: "16 dvd length msg \<Longrightarrow> concat (blocks msg 0 (length msg div 16)) = msg"
  by (simp add: concat_blocks load_def)

context block_cipher
begin

lemma cbc_plain_text:
  assumes "valid k" "16 dvd length msg" "length iv = 16"
  shows "cbc_plain (dec k) iv (cbc_text (enc k) iv msg) = msg"
proof -
  let ?ps = "blocks msg 0 (length msg div 16)"
  let ?cs = "cbc_enc_blocks (enc k) iv ?ps"
  have ps: "all_blocks ?ps" using assms(2) by simp
  then have cs: "all_blocks ?cs"
    using assms by (intro cbc_enc_blocks_all) (simp_all add: length_enc)
  then have "length (concat ?cs) div 16 = length ?cs"
    by (simp add: length_concat_blocks)
  then have "cbc_plain (dec k) iv (cbc_text (enc k) iv msg) = concat (cbc_dec_blocks (dec k) iv ?cs)"
    using blocks_concat [OF cs] by (simp add: cbc_plain_def cbc_text_def)
  then show ?thesis
    using ps assms by (simp add: cbc_dec_enc concat_blocks_whole)
qed

end

text \<open>A block function that another one agrees with on blocks gives the same mode.\<close>

lemma cbc_text_cong:
  assumes "\<And>b. length b = 16 \<Longrightarrow> E b = E' b" "\<And>b. length b = 16 \<Longrightarrow> length (E b) = 16"
    "16 dvd length msg" "length iv = 16"
  shows "cbc_text E iv msg = cbc_text E' iv msg"
proof -
  have "all_blocks (blocks msg 0 (length msg div 16))" using assms(3) by simp
  then show ?thesis
    unfolding cbc_text_def using cbc_enc_blocks_cong [of E E'] assms by metis
qed

lemma cbc_plain_cong:
  assumes "\<And>b. length b = 16 \<Longrightarrow> D b = D' b" "16 dvd length msg"
  shows "cbc_plain D iv msg = cbc_plain D' iv msg"
proof -
  have "all_blocks (blocks msg 0 (length msg div 16))" using assms(2) by simp
  then show ?thesis
    unfolding cbc_plain_def using cbc_dec_blocks_cong [of D D'] assms(1) by metis
qed

text \<open>Reading the result of a call on three buffers that lie one after the other.\<close>

lemma cbc_result_buffers:
  assumes "16 dvd length msg" "length out = length msg" "length iv = 16"
    "\<And>b. length b = 16 \<Longrightarrow> length (f b) = 16"
  shows "cbc_layout (msg @ out @ iv) 0 (length msg) (length msg) (2 * length msg)"
    "load (length msg) (cbc_enc_result f (msg @ out @ iv) 0 (length msg) (length msg) (2 * length msg)) (length msg) =
       cbc_text f iv msg"
    "load (length msg) (cbc_dec_result f (msg @ out @ iv) 0 (length msg) (length msg) (2 * length msg)) (length msg) =
       cbc_plain f iv msg"
    "load 16 (cbc_enc_result f (msg @ out @ iv) 0 (length msg) (length msg) (2 * length msg)) (2 * length msg) =
       last (iv # cbc_enc_blocks f iv (blocks msg 0 (length msg div 16)))"
    "load 16 (cbc_dec_result f (msg @ out @ iv) 0 (length msg) (length msg) (2 * length msg)) (2 * length msg) =
       last (iv # blocks msg 0 (length msg div 16))"
proof -
  let ?m = "msg @ out @ iv" and ?n = "length msg"
  let ?ps = "blocks msg 0 (?n div 16)"
  show lay: "cbc_layout ?m 0 ?n ?n (2 * ?n)"
    using assms by (auto simp: cbc_layout_def apart_def)
  have ps: "blocks ?m 0 (?n div 16) = ?ps" and iv: "load 16 ?m (2 * ?n) = iv"
    using assms by (auto intro!: blocks_append_left simp: load_def)
  have all: "all_blocks ?ps" using assms(1) by simp
  have l1: "length (concat (cbc_enc_blocks f iv ?ps)) = ?n" "length (last (iv # cbc_enc_blocks f iv ?ps)) = 16"
    "length (concat (cbc_dec_blocks f iv ?ps)) = ?n" "length (last (iv # ?ps)) = 16"
    using assms all last_block [OF cbc_enc_blocks_all [OF assms(4) all assms(3)] assms(3)]
      last_block [OF all assms(3)]
    by (auto simp: length_concat_blocks cbc_enc_blocks_all cbc_dec_blocks_all simp del: last.simps)
  have app: "apart ?n ?n (2 * ?n) 16" by (simp add: apart_def)
  show "load ?n (cbc_enc_result f ?m 0 ?n ?n (2 * ?n)) ?n = cbc_text f iv msg"
    "load ?n (cbc_dec_result f ?m 0 ?n ?n (2 * ?n)) ?n = cbc_plain f iv msg"
    using assms l1 app unfolding cbc_enc_result_def cbc_dec_result_def Let_def ps iv
    by (auto simp: load_store_apart load_store_same cbc_text_def cbc_plain_def simp del: last.simps)
  show "load 16 (cbc_enc_result f ?m 0 ?n ?n (2 * ?n)) (2 * ?n) = last (iv # cbc_enc_blocks f iv ?ps)"
    "load 16 (cbc_dec_result f ?m 0 ?n ?n (2 * ?n)) (2 * ?n) = last (iv # ?ps)"
    using assms l1 unfolding cbc_enc_result_def cbc_dec_result_def Let_def ps iv
    by (auto simp: load_store_same simp del: last.simps)
qed

section \<open>Properties\<close>

text \<open>
  C19: with keys that \<open>AES_set_encrypt_key\<close> and \<open>AES_set_decrypt_key\<close> made from the same bytes,
  \<open>AES_cbc_encrypt\<close> leaves in memory what the mode on lists of blocks prescribes, in both directions,
  whichever of the two loops of \<open>CRYPTO_cbc128_decrypt\<close> the addresses select; and deciphering the
  ciphertext blocks gives the plaintext blocks. The buffers are the same or disjoint, and the
  chaining vector lies apart. On a processor with instructions for AES, whose routine is assembly, this
  routine is assumed to compute the mode too.
\<close>

theorem cbc_refines_mode:
  assumes "hw_cbc_ok be hw" "aes_key_pair (be, ek, dk)" "cbc_layout m inp outp len ivec"
  shows "AES_cbc_encrypt be hw m inp outp len ek ivec AES_ENCRYPT =
      cbc_enc_result (\<lambda>b. AES_encrypt be b ek) m inp outp len ivec \<and>
    AES_cbc_encrypt be hw m inp outp len dk ivec AES_DECRYPT =
      cbc_dec_result (\<lambda>b. AES_decrypt be b dk) m inp outp len ivec \<and>
    cbc_dec_blocks (\<lambda>b. AES_decrypt be b dk) (load 16 m ivec)
      (cbc_enc_blocks (\<lambda>b. AES_encrypt be b ek) (load 16 m ivec) (blocks m inp (len div 16))) = blocks m inp (len div 16)"
proof (intro conjI)
  note len = aes_key_pair_lengths [OF assms(2)]
  show "AES_cbc_encrypt be hw m inp outp len ek ivec AES_ENCRYPT =
      cbc_enc_result (\<lambda>b. AES_encrypt be b ek) m inp outp len ivec"
    by (rule AES_cbc_encrypt_refines [OF assms(1,3)]) (simp add: len)
  show "AES_cbc_encrypt be hw m inp outp len dk ivec AES_DECRYPT =
      cbc_dec_result (\<lambda>b. AES_decrypt be b dk) m inp outp len ivec"
    by (rule AES_cbc_decrypt_refines [OF assms(1,3)]) (simp add: len)
  have "aes_enc_block (be, ek, dk) = (\<lambda>b. AES_encrypt be b ek)" "aes_dec_block (be, ek, dk) = (\<lambda>b. AES_decrypt be b dk)"
    by (simp_all add: fun_eq_iff aes_enc_block_def aes_dec_block_def)
  moreover have "all_blocks (blocks m inp (len div 16))" "length (load 16 m ivec) = 16"
    using assms(3) by (auto simp: cbc_layout_def)
  ultimately show "cbc_dec_blocks (\<lambda>b. AES_decrypt be b dk) (load 16 m ivec)
      (cbc_enc_blocks (\<lambda>b. AES_encrypt be b ek) (load 16 m ivec) (blocks m inp (len div 16))) = blocks m inp (len div 16)"
    using aes.cbc_dec_enc [OF assms(2)] by simp
qed

theorem cbc_refines_mode_witness:
  "\<exists>ek. AES_cbc_encrypt soft_backend (\<lambda>m _ _ _ _ _ _. m) (replicate 80 5) 0 32 32 ek 64 AES_ENCRYPT =
    cbc_enc_result (\<lambda>b. AES_encrypt soft_backend b ek) (replicate 80 5) 0 32 32 64"
proof -
  obtain ek dk where k: "aes_key_pair (soft_backend, ek, dk)"
    using some_key_pairs by blast
  have "hw_cbc_ok soft_backend (\<lambda>m _ _ _ _ _ _. m)" "cbc_layout (replicate 80 5) 0 32 32 64"
    by (simp_all add: hw_cbc_ok_def soft_backend_def cbc_layout_def apart_def)
  from cbc_refines_mode [OF this(1) k this(2)] show ?thesis
    by blast
qed

end
