(* ===== verification/Native_Entry.thy ===== *)
theory Native_Entry
  imports AES_IGE PBKDF2 AES_CBC
begin

text \<open>
  \<open>app/jni/jni.c\<close>: the functions that the application calls through the Java Native Interface.
  \<open>GetDirectBufferAddress\<close> gives the bytes of the direct buffer itself. \<open>GetByteArrayElements\<close> gives
  a copy of a Java array, which \<open>ReleaseByteArrayElements\<close> writes back with the mode 0 and drops with
  \<open>JNI_ABORT\<close>. The functions below return the contents of the Java objects after the call. The
  buffer and the copy of the chaining vector are put next to each other in one flat memory; they do
  not overlap, and by the theorems on \<open>AES_ige_encrypt\<close> nothing else about their place matters.
  \<open>unaligned\<close> is the compile-time choice of that function, \<open>akey\<close> the uninitialised key schedule on
  the stack.
\<close>

section \<open>The code\<close>

text \<open>The key setup and the cipher, which both AES entry points spell out.\<close>

definition jni_ige :: "aes_backend \<Rightarrow> bool \<Rightarrow> AES_KEY \<Rightarrow> mem \<Rightarrow> nat \<Rightarrow> nat \<Rightarrow> bytes \<Rightarrow> nat \<Rightarrow> bool \<Rightarrow> mem option" where
  "jni_ige be unaligned akey m what len keyBuff ivBuff encrypt =
     (if \<not> encrypt then do {
        let (_, akey) = AES_set_decrypt_key be (Some keyBuff) (32 * 8) (Some akey);
        akey \<leftarrow> akey;
        Some (AES_ige_encrypt be unaligned m what what len akey ivBuff AES_DECRYPT)
      } else do {
        let (_, akey) = AES_set_encrypt_key be (Some keyBuff) (32 * 8) (Some akey);
        akey \<leftarrow> akey;
        Some (AES_ige_encrypt be unaligned m what what len akey ivBuff AES_ENCRYPT)
      })"

text \<open>
  The result is the contents of the buffer and of the array \<open>iv\<close>. Offsets and lengths are the
  non-negative values of their \<open>jint\<close>.
\<close>

definition aesIgeEncryption ::
  "aes_backend \<Rightarrow> bool \<Rightarrow> AES_KEY \<Rightarrow> bytes \<Rightarrow> bytes \<Rightarrow> bytes \<Rightarrow> bool \<Rightarrow> nat \<Rightarrow> nat \<Rightarrow> (bytes \<times> bytes) option" where
  "aesIgeEncryption be unaligned akey buffer key iv encrypt offset len = do {
     m \<leftarrow> jni_ige be unaligned akey (buffer @ iv) offset len key (length buffer) encrypt;
     Some (take (length buffer) m, drop (length buffer) m)
   }"

text \<open>The variant for arrays does not use its parameter \<open>offset\<close>.\<close>

definition aesIgeEncryptionByteArray ::
  "aes_backend \<Rightarrow> bool \<Rightarrow> AES_KEY \<Rightarrow> bytes \<Rightarrow> bytes \<Rightarrow> bytes \<Rightarrow> bool \<Rightarrow> nat \<Rightarrow> nat \<Rightarrow> (bytes \<times> bytes) option" where
  "aesIgeEncryptionByteArray be unaligned akey buffer key iv encrypt offset len = do {
     m \<leftarrow> jni_ige be unaligned akey (buffer @ iv) 0 len key (length buffer) encrypt;
     Some (take (length buffer) m, drop (length buffer) m)
   }"

text \<open>
  \<open>pbkdf2\<close>: the status, and the array \<open>dst\<close> after it was written back. The count is a \<open>jint\<close> that is
  cast to \<open>unsigned\<close>.
\<close>

definition pbkdf2 :: "heap \<Rightarrow> bytes \<Rightarrow> bytes \<Rightarrow> bytes \<Rightarrow> 32 word \<Rightarrow> (int \<times> bytes \<times> heap) option" where
  "pbkdf2 h password salt dst iterations =
     PKCS5_PBKDF2_HMAC h password salt (unat iterations) EVP_sha512 (length dst) dst"

section \<open>What the entry points compute\<close>

text \<open>
  The mode over FIPS 197 with a key of 256 bits: on the whole blocks of the data, with a remainder of
  fewer than sixteen bytes left as it is. The second part of the result is the new chaining vector.
\<close>

abbreviation aes256 :: "bytes \<Rightarrow> bytes \<Rightarrow> bytes" where
  "aes256 key \<equiv> fips_cipher 14 (fips_schedule 256 key)"

abbreviation aes256_inv :: "bytes \<Rightarrow> bytes \<Rightarrow> bytes" where
  "aes256_inv key \<equiv> fips_inv_cipher 14 (fips_schedule 256 key)"

fun chunk16 :: "nat \<Rightarrow> bytes \<Rightarrow> bytes list" where
  "chunk16 0 d = []"
| "chunk16 (Suc n) d = take 16 d # chunk16 n (drop 16 d)"

definition ige_data :: "bool \<Rightarrow> bytes \<Rightarrow> bytes \<Rightarrow> bytes \<Rightarrow> bytes list" where
  "ige_data encrypt key iv d =
     (let bs = chunk16 (length d div 16) d
      in if encrypt then ige_enc_blocks (aes256 key) (take 16 iv) (drop 16 iv) bs
         else ige_dec_blocks (aes256_inv key) (take 16 iv) (drop 16 iv) bs)"

definition ige_text :: "bool \<Rightarrow> bytes \<Rightarrow> bytes \<Rightarrow> bytes \<Rightarrow> bytes" where
  "ige_text encrypt key iv d =
     concat (ige_data encrypt key iv d) @ drop (16 * (length d div 16)) d"

definition ige_next_iv :: "bool \<Rightarrow> bytes \<Rightarrow> bytes \<Rightarrow> bytes \<Rightarrow> bytes" where
  "ige_next_iv encrypt key iv d =
     (let bs = chunk16 (length d div 16) d; out = ige_data encrypt key iv d
      in if encrypt then last (take 16 iv # out) @ last (drop 16 iv # bs)
         else last (take 16 iv # bs) @ last (drop 16 iv # out))"

lemma blocks_chunk16: "blocks m p n = chunk16 n (load (16 * n) m p)"
proof (induction n arbitrary: p)
  case (Suc n)
  have "take 16 (load (16 * Suc n) m p) = load 16 m p" "drop 16 (load (16 * Suc n) m p) = load (16 * n) m (p + 16)"
    by (simp_all add: load_def drop_take min_def add.commute)
  with Suc show ?case by simp
qed simp

lemma length_chunk16 [simp]: "length (chunk16 n d) = n"
  by (induction n arbitrary: d) simp_all

lemma all_blocks_chunk16: "16 * n \<le> length d \<Longrightarrow> all_blocks (chunk16 n d)"
  by (induction n arbitrary: d) simp_all

lemma concat_chunk16: "concat (chunk16 n d) = take (16 * n) d"
proof (induction n arbitrary: d)
  case (Suc n)
  then show ?case
    by (simp add: take_add)
qed simp

lemma chunk16_concat: "all_blocks bs \<Longrightarrow> chunk16 (length bs) (concat bs @ r) = bs"
  by (induction bs) simp_all

lemma chunk16_take: "16 * n \<le> k \<Longrightarrow> chunk16 n (take k d) = chunk16 n d"
proof (induction n arbitrary: k d)
  case (Suc n)
  then have "chunk16 n (take (k - 16) (drop 16 d)) = chunk16 n (drop 16 d)"
    by (intro Suc.IH) simp
  with Suc.prems show ?case
    by (simp add: drop_take min_def)
qed simp

text \<open>The modes only apply the block function to blocks.\<close>

lemma ige_enc_blocks_cong:
  assumes "\<And>b. length b = 16 \<Longrightarrow> E b = E' b \<and> length (E' b) = 16"
    "all_blocks ps" "length iv = 16" "length iv2 = 16"
  shows "ige_enc_blocks E iv iv2 ps = ige_enc_blocks E' iv iv2 ps"
  using assms(2-4)
proof (induction ps arbitrary: iv iv2)
  case (Cons p ps)
  then show ?case
    using assms(1) [of "xor_bytes p iv"] by (simp add: Let_def)
qed simp

lemma ige_dec_blocks_cong:
  assumes "\<And>b. length b = 16 \<Longrightarrow> D b = D' b \<and> length (D' b) = 16"
    "all_blocks cs" "length iv = 16" "length iv2 = 16"
  shows "ige_dec_blocks D iv iv2 cs = ige_dec_blocks D' iv iv2 cs"
  using assms(2-4)
proof (induction cs arbitrary: iv iv2)
  case (Cons c cs)
  then show ?case
    using assms(1) [of "xor_bytes c iv2"] by (simp add: Let_def)
qed simp

interpretation fips_aes256: block_cipher "\<lambda>key. True" aes256 aes256_inv
proof
  fix key b :: bytes
  assume b: "length b = 16"
  show "aes256_inv key (aes256 key b) = b"
    by (rule fips_inv_cipher_cipher [OF b])
  show "length (aes256 key b) = 16" "length (aes256_inv key b) = 16"
    by (simp_all add: b)
qed

text \<open>A run of the cipher in place on \<open>buffer @ iv\<close>.\<close>

lemma memcpy_at_tail:
  assumes "p + length s + length t \<le> length d" "t = take (length t) (drop (p + length s) d)"
  shows "memcpy_at d p (s @ t) = memcpy_at d p s"
proof -
  have "drop (p + length s) d = t @ drop (p + length s + length t) d"
    by (metis assms(2) append_take_drop_id drop_drop add.commute)
  then show ?thesis
    by (simp add: memcpy_at_def add.assoc)
qed

lemma store_in_place:
  assumes "p + length c \<le> length b" "length x = 32" "length iv = 32"
  shows "store (store (b @ iv) p c) (length b) x = memcpy_at b p c @ x"
  using assms by (simp add: store_def memcpy_at_def)

lemma ige_in_place:
  assumes off: "offset + len \<le> length buffer" and iv: "length iv = 32"
  defines "d \<equiv> take len (drop offset buffer)" and "m \<equiv> buffer @ iv" and "n \<equiv> len div 16"
  shows "ige_layout m offset offset len (length buffer)"
    "load 16 m (length buffer) = take 16 iv" "load 16 m (length buffer + 16) = drop 16 iv"
    "blocks m offset n = chunk16 n d" "length d = len" "16 * n \<le> len"
proof -
  have n: "16 * n \<le> len"
    by (simp add: n_def times_div_less_eq_dividend)
  have "load (16 * n) m offset = take (16 * n) d"
    using off n by (simp add: load_def m_def d_def)
  then show "blocks m offset n = chunk16 n d"
    by (simp add: blocks_chunk16 chunk16_take)
  show "ige_layout m offset offset len (length buffer)"
    using off iv n by (simp add: ige_layout_def Let_def m_def n_def [symmetric] apart_def)
  show "load 16 m (length buffer) = take 16 iv" "load 16 m (length buffer + 16) = drop 16 iv"
    using iv by (simp_all add: load_def m_def)
  show "length d = len" "16 * n \<le> len"
    using off n by (simp_all add: d_def)
qed

lemma ige_data_blocks:
  assumes "length iv = 32"
  shows "all_blocks (ige_data encrypt key iv d)" "length (ige_data encrypt key iv d) = length d div 16"
  using assms fips_aes256.length_enc fips_aes256.length_dec
    all_blocks_chunk16 [of "length d div 16" d]
  by (auto simp: ige_data_def Let_def times_div_less_eq_dividend intro!: ige_enc_blocks_all ige_dec_blocks_all)

lemma length_ige_next_iv:
  assumes "length iv = 32"
  shows "length (ige_next_iv encrypt key iv d) = 32"
proof -
  have "all_blocks (chunk16 (length d div 16) d)"
    by (simp add: all_blocks_chunk16 times_div_less_eq_dividend)
  then show ?thesis
    using last_block [of "chunk16 (length d div 16) d" "take 16 iv"] last_block [of "chunk16 (length d div 16) d" "drop 16 iv"]
      last_block [of "ige_data encrypt key iv d" "take 16 iv"] last_block [of "ige_data encrypt key iv d" "drop 16 iv"]
      ige_data_blocks [OF assms] assms
    by (cases encrypt) (simp_all add: ige_next_iv_def Let_def del: last.simps)
qed

lemma length_ige_text [simp]: "length iv = 32 \<Longrightarrow> length (ige_text encrypt key iv d) = length d"
  using ige_data_blocks [of iv encrypt key d] times_div_less_eq_dividend [of 16 "length d"]
  by (simp add: ige_text_def length_concat_blocks)

lemma jni_ige_result:
  assumes be: "backend_ok be" and ak: "length (rd_key akey) = 60"
    and off: "offset + len \<le> length buffer" and iv: "length iv = 32"
  defines "d \<equiv> take len (drop offset buffer)"
  shows "jni_ige be unaligned akey (buffer @ iv) offset len key (length buffer) encrypt =
    Some (memcpy_at buffer offset (ige_text encrypt key iv d) @ ige_next_iv encrypt key iv d)"
proof -
  let ?m = "buffer @ iv" and ?n = "len div 16"
  note place = ige_in_place [OF off iv, folded d_def]
  have ivs: "length (take 16 iv) = 16" "length (drop 16 iv) = 16"
    using iv by simp_all
  have bs: "all_blocks (chunk16 ?n d)"
    using place(5,6) by (intro all_blocks_chunk16) simp
  have data: "length (concat (ige_data encrypt key iv d)) = 16 * ?n"
    using ige_data_blocks [OF iv, of encrypt key d] place(5) by (simp add: length_concat_blocks)
  have tail: "memcpy_at buffer offset (ige_text encrypt key iv d) =
      memcpy_at buffer offset (concat (ige_data encrypt key iv d))"
    unfolding ige_text_def place(5)
    by (rule memcpy_at_tail) (use off place(5,6) data in \<open>simp_all add: d_def drop_take add.commute\<close>)
  have result: "store (store ?m offset (concat (ige_data encrypt key iv d))) (length buffer) (ige_next_iv encrypt key iv d) =
      memcpy_at buffer offset (ige_text encrypt key iv d) @ ige_next_iv encrypt key iv d"
    unfolding tail using off place(6) data iv
    by (intro store_in_place) (simp_all add: length_ige_next_iv)
  show ?thesis
  proof (cases encrypt)
    case True
    obtain ek where ek: "AES_set_encrypt_key be (Some key) 256 (Some akey) = (0, Some ek)"
      and E: "\<And>b. length b = 16 \<Longrightarrow> AES_encrypt be b ek = aes256 key b"
      by (rule implements_aesD [OF AES_encrypt_implements [OF be], of 256 akey key])
        (simp_all add: ak aes_rounds_def)
    have "AES_ige_encrypt be unaligned ?m offset offset len ek (length buffer) AES_ENCRYPT =
        ige_enc_result (\<lambda>b. AES_encrypt be b ek) ?m offset offset len (length buffer)"
      using place(1) by (rule AES_ige_encrypt_refines) (simp add: E)
    also have "\<dots> = store (store ?m offset (concat (ige_data encrypt key iv d))) (length buffer) (ige_next_iv encrypt key iv d)"
      using ige_enc_blocks_cong [of "\<lambda>b. AES_encrypt be b ek" "aes256 key", OF _ bs ivs] E True
      by (simp add: ige_enc_result_def ige_data_def ige_next_iv_def Let_def place del: last.simps)
    finally show ?thesis
      using True ek result by (simp add: jni_ige_def)
  next
    case False
    obtain dk where dk: "AES_set_decrypt_key be (Some key) 256 (Some akey) = (0, Some dk)"
      and D: "\<And>b. length b = 16 \<Longrightarrow> AES_decrypt be b dk = aes256_inv key b"
      by (rule implements_aesD [OF AES_decrypt_implements [OF be], of 256 akey key])
        (simp_all add: ak aes_rounds_def)
    have "AES_ige_encrypt be unaligned ?m offset offset len dk (length buffer) AES_DECRYPT =
        ige_dec_result (\<lambda>b. AES_decrypt be b dk) ?m offset offset len (length buffer)"
      using place(1) by (rule AES_ige_decrypt_refines) (simp add: D)
    also have "\<dots> = store (store ?m offset (concat (ige_data encrypt key iv d))) (length buffer) (ige_next_iv encrypt key iv d)"
      using ige_dec_blocks_cong [of "\<lambda>b. AES_decrypt be b dk" "aes256_inv key", OF _ bs ivs] D False
      by (simp add: ige_dec_result_def ige_data_def ige_next_iv_def Let_def place del: last.simps)
    finally show ?thesis
      using False dk result by (simp add: jni_ige_def)
  qed
qed

lemma aesIgeEncryption_result:
  assumes "backend_ok be" "length (rd_key akey) = 60" "offset + len \<le> length buffer" "length iv = 32"
  defines "d \<equiv> take len (drop offset buffer)"
  shows "aesIgeEncryption be unaligned akey buffer key iv encrypt offset len =
    Some (memcpy_at buffer offset (ige_text encrypt key iv d), ige_next_iv encrypt key iv d)"
  using jni_ige_result [OF assms(1-4)] assms(3,4)
  by (simp add: aesIgeEncryption_def d_def)

lemma aesIgeEncryptionByteArray_result:
  assumes "backend_ok be" "length (rd_key akey) = 60" "len \<le> length buffer" "length iv = 32"
  shows "aesIgeEncryptionByteArray be unaligned akey buffer key iv encrypt offset len =
    Some (memcpy_at buffer 0 (ige_text encrypt key iv (take len buffer)), ige_next_iv encrypt key iv (take len buffer))"
  using jni_ige_result [of be akey 0 len buffer iv] assms
  by (simp add: aesIgeEncryptionByteArray_def)

text \<open>Decryption of the data undoes encryption.\<close>

lemma ige_text_decrypt_encrypt:
  assumes "length iv = 32"
  shows "ige_text False key iv (ige_text True key iv d) = d"
proof -
  let ?n = "length d div 16" and ?c = "ige_data True key iv d"
  note c = ige_data_blocks [OF assms, of True key d]
  have bs: "all_blocks (chunk16 ?n d)"
    by (simp add: all_blocks_chunk16 times_div_less_eq_dividend)
  have "chunk16 ?n (ige_text True key iv d) = ?c"
    using chunk16_concat [OF c(1), of "drop (16 * ?n) d"] c(2) by (simp add: ige_text_def)
  moreover have "ige_dec_blocks (aes256_inv key) (take 16 iv) (drop 16 iv) ?c = chunk16 ?n d"
    using fips_aes256.ige_dec_enc [OF TrueI bs, of "take 16 iv" "drop 16 iv" key] assms
    by (simp add: ige_data_def Let_def)
  ultimately have "ige_data False key iv (ige_text True key iv d) = chunk16 ?n d"
    using assms by (simp add: ige_data_def Let_def)
  moreover have "drop (16 * ?n) (ige_text True key iv d) = drop (16 * ?n) d"
    using c by (simp add: ige_text_def length_concat_blocks)
  ultimately show ?thesis
    using assms by (simp add: ige_text_def [of False] concat_chunk16)
qed

section \<open>Properties\<close>

text \<open>
  C2: the entry point for direct buffers replaces the bytes from \<open>offset\<close> on by the AES-256
  IGE ciphertext (or plaintext) of FIPS 197 of themselves, leaves all other bytes and a remainder of
  fewer than sixteen, and writes the last blocks back to the array \<open>iv\<close>.
\<close>

theorem aesIgeEncryption_functional:
  assumes "backend_ok be" "length (rd_key akey) = 60" "length key = 32" "length iv = 32"
    "offset + len \<le> length buffer"
  shows "aesIgeEncryption be unaligned akey buffer key iv encrypt offset len =
    (let d = take len (drop offset buffer)
     in Some (take offset buffer @ ige_text encrypt key iv d @ drop (offset + len) buffer,
          ige_next_iv encrypt key iv d))"
  using aesIgeEncryption_result [OF assms(1,2,5,4)] assms(4,5)
  by (simp add: memcpy_at_def Let_def min_def)

theorem aesIgeEncryption_functional_witness:
  "aesIgeEncryption soft_backend False blank_key (replicate 48 1) (replicate 32 2) (replicate 32 3) True 16 20 =
    Some (replicate 16 1 @ ige_text True (replicate 32 2) (replicate 32 3) (replicate 20 1) @ replicate 12 1,
      ige_next_iv True (replicate 32 2) (replicate 32 3) (replicate 20 1))"
  using aesIgeEncryption_functional [OF soft_backend_ok, of blank_key "replicate 32 2" "replicate 32 3" 16 20 "replicate 48 1"]
  by (simp add: Let_def drop_replicate take_replicate)

text \<open>The entry point for direct buffers undoes itself.\<close>

lemma aesIgeEncryption_roundtrip:
  assumes "backend_ok be" "length (rd_key akey) = 60" "length (rd_key akey') = 60" "length key = 32"
    "length iv = 32" "offset + len \<le> length buffer"
  shows "\<exists>buffer' iv' iv''.
    aesIgeEncryption be unaligned akey buffer key iv True offset len = Some (buffer', iv') \<and>
    aesIgeEncryption be unaligned akey' buffer' key iv False offset len = Some (buffer, iv'')"
proof -
  define d where "d = take len (drop offset buffer)"
  define buffer' where "buffer' = memcpy_at buffer offset (ige_text True key iv d)"
  have d: "length d = len" and d': "length (ige_text True key iv d) = len"
    using assms(5,6) by (simp_all add: d_def)
  have b': "length buffer' = length buffer" "take len (drop offset buffer') = ige_text True key iv d"
    using assms(6) d' by (simp_all add: buffer'_def memcpy_at_def)
  have "memcpy_at buffer' offset d = buffer"
  proof -
    have "memcpy_at buffer' offset d = take offset buffer @ take len (drop offset buffer) @ drop len (drop offset buffer)"
      using assms(6) d d' by (simp add: buffer'_def memcpy_at_def d_def add.commute)
    then show ?thesis
      by (simp only: append_take_drop_id)
  qed
  then show ?thesis
    using aesIgeEncryption_result [OF assms(1,2,6,5), folded d_def buffer'_def]
      aesIgeEncryption_result [OF assms(1,3), of offset len buffer' iv] assms(5,6) b'
      ige_text_decrypt_encrypt [OF assms(5), of key d]
    by (auto simp: buffer'_def [symmetric])
qed

text \<open>
  C13: the entry point for arrays works on the first \<open>len\<close> bytes of the array for every
  value of its parameter \<open>offset\<close>; the bytes that \<open>offset\<close> and \<open>len\<close> denote behind them stay in the
  clear.
\<close>

theorem aesIgeEncryptionByteArray_ignores_offset:
  assumes "backend_ok be" "length (rd_key akey) = 60" "length key = 32" "length iv = 32" "len \<le> length buffer"
  shows "aesIgeEncryptionByteArray be unaligned akey buffer key iv encrypt offset len =
    Some (ige_text encrypt key iv (take len buffer) @ drop len buffer, ige_next_iv encrypt key iv (take len buffer))"
  using aesIgeEncryptionByteArray_result [OF assms(1,2,5,4)] assms(4,5)
  by (simp add: memcpy_at_def min_def)

theorem aesIgeEncryptionByteArray_ignores_offset_witness:
  "\<exists>c iv'. length c = 16 \<and>
    aesIgeEncryptionByteArray soft_backend False blank_key (replicate 48 1) (replicate 32 2) (replicate 32 3) True 16 16 =
    Some (c @ replicate 32 1, iv')"
  using aesIgeEncryptionByteArray_ignores_offset [OF soft_backend_ok, of blank_key "replicate 32 2" "replicate 32 3" 16 "replicate 48 1" False True 16]
  by (auto simp: drop_replicate take_replicate)

text \<open>The native \<open>pbkdf2\<close> fills the array with the key of RFC 8018 over HMAC-SHA-512.\<close>

lemma pbkdf2_entry:
  assumes "no_oom h" "iterations \<noteq> 0"
  shows "\<exists>h'. pbkdf2 h password salt dst iterations =
    Some (1, rfc_pbkdf2 EVP_sha512 password salt (unat iterations) (length dst), h')"
proof -
  have "0 < unat iterations"
    using assms(2) by (simp add: unat_gt_0)
  then show ?thesis
    by (cases rule: PKCS5_PBKDF2_HMAC_cases [OF order_refl [of "length dst"],
          of h password salt "unat iterations" EVP_sha512])
      (use assms in \<open>auto simp: pbkdf2_def max_def\<close>)
qed

end
