(* ===== verification/Wallet_Passcode.thy ===== *)
theory Wallet_Passcode
  imports Native_Entry
begin

text \<open>
  How the application uses the native entry points to protect a wallet with a passcode:
  \<open>onFinishWalletCreate\<close>, \<open>setUserPasscode\<close> and \<open>decryptTonData\<close> of \<open>TonController.java\<close> with the
  wrappers of \<open>Utilities.java\<close>. The layer of the Android key store under it (\<open>encrypt\<close> and
  \<open>decrypt\<close>, a cipher of the platform) is a parameter: the stored value is the argument of
  \<open>decryptTonData\<close> after that layer was removed, \<open>None\<close> when that failed. Random bytes and the bytes
  of the passcode are arguments.
\<close>

section \<open>The code\<close>

text \<open>\<open>Utilities.computePBKDF2\<close>. The status of \<open>pbkdf2\<close> is not looked at.\<close>

definition computePBKDF2 :: "heap \<Rightarrow> bytes \<Rightarrow> bytes \<Rightarrow> bytes option" where
  "computePBKDF2 h password salt = do {
     let dst = replicate 64 0;
     (_, dst, _) \<leftarrow> pbkdf2 h password salt dst 100000;
     Some dst
   }"

text \<open>\<open>Utilities.aesIgeEncryptionByteArray\<close> with \<open>changeIv = false\<close>: the buffer after the call.\<close>

record native =
  backend :: aes_backend
  unaligned_ok :: bool
  stack_key :: AES_KEY

definition aesIgeBuffer :: "native \<Rightarrow> bytes \<Rightarrow> bytes \<Rightarrow> bytes \<Rightarrow> bool \<Rightarrow> nat \<Rightarrow> nat \<Rightarrow> bytes option" where
  "aesIgeBuffer ntv buffer key iv encrypt offset len = do {
     (buffer, _) \<leftarrow> aesIgeEncryptionByteArray (backend ntv) (unaligned_ok ntv) (stack_key ntv)
       buffer key iv encrypt offset len;
     Some buffer
   }"

text \<open>
  \<open>onFinishWalletCreate\<close>: the layout of the protected data. \<open>rnd\<close> are the random bytes, of which the
  padding takes as many as it needs.
\<close>

definition wallet_padding :: "nat \<Rightarrow> nat" where
  "wallet_padding len = (let padding = len mod 16 in if padding \<noteq> 0 then 16 - padding else padding)"

definition wallet_data :: "bytes \<Rightarrow> bytes \<Rightarrow> bytes \<Rightarrow> bytes" where
  "wallet_data rnd password secret =
     (let padding = wallet_padding (1 + 2 + length password + length secret);
          pad = take padding rnd
      in [word_of_nat padding, 0x6f, 0x6b] @ password @ secret @ pad)"

text \<open>\<open>setUserPasscode\<close>, up to the key store.\<close>

definition setUserPasscode :: "native \<Rightarrow> heap \<Rightarrow> bytes \<Rightarrow> bytes \<Rightarrow> bytes \<Rightarrow> bytes option" where
  "setUserPasscode ntv h passcode salt dataForLaterEncrypt = do {
     hash \<leftarrow> computePBKDF2 h passcode salt;
     let key = take 32 hash;
     let iv = take 32 (drop 32 hash);
     aesIgeBuffer ntv dataForLaterEncrypt key iv True 0 (length dataForLaterEncrypt)
   }"

text \<open>
  \<open>decryptTonData\<close>. The outcomes are the password and the secret, an error reported through the
  callback, or a Java exception: the size of an array negative, or a copy out of bounds.
\<close>

datatype wallet_key =
    InputKey bytes bytes
  | KEYSTORE_FAIL
  | PASSCODE_INVALID
  | KEYSTORE_FAIL_DECRYPT
  | Java_exception

definition split_wallet_data :: "bytes \<Rightarrow> bytes \<Rightarrow> wallet_key" where
  "split_wallet_data passcode decrypted =
     (if decrypted ! 1 = 0x6f \<and> decrypted ! 2 = 0x6b then
        let padding = sint (decrypted ! 0);
            n = int (length decrypted) - 64 - padding - 3
        in if n < 0 then Java_exception
           else if length decrypted < 3 + 64 then Java_exception
           else if int (length decrypted) < 3 + 64 + n then Java_exception
           else InputKey (take 64 (drop 3 decrypted)) (take (nat n) (drop (3 + 64) decrypted))
      else if passcode \<noteq> [] then PASSCODE_INVALID else KEYSTORE_FAIL_DECRYPT)"

definition decryptTonData :: "native \<Rightarrow> heap \<Rightarrow> bytes \<Rightarrow> int \<Rightarrow> bytes \<Rightarrow> bytes option \<Rightarrow> wallet_key option" where
  "decryptTonData ntv h passcode passcodeType salt decrypted =
     (case decrypted of
        None \<Rightarrow> Some KEYSTORE_FAIL
      | Some decrypted \<Rightarrow>
          if length decrypted \<le> 3 then Some KEYSTORE_FAIL
          else if passcodeType \<noteq> -1 then do {
            hash \<leftarrow> computePBKDF2 h passcode salt;
            let key = take 32 hash;
            let iv = take 32 (drop 32 hash);
            decrypted \<leftarrow> aesIgeBuffer ntv decrypted key iv False 0 (length decrypted);
            Some (split_wallet_data passcode decrypted)
          } else Some (split_wallet_data passcode decrypted))"

section \<open>Lemmas\<close>

definition native_ok :: "native \<Rightarrow> bool" where
  "native_ok ntv \<longleftrightarrow> backend_ok (backend ntv) \<and> length (rd_key (stack_key ntv)) = 60"

lemma computePBKDF2_result:
  obtains "computePBKDF2 h password salt = Some (rfc_pbkdf2 EVP_sha512 password salt 100000 64)"
  | "computePBKDF2 h password salt = Some (replicate 64 0)" "False \<in> set h"
proof (cases rule: PKCS5_PBKDF2_HMAC_cases [OF eq_imp_le [OF length_replicate [of 64 0, symmetric]],
      of h password salt 100000 EVP_sha512])
  case (1 h')
  then show thesis
    by (intro that(1)) (simp add: computePBKDF2_def pbkdf2_def)
next
  case (2 h')
  then show thesis
    by (intro that(2)) (simp_all add: computePBKDF2_def pbkdf2_def)
qed

lemma aesIgeBuffer_result:
  assumes "native_ok ntv" "length iv = 32"
  shows "aesIgeBuffer ntv buffer key iv encrypt 0 (length buffer) = Some (ige_text encrypt key iv buffer)"
  using assms
  by (simp add: aesIgeBuffer_def native_ok_def aesIgeEncryptionByteArray_result memcpy_at_def)

lemma wallet_padding_less: "wallet_padding n < 16"
  by (simp add: wallet_padding_def Let_def)

text \<open>What a passcode protects, and how: AES-256 in IGE mode under the two halves of the PBKDF2 key.\<close>

definition passcode_key :: "bytes \<Rightarrow> bytes \<Rightarrow> bytes" where
  "passcode_key passcode salt = take 32 (rfc_pbkdf2 EVP_sha512 passcode salt 100000 64)"

definition passcode_iv :: "bytes \<Rightarrow> bytes \<Rightarrow> bytes" where
  "passcode_iv passcode salt = drop 32 (rfc_pbkdf2 EVP_sha512 passcode salt 100000 64)"

lemma length_passcode_keys [simp]:
  "length (passcode_key passcode salt) = 32" "length (passcode_iv passcode salt) = 32"
  by (simp_all add: passcode_key_def passcode_iv_def)

lemma setUserPasscode_result:
  assumes "native_ok ntv" "no_oom h"
  shows "setUserPasscode ntv h passcode salt d =
    Some (ige_text True (passcode_key passcode salt) (passcode_iv passcode salt) d)"
proof -
  have "computePBKDF2 h passcode salt = Some (rfc_pbkdf2 EVP_sha512 passcode salt 100000 64)"
    by (rule computePBKDF2_result [of h passcode salt]) (use assms(2) in auto)
  then show ?thesis
    using aesIgeBuffer_result [OF assms(1), of "passcode_iv passcode salt"]
    by (simp add: setUserPasscode_def passcode_key_def passcode_iv_def)
qed

lemma decryptTonData_result:
  assumes "native_ok ntv" "no_oom h" "3 < length d" "type \<noteq> -1"
  shows "decryptTonData ntv h passcode type salt (Some d) =
    Some (split_wallet_data passcode (ige_text False (passcode_key passcode salt) (passcode_iv passcode salt) d))"
proof -
  have "computePBKDF2 h passcode salt = Some (rfc_pbkdf2 EVP_sha512 passcode salt 100000 64)"
    by (rule computePBKDF2_result [of h passcode salt]) (use assms(2) in auto)
  then show ?thesis
    using aesIgeBuffer_result [OF assms(1), of "passcode_iv passcode salt"] assms(3,4)
    by (simp add: decryptTonData_def passcode_key_def passcode_iv_def)
qed

lemma split_wallet_data_wallet_data:
  assumes "length password = 64" "16 \<le> length rnd"
  shows "split_wallet_data passcode (wallet_data rnd password secret) = InputKey password secret"
proof -
  define padding where "padding = wallet_padding (1 + 2 + length password + length secret)"
  have p: "padding < 16"
    by (simp add: padding_def wallet_padding_less)
  then have len: "length (take padding rnd) = padding"
    using assms(2) by simp
  have "sint (word_of_nat padding :: u8) = int padding"
    using p by (simp add: signed_of_nat signed_take_bit_int_eq_self)
  moreover have "wallet_data rnd password secret = [word_of_nat padding, 0x6f, 0x6b] @ password @ secret @ take padding rnd"
    by (simp only: wallet_data_def Let_def padding_def)
  ultimately show ?thesis
    using assms(1) len by (simp add: split_wallet_data_def Let_def)
qed

section \<open>Properties\<close>

text \<open>
  C1: what \<open>setUserPasscode\<close> stores for a wallet, \<open>decryptTonData\<close> opens with the same passcode
  and salt: it returns the password and the secret that \<open>onFinishWalletCreate\<close> packed, for every
  length of the secret, all random bytes and every passcode. This runs through the whole native path,
  PBKDF2 with HMAC-SHA-512 and AES-256 in IGE mode.
\<close>

theorem wallet_passcode_roundtrip:
  assumes "native_ok ntv" "no_oom h" "no_oom h'" "length password = 64" "16 \<le> length rnd" "passcodeType \<noteq> -1"
  shows "\<exists>stored. setUserPasscode ntv h passcode salt (wallet_data rnd password secret) = Some stored \<and>
    decryptTonData ntv h' passcode passcodeType salt (Some stored) = Some (InputKey password secret)"
proof -
  let ?d = "wallet_data rnd password secret"
  let ?c = "ige_text True (passcode_key passcode salt) (passcode_iv passcode salt) ?d"
  have "3 < length ?c"
    using assms(4) by (simp add: wallet_data_def Let_def)
  from decryptTonData_result [OF assms(1,3) this assms(6)]
  have "decryptTonData ntv h' passcode passcodeType salt (Some ?c) = Some (InputKey password secret)"
    by (simp add: ige_text_decrypt_encrypt split_wallet_data_wallet_data [OF assms(4,5)])
  then show ?thesis
    using setUserPasscode_result [OF assms(1,2)] by blast
qed

theorem wallet_passcode_roundtrip_witness:
  "\<exists>stored. setUserPasscode \<lparr>backend = soft_backend, unaligned_ok = False, stack_key = blank_key\<rparr> []
      [0x31, 0x32, 0x33, 0x34] (replicate 32 9) (wallet_data (replicate 16 4) (replicate 64 5) (replicate 32 6)) = Some stored \<and>
    decryptTonData \<lparr>backend = soft_backend, unaligned_ok = False, stack_key = blank_key\<rparr> []
      [0x31, 0x32, 0x33, 0x34] 0 (replicate 32 9) (Some stored) = Some (InputKey (replicate 64 5) (replicate 32 6))"
  by (rule wallet_passcode_roundtrip) (simp_all add: native_ok_def soft_backend_ok)

text \<open>The protected data is a whole number of blocks, and its first byte is the length of the padding.\<close>

lemma wallet_data_fills_blocks:
  assumes "16 \<le> length rnd"
  shows "length (wallet_data rnd password secret) mod 16 = 0 \<and>
    length (wallet_data rnd password secret) =
      3 + length password + length secret + unat (wallet_data rnd password secret ! 0) \<and>
    unat (wallet_data rnd password secret ! 0) < 16"
proof -
  define n where "n = 3 + length password + length secret"
  have p: "wallet_padding n < 16"
    by (rule wallet_padding_less)
  then have u: "unat (word_of_nat (wallet_padding n) :: u8) = wallet_padding n"
    by (simp add: unat_word_of_nat_mod)
  have d: "wallet_data rnd password secret =
      [word_of_nat (wallet_padding n), 0x6f, 0x6b] @ password @ secret @ take (wallet_padding n) rnd"
  proof -
    have "1 + 2 + length password + length secret = n"
      by (simp add: n_def)
    then show ?thesis
      by (simp only: wallet_data_def Let_def)
  qed
  have "(n + wallet_padding n) mod 16 = 0"
  proof (cases "n mod 16 = 0")
    case False
    then have "(n mod 16 + (16 - n mod 16)) mod 16 = 0"
      by simp
    then show ?thesis
      using False by (simp only: wallet_padding_def Let_def if_True mod_add_left_eq simp_thms)
  qed (simp add: wallet_padding_def)
  moreover have "length (wallet_data rnd password secret) = n + wallet_padding n"
    using assms p unfolding d by (simp add: n_def)
  moreover have "wallet_data rnd password secret ! 0 = word_of_nat (wallet_padding n)"
    by (simp add: d)
  ultimately show ?thesis
    using p u by (simp only: n_def [symmetric] simp_thms)
qed

text \<open>
  C18: \<open>computePBKDF2\<close> does not look at the status of the native function: it returns 64 bytes in
  every case, and when the first allocation fails these are all zero, so that the caller goes on with
  a key and a chaining vector that do not depend on the passcode.
\<close>

theorem computePBKDF2_outcomes:
  "(computePBKDF2 h password salt = Some (rfc_pbkdf2 EVP_sha512 password salt 100000 64) \<or>
    computePBKDF2 h password salt = Some (replicate 64 0)) \<and>
   computePBKDF2 (False # h) password salt = Some (replicate 64 0)"
proof -
  have "computePBKDF2 (False # h) password salt = Some (replicate 64 0)"
    if "length password \<le> 128"
    using that by (simp add: computePBKDF2_def pbkdf2_def PKCS5_PBKDF2_HMAC_def HMAC_Init_ex_def HMAC_rekey_def
      HMAC_key_block_def HMAC_pad_ctx_def HMAC_CTX_init_def EVP_MD_CTX_init_def EVP_DigestInit_ex_def OPENSSL_malloc_def Let_def)
  moreover have "computePBKDF2 (False # h) password salt = Some (replicate 64 0)"
    if "\<not> length password \<le> 128"
    using that by (simp add: computePBKDF2_def pbkdf2_def PKCS5_PBKDF2_HMAC_def HMAC_Init_ex_def HMAC_rekey_def
      HMAC_key_block_def HMAC_CTX_init_def EVP_MD_CTX_init_def EVP_DigestInit_ex_def OPENSSL_malloc_def Let_def)
  ultimately show ?thesis
    using computePBKDF2_result [of h password salt] by metis
qed

end
