(* ===== verification/Td_Crypto.thy ===== *)
theory Td_Crypto
  imports Native_Entry
begin

text \<open>
  \<open>app/jni/ton/td/utils/crypto.cpp\<close>: the layer through which the TON client library uses the
  cryptographic library. A failed \<open>CHECK\<close>, a \<open>narrow_cast\<close> that loses bits and \<open>LOG(FATAL)\<close> end the
  process; that is the result \<open>None\<close> here. A \<open>Slice\<close> is its bytes; a \<open>MutableSlice\<close> that a function
  writes is an argument with the old contents, of which the new contents are returned.
\<close>

text \<open>
  What the functions find on the machine: the implementations of AES, and what happens to lie on the
  stack where they put their local key schedule and hash contexts.
\<close>

record cpu =
  cpu_aes :: aes_backend
  cpu_cbc :: hw_cbc
  cpu_key :: AES_KEY
  cpu_sha256 :: SHA256_CTX
  cpu_sha512 :: SHA512_CTX

definition cpu_ok :: "cpu \<Rightarrow> bool" where
  "cpu_ok c \<longleftrightarrow> backend_ok (cpu_aes c) \<and> hw_cbc_ok (cpu_aes c) (cpu_cbc c) \<and>
     length (rd_key (cpu_key c)) = 60 \<and> length (sha512_p (cpu_sha512 c)) = 128"

text \<open>\<open>narrow_cast<int>\<close> of a size.\<close>

definition fits_int :: "nat \<Rightarrow> bool" where
  "fits_int n \<longleftrightarrow> n < 2 ^ 31"

section \<open>Hashes\<close>

definition sha256_into :: "cpu \<Rightarrow> bytes \<Rightarrow> bytes \<Rightarrow> bytes option" where
  "sha256_into c data output =
     (if 32 \<le> length output then Some (memcpy_at output 0 (SHA256 (cpu_sha256 c) data)) else None)"

definition sha512_into :: "cpu \<Rightarrow> bytes \<Rightarrow> bytes \<Rightarrow> bytes option" where
  "sha512_into c data output =
     (if 64 \<le> length output then Some (memcpy_at output 0 (SHA512 (cpu_sha512 c) data)) else None)"

definition td_sha256 :: "cpu \<Rightarrow> bytes \<Rightarrow> bytes option" where
  "td_sha256 c data = sha256_into c data (replicate 32 0)"

definition td_sha512 :: "cpu \<Rightarrow> bytes \<Rightarrow> bytes option" where
  "td_sha512 c data = sha512_into c data (replicate 64 0)"

text \<open>
  \<open>Sha256State\<close>: the context behind a pointer that may be empty, and a flag. \<open>extract\<close> with
  \<open>destroy\<close> drops the context. The destructor extracts what is left.
\<close>

record Sha256State =
  impl :: "SHA256_CTX option"
  is_inited :: bool

definition Sha256State_new :: Sha256State where
  "Sha256State_new = \<lparr>impl = None, is_inited = False\<rparr>"

definition Sha256State_init :: "cpu \<Rightarrow> Sha256State \<Rightarrow> Sha256State option" where
  "Sha256State_init c s =
     (let ctx = (case impl s of None \<Rightarrow> cpu_sha256 c | Some ctx \<Rightarrow> ctx) in
      if is_inited s then None
      else
        let (err, ctx) = SHA256_Init ctx
        in if err \<noteq> 1 then None else Some \<lparr>impl = Some ctx, is_inited = True\<rparr>)"

definition Sha256State_feed :: "Sha256State \<Rightarrow> bytes \<Rightarrow> Sha256State option" where
  "Sha256State_feed s data = do {
     ctx \<leftarrow> impl s;
     if \<not> is_inited s then None
     else
       let (err, ctx) = SHA256_Update ctx data
       in if err \<noteq> 1 then None else Some (s\<lparr>impl := Some ctx\<rparr>)
   }"

definition Sha256State_extract :: "Sha256State \<Rightarrow> bytes \<Rightarrow> bool \<Rightarrow> (bytes \<times> Sha256State) option" where
  "Sha256State_extract s output destroy =
     (if \<not> 32 \<le> length output then None
      else do {
        ctx \<leftarrow> impl s;
        if \<not> is_inited s then None
        else
          let (err, md, ctx) = SHA256_Final ctx
          in if err \<noteq> 1 then None
             else Some (memcpy_at output 0 md,
               \<lparr>impl = (if destroy then None else Some ctx), is_inited = False\<rparr>)
      })"

definition Sha256State_delete :: "Sha256State \<Rightarrow> Sha256State option" where
  "Sha256State_delete s =
     (if is_inited s then do {
        (_, s) \<leftarrow> Sha256State_extract s (replicate 32 0) False;
        if is_inited s then None else Some s
      } else Some s)"

section \<open>HMAC and PBKDF2\<close>

definition hmac_into :: "heap \<Rightarrow> EVP_MD \<Rightarrow> bytes \<Rightarrow> bytes \<Rightarrow> bytes \<Rightarrow> (bytes \<times> heap) option" where
  "hmac_into h md key message dest =
     (if length dest \<noteq> EVP_MD_size md then None
      else if \<not> fits_int (length key) \<or> \<not> fits_int (length message) then None
      else do {
        (result, h) \<leftarrow> HMAC h md (Some key) message True;
        out \<leftarrow> result;
        if length out \<noteq> length dest then None else Some (memcpy_at dest 0 out, h)
      })"

definition hmac_sha256 :: "heap \<Rightarrow> bytes \<Rightarrow> bytes \<Rightarrow> bytes \<Rightarrow> (bytes \<times> heap) option" where
  "hmac_sha256 h key message dest = hmac_into h EVP_sha256 key message dest"

definition hmac_sha512 :: "heap \<Rightarrow> bytes \<Rightarrow> bytes \<Rightarrow> bytes \<Rightarrow> (bytes \<times> heap) option" where
  "hmac_sha512 h key message dest = hmac_into h EVP_sha512 key message dest"

definition pbkdf2_impl ::
  "heap \<Rightarrow> bytes \<Rightarrow> bytes \<Rightarrow> int \<Rightarrow> bytes \<Rightarrow> EVP_MD \<Rightarrow> (bytes \<times> heap) option" where
  "pbkdf2_impl h password salt iteration_count dest md =
     (if length dest \<noteq> EVP_MD_size md then None
      else if \<not> 0 < iteration_count then None
      else if \<not> fits_int (length password) \<or> \<not> fits_int (length salt) then None
      else do {
        (err, dest, h) \<leftarrow> PKCS5_PBKDF2_HMAC h password salt (nat iteration_count) md (length dest) dest;
        if err \<noteq> 1 then None else Some (dest, h)
      })"

definition pbkdf2_sha256 :: "heap \<Rightarrow> bytes \<Rightarrow> bytes \<Rightarrow> int \<Rightarrow> bytes \<Rightarrow> (bytes \<times> heap) option" where
  "pbkdf2_sha256 h password salt iteration_count dest = pbkdf2_impl h password salt iteration_count dest EVP_sha256"

definition pbkdf2_sha512 :: "heap \<Rightarrow> bytes \<Rightarrow> bytes \<Rightarrow> int \<Rightarrow> bytes \<Rightarrow> (bytes \<times> heap) option" where
  "pbkdf2_sha512 h password salt iteration_count dest = pbkdf2_impl h password salt iteration_count dest EVP_sha512"

section \<open>AES in CBC mode\<close>

text \<open>
  The new contents of \<open>to\<close> and of \<open>aes_iv\<close>. The three buffers do not overlap; they are put next to
  each other in one flat memory.
\<close>

definition aes_cbc_xcrypt :: "cpu \<Rightarrow> bytes \<Rightarrow> bytes \<Rightarrow> bytes \<Rightarrow> bytes \<Rightarrow> bool \<Rightarrow> (bytes \<times> bytes) option" where
  "aes_cbc_xcrypt c aes_key aes_iv from to encrypt_flag =
     (if length aes_key \<noteq> 32 then None
      else if length aes_iv \<noteq> 16 then None
      else
        let (err, key) =
              (if encrypt_flag then AES_set_encrypt_key (cpu_aes c) (Some aes_key) 256 (Some (cpu_key c))
               else AES_set_decrypt_key (cpu_aes c) (Some aes_key) 256 (Some (cpu_key c)))
        in if err \<noteq> 0 then None
           else if \<not> length from \<le> length to then None
           else do {
             key \<leftarrow> key;
             let ivec = length from + length to;
             let m = AES_cbc_encrypt (cpu_aes c) (cpu_cbc c) (from @ to @ aes_iv) 0 (length from)
                       (length from) key ivec (if encrypt_flag then 1 else 0);
             Some (load (length to) m (length from), load 16 m ivec)
           })"

record AesCbcState =
  cbc_key :: bytes
  cbc_iv :: bytes

definition AesCbcState_new :: "bytes \<Rightarrow> bytes \<Rightarrow> AesCbcState option" where
  "AesCbcState_new key256 iv128 =
     (if length key256 = 32 \<and> length iv128 = 16 then Some \<lparr>cbc_key = key256, cbc_iv = iv128\<rparr> else None)"

definition AesCbcState_encrypt :: "cpu \<Rightarrow> AesCbcState \<Rightarrow> bytes \<Rightarrow> bytes \<Rightarrow> (bytes \<times> AesCbcState) option" where
  "AesCbcState_encrypt c s from to = do {
     (to, iv) \<leftarrow> aes_cbc_xcrypt c (cbc_key s) (cbc_iv s) from to True;
     Some (to, s\<lparr>cbc_iv := iv\<rparr>)
   }"

definition AesCbcState_decrypt :: "cpu \<Rightarrow> AesCbcState \<Rightarrow> bytes \<Rightarrow> bytes \<Rightarrow> (bytes \<times> AesCbcState) option" where
  "AesCbcState_decrypt c s from to = do {
     (to, iv) \<leftarrow> aes_cbc_xcrypt c (cbc_key s) (cbc_iv s) from to False;
     Some (to, s\<lparr>cbc_iv := iv\<rparr>)
   }"

section \<open>AES in counter mode\<close>

text \<open>
  \<open>AesCtrState::Impl\<close>. The counter is incremented as a big-endian number: the loop from the last
  byte stops at the first that does not become zero.
\<close>

record AesCtrState =
  ctr_key :: AES_KEY
  counter :: bytes
  encrypted_counter :: bytes
  current_pos :: nat

fun ctr_increment :: "nat \<Rightarrow> bytes \<Rightarrow> bytes" where
  "ctr_increment 0 ptr = ptr[0 := ptr ! 0 + 1]"
| "ctr_increment (Suc j) ptr =
     (let ptr = ptr[Suc j := ptr ! Suc j + 1]
      in if ptr ! Suc j \<noteq> 0 then ptr else ctr_increment j ptr)"

definition AesCtrState_new :: "cpu \<Rightarrow> bytes \<Rightarrow> bytes \<Rightarrow> AesCtrState option" where
  "AesCtrState_new c key iv =
     (if length key \<noteq> 32 \<or> length iv \<noteq> 16 then None
      else
        let (err, aes_key) = AES_set_encrypt_key (cpu_aes c) (Some key) 256 (Some (cpu_key c))
        in if err < 0 then None
           else do {
             aes_key \<leftarrow> aes_key;
             Some \<lparr>ctr_key = aes_key, counter = memcpy_at (replicate 16 0) 0 iv,
                   encrypted_counter = replicate 16 0, current_pos = 0\<rparr>
           })"

definition ctr_step :: "cpu \<Rightarrow> AesCtrState \<Rightarrow> u8 \<Rightarrow> u8 \<times> AesCtrState" where
  "ctr_step c s b =
     (let s = (if current_pos s = 0 then
                 s\<lparr>encrypted_counter := AES_encrypt (cpu_aes c) (counter s) (ctr_key s),
                   counter := ctr_increment 15 (counter s)\<rparr>
               else s)
      in (b XOR encrypted_counter s ! current_pos s, s\<lparr>current_pos := (current_pos s + 1) AND 15\<rparr>))"

fun ctr_run :: "cpu \<Rightarrow> AesCtrState \<Rightarrow> bytes \<Rightarrow> bytes \<times> AesCtrState" where
  "ctr_run c s [] = ([], s)"
| "ctr_run c s (b # bs) =
     (let (x, s) = ctr_step c s b; (xs, s) = ctr_run c s bs in (x # xs, s))"

definition AesCtrState_encrypt :: "cpu \<Rightarrow> AesCtrState \<Rightarrow> bytes \<Rightarrow> bytes \<Rightarrow> (bytes \<times> AesCtrState) option" where
  "AesCtrState_encrypt c s from to =
     (if \<not> length from \<le> length to then None
      else let (out, s) = ctr_run c s from in Some (memcpy_at to 0 out, s))"

definition AesCtrState_decrypt :: "cpu \<Rightarrow> AesCtrState \<Rightarrow> bytes \<Rightarrow> bytes \<Rightarrow> (bytes \<times> AesCtrState) option" where
  "AesCtrState_decrypt c s from to = AesCtrState_encrypt c s from to"

section \<open>What the layer computes\<close>

lemma td_hashes:
  assumes "cpu_ok c"
  shows "td_sha256 c data = Some (fips_sha256 data)" "td_sha512 c data = Some (fips_sha512 data)"
proof -
  have "SHA256 (cpu_sha256 c) data = fips_sha256 data"
    using sha256_one_shot by blast
  then show "td_sha256 c data = Some (fips_sha256 data)"
    by (simp add: td_sha256_def sha256_into_def memcpy_at_def length_fips_hash256)
  have "SHA512 (cpu_sha512 c) data = fips_sha512 data"
    using sha512_one_shot assms by (simp add: cpu_ok_def)
  then show "td_sha512 c data = Some (fips_sha512 data)"
    by (simp add: td_sha512_def sha512_into_def memcpy_at_def length_fips_hash512)
qed

lemma hmac_into_result:
  assumes "no_oom h" "fits_int (length key)" "fits_int (length message)" "length dest = EVP_MD_size md"
  obtains h' where "hmac_into h md key message dest = Some (fips_hmac md key message, h')" "no_oom h'"
  using assms by (cases rule: HMAC_cases [of h md key message True])
    (fastforce simp: hmac_into_def memcpy_at_def)+

lemma hmac_into_SomeD:
  assumes "hmac_into h md key message dest = Some (out, h')"
  shows "out = fips_hmac md key message" "fits_int (length key)" "fits_int (length message)" "no_oom h \<Longrightarrow> no_oom h'"
  using assms by (cases rule: HMAC_cases [of h md key message True];
      fastforce simp: hmac_into_def memcpy_at_def split: if_splits)+

lemma pbkdf2_impl_result:
  assumes "no_oom h" "fits_int (length password)" "fits_int (length salt)" "length dest = EVP_MD_size md"
    "0 < iteration_count"
  obtains h' where "pbkdf2_impl h password salt iteration_count dest md =
      Some (rfc_pbkdf2 md password salt (nat iteration_count) (EVP_MD_size md), h')" "no_oom h'"
proof (cases rule: PKCS5_PBKDF2_HMAC_cases [of "length dest" dest h password salt "nat iteration_count" md])
  case (2 h')
  then show thesis
    using assms by (intro that(1) [of h']) (auto simp: pbkdf2_impl_def Let_def max_def)
qed (use assms in auto)

lemma pbkdf2_impl_SomeD:
  assumes "pbkdf2_impl h password salt iteration_count dest md = Some (out, h')"
  shows "out = rfc_pbkdf2 md password salt (nat iteration_count) (EVP_MD_size md)" "no_oom h \<Longrightarrow> no_oom h'"
proof -
  from assms have a: "length dest = EVP_MD_size md" "0 < iteration_count"
    "PKCS5_PBKDF2_HMAC h password salt (nat iteration_count) md (length dest) dest = Some (1, out, h')"
    by (auto simp: pbkdf2_impl_def bind_eq_Some_conv split: if_splits)
  have n: "nat iteration_count \<noteq> 0" "max 1 (nat iteration_count) = nat iteration_count"
    using a(2) by auto
  have "out = rfc_pbkdf2 md password salt (nat iteration_count) (EVP_MD_size md) \<and> set h' \<subseteq> set h"
  proof (cases rule: PKCS5_PBKDF2_HMAC_cases [of "length dest" dest h password salt "nat iteration_count" md])
    case (2 h1)
    then show ?thesis
      using a(1,3) n by simp
  qed (use a in simp_all)
  then show "out = rfc_pbkdf2 md password salt (nat iteration_count) (EVP_MD_size md)" "no_oom h \<Longrightarrow> no_oom h'"
    by auto
qed

lemma aes256_key_set:
  assumes "cpu_ok c" "length key = 32"
  obtains ek dk where
    "AES_set_encrypt_key (cpu_aes c) (Some key) 256 (Some (cpu_key c)) = (0, Some ek)"
    "\<And>b. length b = 16 \<Longrightarrow> AES_encrypt (cpu_aes c) b ek = aes256 key b"
    "AES_set_decrypt_key (cpu_aes c) (Some key) 256 (Some (cpu_key c)) = (0, Some dk)"
    "\<And>b. length b = 16 \<Longrightarrow> AES_decrypt (cpu_aes c) b dk = aes256_inv key b"
proof -
  have be: "backend_ok (cpu_aes c)" and ak: "length (rd_key (cpu_key c)) = 60"
    using assms(1) by (simp_all add: cpu_ok_def)
  obtain ek where ek: "AES_set_encrypt_key (cpu_aes c) (Some key) 256 (Some (cpu_key c)) = (0, Some ek)"
    and E: "\<And>b. length b = 16 \<Longrightarrow> AES_encrypt (cpu_aes c) b ek = aes256 key b"
    by (rule implements_aesD [OF AES_encrypt_implements [OF be], of 256 "cpu_key c" key])
      (simp_all add: ak aes_rounds_def)
  obtain dk where dk: "AES_set_decrypt_key (cpu_aes c) (Some key) 256 (Some (cpu_key c)) = (0, Some dk)"
    and D: "\<And>b. length b = 16 \<Longrightarrow> AES_decrypt (cpu_aes c) b dk = aes256_inv key b"
    by (rule implements_aesD [OF AES_decrypt_implements [OF be], of 256 "cpu_key c" key])
      (simp_all add: ak aes_rounds_def)
  show thesis
    using that [OF ek E dk D] .
qed

lemma aes_cbc_xcrypt_result:
  assumes "cpu_ok c" "length key = 32" "length iv = 16" "16 dvd length from" "length to = length from"
  shows "aes_cbc_xcrypt c key iv from to True =
      Some (cbc_text (aes256 key) iv from,
        last (iv # cbc_enc_blocks (aes256 key) iv (blocks from 0 (length from div 16))))"
    "aes_cbc_xcrypt c key iv from to False =
      Some (cbc_plain (aes256_inv key) iv from, last (iv # blocks from 0 (length from div 16)))"
proof -
  obtain ek dk where
    ek: "AES_set_encrypt_key (cpu_aes c) (Some key) 256 (Some (cpu_key c)) = (0, Some ek)" and
    E: "\<And>b. length b = 16 \<Longrightarrow> AES_encrypt (cpu_aes c) b ek = aes256 key b" and
    dk: "AES_set_decrypt_key (cpu_aes c) (Some key) 256 (Some (cpu_key c)) = (0, Some dk)" and
    D: "\<And>b. length b = 16 \<Longrightarrow> AES_decrypt (cpu_aes c) b dk = aes256_inv key b"
    using aes256_key_set [OF assms(1,2)] by blast
  have hw: "hw_cbc_ok (cpu_aes c) (cpu_cbc c)"
    using assms(1) by (simp add: cpu_ok_def)
  let ?n = "length from"
  have lE: "\<And>b. length b = 16 \<Longrightarrow> length (AES_encrypt (cpu_aes c) b ek) = 16"
    and lD: "\<And>b. length b = 16 \<Longrightarrow> length (AES_decrypt (cpu_aes c) b dk) = 16"
    by (simp_all add: E D)
  note bufE = cbc_result_buffers [OF assms(4,5,3), of "\<lambda>b. AES_encrypt (cpu_aes c) b ek", OF lE]
  note bufD = cbc_result_buffers [OF assms(4,5,3), of "\<lambda>b. AES_decrypt (cpu_aes c) b dk", OF lD]
  have bs: "all_blocks (blocks from 0 (?n div 16))"
    using assms(4) by simp
  have iv: "?n + length to = 2 * ?n"
    using assms(5) by simp
  have t: "cbc_text (\<lambda>b. AES_encrypt (cpu_aes c) b ek) iv from = cbc_text (aes256 key) iv from"
    by (rule cbc_text_cong) (use E assms in auto)
  have l: "cbc_enc_blocks (\<lambda>b. AES_encrypt (cpu_aes c) b ek) iv (blocks from 0 (?n div 16)) =
      cbc_enc_blocks (aes256 key) iv (blocks from 0 (?n div 16))"
    by (rule cbc_enc_blocks_cong) (use E bs assms in auto)
  have "AES_cbc_encrypt (cpu_aes c) (cpu_cbc c) (from @ to @ iv) 0 ?n ?n ek (2 * ?n) 1 =
      cbc_enc_result (\<lambda>b. AES_encrypt (cpu_aes c) b ek) (from @ to @ iv) 0 ?n ?n (2 * ?n)"
    using AES_cbc_encrypt_refines [OF hw bufE(1) lE] by (simp add: AES_ENCRYPT_def)
  then show "aes_cbc_xcrypt c key iv from to True =
      Some (cbc_text (aes256 key) iv from, last (iv # cbc_enc_blocks (aes256 key) iv (blocks from 0 (?n div 16))))"
    using assms unfolding aes_cbc_xcrypt_def iv
    by (simp add: ek bufE(2,4) t l del: last.simps)
  have t': "cbc_plain (\<lambda>b. AES_decrypt (cpu_aes c) b dk) iv from = cbc_plain (aes256_inv key) iv from"
    by (rule cbc_plain_cong) (use D assms in auto)
  have "AES_cbc_encrypt (cpu_aes c) (cpu_cbc c) (from @ to @ iv) 0 ?n ?n dk (2 * ?n) 0 =
      cbc_dec_result (\<lambda>b. AES_decrypt (cpu_aes c) b dk) (from @ to @ iv) 0 ?n ?n (2 * ?n)"
    using AES_cbc_decrypt_refines [OF hw bufD(1) lD] by (simp add: AES_DECRYPT_def)
  then show "aes_cbc_xcrypt c key iv from to False =
      Some (cbc_plain (aes256_inv key) iv from, last (iv # blocks from 0 (?n div 16)))"
    using assms unfolding aes_cbc_xcrypt_def iv
    by (simp add: dk bufD(3,5) t' del: last.simps)
qed

text \<open>The inverse cipher is a permutation of the blocks, so it can also be undone by the cipher.\<close>

context block_cipher
begin

lemma enc_dec:
  assumes "valid k" "length b = 16"
  shows "enc k (dec k b) = b"
proof -
  let ?B = "{b :: bytes. length b = 16}"
  have "finite ?B"
    using finite_lists_length_eq [of "UNIV :: u8 set" 16] by simp
  moreover have "inj_on (enc k) ?B"
    using dec_enc [OF assms(1)] by (intro inj_on_inverseI [of _ "dec k"]) simp
  moreover have "enc k ` ?B \<subseteq> ?B"
    using length_enc [OF assms(1)] by auto
  ultimately have "enc k ` ?B = ?B"
    by (intro endo_inj_surj)
  then obtain c where "length c = 16" "b = enc k c"
    using assms(2) by (metis (mono_tags, lifting) imageE mem_Collect_eq)
  then show ?thesis
    using dec_enc [OF assms(1)] by simp
qed

lemma cbc_enc_dec:
  assumes "valid k" "all_blocks cs" "length iv = 16"
  shows "cbc_enc_blocks (enc k) iv (cbc_dec_blocks (dec k) iv cs) = cs"
  using assms(2-3)
  by (induction cs arbitrary: iv) (simp_all add: Let_def enc_dec length_dec assms(1) xor_bytes_cancel)

lemma cbc_text_plain:
  assumes "valid k" "16 dvd length msg" "length iv = 16"
  shows "cbc_text (enc k) iv (cbc_plain (dec k) iv msg) = msg"
proof -
  let ?cs = "blocks msg 0 (length msg div 16)"
  let ?ps = "cbc_dec_blocks (dec k) iv ?cs"
  have cs: "all_blocks ?cs" using assms(2) by simp
  then have ps: "all_blocks ?ps"
    using assms by (intro cbc_dec_blocks_all) (simp_all add: length_dec)
  then have "length (concat ?ps) div 16 = length ?ps"
    by (simp add: length_concat_blocks)
  then have "cbc_text (enc k) iv (cbc_plain (dec k) iv msg) = concat (cbc_enc_blocks (enc k) iv ?ps)"
    using blocks_concat [OF ps] by (simp add: cbc_plain_def cbc_text_def)
  then show ?thesis
    using cs assms by (simp add: cbc_enc_dec concat_blocks_whole)
qed

end

section \<open>The hash object\<close>

definition sha256_state_holds :: "bytes \<Rightarrow> Sha256State \<Rightarrow> bool" where
  "sha256_state_holds m s \<longleftrightarrow> is_inited s \<and>
     (\<exists>ctx. impl s = Some ctx \<and> sha256_ctx fips_iv256 32 m ctx)"

lemma Sha256State_init_holds:
  assumes "\<not> is_inited s"
  obtains s' where "Sha256State_init c s = Some s'" "sha256_state_holds [] s'"
proof -
  obtain ctx where "SHA256_Init (case impl s of None \<Rightarrow> cpu_sha256 c | Some ctx \<Rightarrow> ctx) = (1, ctx)"
    "sha256_ctx fips_iv256 32 [] ctx"
    using sha256_ctx_init(1) by blast
  with assms show thesis
    by (intro that [of "\<lparr>impl = Some ctx, is_inited = True\<rparr>"])
      (simp_all add: Sha256State_init_def sha256_state_holds_def)
qed

lemma Sha256State_feed_holds:
  assumes "sha256_state_holds m s"
  obtains s' where "Sha256State_feed s d = Some s'" "sha256_state_holds (m @ d) s'"
proof -
  obtain ctx where ctx: "impl s = Some ctx" "sha256_ctx fips_iv256 32 m ctx"
    using assms by (auto simp: sha256_state_holds_def)
  obtain ctx' where "SHA256_Update ctx d = (1, ctx')" "sha256_ctx fips_iv256 32 (m @ d) ctx'"
    using sha256_ctx_update [OF ctx(2)] by blast
  with assms ctx show thesis
    by (intro that [of "s\<lparr>impl := Some ctx'\<rparr>"]) (simp_all add: Sha256State_feed_def sha256_state_holds_def)
qed

lemma Sha256State_extract_holds:
  assumes "sha256_state_holds m s" "32 \<le> length output"
  obtains s' where "Sha256State_extract s output destroy = Some (memcpy_at output 0 (fips_sha256 m), s')"
    "\<not> is_inited s'" "impl s' = None \<longleftrightarrow> destroy"
proof -
  obtain ctx where ctx: "impl s = Some ctx" "sha256_ctx fips_iv256 32 m ctx"
    using assms by (auto simp: sha256_state_holds_def)
  obtain ctx' where "SHA256_Final ctx = (1, fips_sha256 m, ctx')"
    using sha256_ctx_final [OF ctx(2)] by auto
  with assms ctx show thesis
    by (intro that [of "\<lparr>impl = (if destroy then None else Some ctx'), is_inited = False\<rparr>"])
      (simp_all add: Sha256State_extract_def sha256_state_holds_def)
qed

interpretation sha256_state: streaming_hash sha256_state_holds "\<lambda>s d. the (Sha256State_feed s d)"
  "\<lambda>s. fst (the (Sha256State_extract s (replicate 32 0) False))" fips_sha256
proof
  fix m d s
  assume s: "sha256_state_holds m s"
  show "sha256_state_holds (m @ d) (the (Sha256State_feed s d))"
    by (rule Sha256State_feed_holds [OF s, of d]) simp
  show "fst (the (Sha256State_extract s (replicate 32 0) False)) = fips_sha256 m"
    by (rule Sha256State_extract_holds [OF s, of "replicate 32 0" False])
      (simp_all add: memcpy_at_def length_fips_hash256)
qed

section \<open>Counter mode\<close>

lemma be_of_nat_snoc: "be_of_nat (Suc k) n = be_of_nat k (n div 256) @ [word_of_nat n]"
  using be_of_nat_append [of k n 1] by (simp add: be_of_nat_def)

lemma word_of_nat_zero_iff: "(word_of_nat n :: u8) = 0 \<longleftrightarrow> n mod 256 = 0"
  by (simp add: word_of_nat_eq_0_iff dvd_eq_mod_eq_0)

lemma ctr_increment_spec:
  "ctr_increment j (be_of_nat (Suc j) n @ rest) = be_of_nat (Suc j) (Suc n) @ rest"
proof (induction j arbitrary: n rest)
  case 0
  then show ?case by (simp add: be_of_nat_def)
next
  case (Suc j)
  let ?w = "word_of_nat (Suc n) :: u8"
  have b: "be_of_nat (Suc (Suc j)) n @ rest = be_of_nat (Suc j) (n div 256) @ word_of_nat n # rest"
    by (simp add: be_of_nat_snoc [of "Suc j"])
  have upd: "ctr_increment (Suc j) (xs @ w # rest) =
      (if w + 1 \<noteq> 0 then xs @ (w + 1) # rest else ctr_increment j (xs @ 0 # rest))"
    if "length xs = Suc j" for xs :: bytes and w
    using that by (simp add: nth_append list_update_append Let_def)
  show ?case
  proof (cases "?w = 0")
    case True
    then have m: "Suc n mod 256 = 0"
      using word_of_nat_zero_iff by blast
    then have "Suc n div 256 = Suc (n div 256)"
      by (simp add: div_Suc)
    then show ?thesis
      using Suc [of "n div 256" "0 # rest"] True
      unfolding b upd [OF length_be_of_nat] by (simp add: be_of_nat_snoc [of "Suc j" "Suc n"] add.commute)
  next
    case False
    then have m: "Suc n mod 256 \<noteq> 0"
      using word_of_nat_zero_iff by blast
    then have "Suc n div 256 = n div 256"
      by (simp add: div_Suc)
    then show ?thesis
      using False
      unfolding b upd [OF length_be_of_nat] by (simp add: be_of_nat_snoc [of "Suc j" "Suc n"] add.commute)
  qed
qed

text \<open>The key stream of the mode: byte \<open>i\<close> under the initial counter \<open>n\<close>.\<close>

definition ctr_stream :: "bytes \<Rightarrow> nat \<Rightarrow> nat \<Rightarrow> u8" where
  "ctr_stream key n i = aes256 key (be_of_nat 16 (n + i div 16)) ! (i mod 16)"

definition ctr_holds :: "cpu \<Rightarrow> bytes \<Rightarrow> nat \<Rightarrow> nat \<Rightarrow> AesCtrState \<Rightarrow> bool" where
  "ctr_holds c key n i s \<longleftrightarrow>
     (\<forall>b. length b = 16 \<longrightarrow> AES_encrypt (cpu_aes c) b (ctr_key s) = aes256 key b) \<and>
     current_pos s = i mod 16 \<and> counter s = be_of_nat 16 (n + (i + 15) div 16) \<and>
     (i mod 16 \<noteq> 0 \<longrightarrow> encrypted_counter s = aes256 key (be_of_nat 16 (n + i div 16)))"

lemma AesCtrState_new_holds:
  assumes "cpu_ok c" "length key = 32"
  obtains s where "AesCtrState_new c key (be_of_nat 16 n) = Some s" "ctr_holds c key n 0 s"
proof -
  obtain ek where ek: "AES_set_encrypt_key (cpu_aes c) (Some key) 256 (Some (cpu_key c)) = (0, Some ek)"
    "\<And>b. length b = 16 \<Longrightarrow> AES_encrypt (cpu_aes c) b ek = aes256 key b"
    using aes256_key_set [OF assms] by blast
  show thesis
    by (rule that [of "\<lparr>ctr_key = ek, counter = be_of_nat 16 n, encrypted_counter = replicate 16 0, current_pos = 0\<rparr>"])
      (simp_all add: AesCtrState_new_def ctr_holds_def assms(2) ek memcpy_at_def)
qed

lemma low_nibble: "(n :: nat) AND 15 = n mod 16"
  using take_bit_eq_mask [of 4 n] by (simp add: take_bit_eq_mod mask_eq_exp_minus_1)

lemma ctr_step_holds:
  assumes "ctr_holds c key n i s"
  shows "fst (ctr_step c s b) = b XOR ctr_stream key n i" "ctr_holds c key n (Suc i) (snd (ctr_step c s b))"
proof -
  note s = assms [unfolded ctr_holds_def]
  have inc: "ctr_increment 15 (be_of_nat 16 k) = be_of_nat 16 (Suc k)" for k
    using ctr_increment_spec [of 15 k "[]"] by (simp add: numeral_eq_Suc)
  show "fst (ctr_step c s b) = b XOR ctr_stream key n i"
    using s by (auto simp: ctr_step_def ctr_stream_def)
  show "ctr_holds c key n (Suc i) (snd (ctr_step c s b))"
  proof (cases "i mod 16 = 0")
    case True
    then obtain q where "i = 16 * q" by (metis dvdE mod_0_imp_dvd)
    moreover have "Suc (16 * q) div 16 = q"
      by simp
    ultimately show ?thesis
      using s True by (simp add: ctr_step_def ctr_holds_def inc low_nibble)
  next
    case False
    define q r where "q = i div 16" and "r = i mod 16"
    have i: "i = 16 * q + r" "0 < r" "r < 16"
      using False by (simp_all add: q_def r_def)
    have "(Suc i + 15) div 16 = Suc q" "(i + 15) div 16 = Suc q"
      using i by auto
    moreover have "Suc i mod 16 \<noteq> 0 \<Longrightarrow> Suc i div 16 = i div 16"
      by (simp add: div_Suc)
    ultimately show ?thesis
      using s False by (simp add: ctr_step_def ctr_holds_def low_nibble mod_simps)
  qed
qed

lemma ctr_run_holds:
  assumes "ctr_holds c key n i s"
  shows "fst (ctr_run c s bs) = xor_bytes bs (map (ctr_stream key n) [i..<i + length bs]) \<and>
    ctr_holds c key n (i + length bs) (snd (ctr_run c s bs))"
  using assms
proof (induction bs arbitrary: i s)
  case (Cons b bs)
  note step = ctr_step_holds [OF Cons.prems, of b]
  have "[i..<i + length (b # bs)] = i # [Suc i..<Suc i + length bs]"
    by (subst upt_conv_Cons) simp_all
  then show ?case
    using Cons.IH [OF step(2)] step(1) by (simp add: case_prod_beta Let_def)
qed simp

definition soft_cpu :: cpu where
  "soft_cpu = \<lparr>cpu_aes = soft_backend, cpu_cbc = (\<lambda>m _ _ _ _ _ _. m), cpu_key = blank_key,
     cpu_sha256 = zero_sha256_ctx, cpu_sha512 = zero_sha512_ctx\<rparr>"

lemma soft_cpu_ok: "cpu_ok soft_cpu"
  by (simp add: cpu_ok_def soft_cpu_def soft_backend_ok hw_cbc_ok_def zero_sha512_ctx_def blank_key_def)
    (simp add: soft_backend_def)

section \<open>Properties\<close>

text \<open>
  C20: an object that was initialised hashes the concatenation of what it was fed, whatever the
  pieces; no check of the class fails on the way, and after \<open>extract\<close> it can be initialised again,
  whether its context was dropped or kept.
\<close>

theorem Sha256State_is_SHA256:
  assumes "\<not> is_inited s" "32 \<le> length output"
  shows "\<exists>s1 s2 s3. Sha256State_init c s = Some s1 \<and>
    fold (\<lambda>d r. Option.bind r (\<lambda>s. Sha256State_feed s d)) pieces (Some s1) = Some s2 \<and>
    Sha256State_extract s2 output destroy = Some (memcpy_at output 0 (fips_sha256 (concat pieces)), s3) \<and>
    \<not> is_inited s3 \<and> Sha256State_delete s3 = Some s3 \<and> Sha256State_delete s2 \<noteq> None"
proof -
  obtain s1 where s1: "Sha256State_init c s = Some s1" "sha256_state_holds [] s1"
    by (rule Sha256State_init_holds [OF assms(1)])
  have feed: "\<exists>s2. fold (\<lambda>d r. Option.bind r (\<lambda>s. Sha256State_feed s d)) ds (Some s) = Some s2 \<and>
      sha256_state_holds (m @ concat ds) s2" if "sha256_state_holds m s" for ds s m
    using that
  proof (induction ds arbitrary: s m)
    case (Cons d ds)
    obtain s' where "Sha256State_feed s d = Some s'" "sha256_state_holds (m @ d) s'"
      by (rule Sha256State_feed_holds [OF Cons.prems])
    with Cons.IH [of "m @ d" s'] show ?case by simp
  qed simp
  obtain s2 where s2: "fold (\<lambda>d r. Option.bind r (\<lambda>s. Sha256State_feed s d)) pieces (Some s1) = Some s2"
      "sha256_state_holds (concat pieces) s2"
    using feed [OF s1(2), of pieces] by auto
  obtain s3 where s3: "Sha256State_extract s2 output destroy =
      Some (memcpy_at output 0 (fips_sha256 (concat pieces)), s3)" "\<not> is_inited s3"
    by (rule Sha256State_extract_holds [OF s2(2) assms(2)])
  obtain s4 where "Sha256State_extract s2 (replicate 32 0) False =
      Some (memcpy_at (replicate 32 0) 0 (fips_sha256 (concat pieces)), s4)" "\<not> is_inited s4"
    by (rule Sha256State_extract_holds [OF s2(2), of "replicate 32 0" False]) simp_all
  then show ?thesis
    using s1 s2 s3 by (auto simp: Sha256State_delete_def)
qed

theorem Sha256State_is_SHA256_witness:
  "\<exists>s1 s2 s3. Sha256State_init soft_cpu Sha256State_new = Some s1 \<and>
    fold (\<lambda>d r. Option.bind r (\<lambda>s. Sha256State_feed s d)) [[0x61], [0x62, 0x63]] (Some s1) = Some s2 \<and>
    Sha256State_extract s2 (replicate 32 0) True =
      Some (memcpy_at (replicate 32 0) 0 (fips_sha256 [0x61, 0x62, 0x63]), s3)"
proof -
  have "\<not> is_inited Sha256State_new" "32 \<le> length (replicate 32 (0 :: u8))"
    by (simp_all add: Sha256State_new_def)
  from Sha256State_is_SHA256 [OF this, of soft_cpu "[[0x61], [0x62, 0x63]]" True]
  show ?thesis by (simp only: concat.simps append.simps) blast
qed

text \<open>
  C21: after \<open>init\<close> with a counter that reads as the big-endian number \<open>n\<close>, a message passed in
  two pieces of any lengths comes out as its exclusive or with the AES-256 key stream of \<open>n, n + 1, ..\<close>
  modulo \<open>2^128\<close>, without a gap or a repetition at the cut; and a second object with the same key and
  counter, fed with other pieces, undoes it.
\<close>

theorem AesCtrState_is_CTR:
  assumes "cpu_ok c" "length key = 32" "length p = length from1" "length q = length from2"
    "length r = length (from1 @ from2)"
  shows "\<exists>s s1 s2 out1 out2. AesCtrState_new c key (be_of_nat 16 n) = Some s \<and>
    AesCtrState_encrypt c s from1 p = Some (out1, s1) \<and> AesCtrState_encrypt c s1 from2 q = Some (out2, s2) \<and>
    out1 @ out2 = xor_bytes (from1 @ from2) (map (ctr_stream key n) [0..<length (from1 @ from2)]) \<and>
    (\<exists>s3. AesCtrState_decrypt c s (out1 @ out2) r = Some (from1 @ from2, s3))"
proof -
  obtain s where s: "AesCtrState_new c key (be_of_nat 16 n) = Some s" "ctr_holds c key n 0 s"
    by (rule AesCtrState_new_holds [OF assms(1,2)])
  let ?k = "\<lambda>i j. map (ctr_stream key n) [i..<j]"
  define s1 where "s1 = snd (ctr_run c s from1)"
  have s1: "ctr_holds c key n (length from1) s1"
    using ctr_run_holds [OF s(2), of from1] by (simp add: s1_def)
  define out1 out2 where "out1 = xor_bytes from1 (?k 0 (length from1))"
    and "out2 = xor_bytes from2 (?k (length from1) (length from1 + length from2))"
  have out: "out1 @ out2 = xor_bytes (from1 @ from2) (?k 0 (length (from1 @ from2)))"
    unfolding out1_def out2_def using upt_add_eq_append [of 0 "length from1" "length from2"]
    by (simp add: xor_bytes_append)
  have r1: "AesCtrState_encrypt c s from1 p = Some (out1, s1)"
    using ctr_run_holds [OF s(2), of from1] assms(3)
    by (simp add: AesCtrState_encrypt_def case_prod_beta s1_def out1_def memcpy_at_def)
  have r2: "AesCtrState_encrypt c s1 from2 q = Some (out2, snd (ctr_run c s1 from2))"
    using ctr_run_holds [OF s1, of from2] assms(4)
    by (simp add: AesCtrState_encrypt_def case_prod_beta out2_def memcpy_at_def)
  have "length (out1 @ out2) = length (from1 @ from2)"
    by (simp add: out1_def out2_def)
  then have "AesCtrState_decrypt c s (out1 @ out2) r =
      Some (xor_bytes (out1 @ out2) (?k 0 (length (from1 @ from2))), snd (ctr_run c s (out1 @ out2)))"
    using ctr_run_holds [OF s(2), of "out1 @ out2"] assms(5)
    by (simp add: AesCtrState_decrypt_def AesCtrState_encrypt_def case_prod_beta memcpy_at_def)
  also have "xor_bytes (out1 @ out2) (?k 0 (length (from1 @ from2))) = from1 @ from2"
    unfolding out by (rule xor_bytes_cancel) simp
  finally show ?thesis
    using s r1 r2 out by blast
qed

theorem AesCtrState_is_CTR_witness:
  "\<exists>s s1 out1. AesCtrState_new soft_cpu (replicate 32 7) (be_of_nat 16 (2 ^ 128 - 1)) = Some s \<and>
    AesCtrState_encrypt soft_cpu s [1, 2, 3] [0, 0, 0] = Some (out1, s1)"
  using AesCtrState_is_CTR [OF soft_cpu_ok, of "replicate 32 7" "[0, 0, 0]" "[1, 2, 3]" "[0]" "[4]" "[0, 0, 0, 0]"
      "2 ^ 128 - 1"] by auto

end
