(* ===== verification/Simple_Encryption.thy ===== *)
theory Simple_Encryption
  imports Td_Crypto
begin

text \<open>
  \<open>app/jni/ton/tonlib/keys/SimpleEncryption.cpp\<close>: the authenticated encryption with which the TON
  client library protects keys and messages. Version 1 puts the SHA-256 of the padded data in front
  and derives the AES-256-CBC key and chaining value from that hash and the secret by HMAC-SHA-512;
  version 2 uses a 16-byte message key that is itself an HMAC under a salt, and has a form for a pair
  of Ed25519 keys.

  A function of this component ends the process (the outer \<open>None\<close>) or returns a \<open>td::Result\<close>: an error
  (\<open>Inl\<close>) or a value (\<open>Inr\<close>).
\<close>

datatype td_error =
    Data_too_small
  | Size_not_divisible_by_16
  | Hash_mismatch
  | Invalid_prefix_size
  | Invalid_proof_size
  | Key_error
  | Invalid_secret_size
  | Public_key_differs
  | Parse_error
  | Internal_error
  | KeyUnknown_error
  | KeyDecrypt_error
  | Unknown_key
  | Not_normalized
  | Need_mnemonic_password
  | Invalid_mnemonic
  | Invalid_pem_key
  | Key_exists
  | Invalid_words_count
  | Mnemonic_not_found

type_synonym 'a td_result = "td_error + 'a"

text \<open>The bytes that \<open>td::Random::secure_bytes\<close> is going to give.\<close>

type_synonym rng = "nat \<Rightarrow> u8"

definition secure_bytes :: "rng \<Rightarrow> nat \<Rightarrow> bytes \<times> rng" where
  "secure_bytes r n = (map r [0..<n], \<lambda>i. r (n + i))"

lemma length_secure_bytes [simp]: "length (fst (secure_bytes r n)) = n"
  by (simp add: secure_bytes_def)

section \<open>Key derivation and padding\<close>

definition calc_aes_cbc_state_hash :: "bytes \<Rightarrow> AesCbcState option" where
  "calc_aes_cbc_state_hash hash =
     (if 48 \<le> length hash then AesCbcState_new (take 32 hash) (take 16 (drop 32 hash)) else None)"

definition calc_aes_cbc_state_sha512 :: "cpu \<Rightarrow> bytes \<Rightarrow> AesCbcState option" where
  "calc_aes_cbc_state_sha512 c seed = do {
     hash \<leftarrow> sha512_into c seed (replicate 64 0);
     calc_aes_cbc_state_hash (take 48 hash)
   }"

text \<open>
  The sizes are of type \<open>int64\<close>; the casts check that the size of the prefix is not negative and
  fits a byte.
\<close>

definition gen_random_prefix :: "rng \<Rightarrow> int \<Rightarrow> int \<Rightarrow> (bytes \<times> rng) option" where
  "gen_random_prefix r data_size min_padding =
     (let size = ((min_padding + 15 + data_size) AND (-16)) - data_size in
      if size < 0 then None
      else
        let (buff, r) = secure_bytes r (nat size)
        in if 256 \<le> length buff then None
           else
             let buff = buff[0 := word_of_nat (length buff)]
             in if (int (length buff) + data_size) mod 16 = 0 then Some (buff, r) else None)"

definition combine_secrets :: "heap \<Rightarrow> bytes \<Rightarrow> bytes \<Rightarrow> (bytes \<times> heap) option" where
  "combine_secrets h a b = hmac_sha512 h a b (replicate 64 0)"

definition kdf :: "heap \<Rightarrow> bytes \<Rightarrow> bytes \<Rightarrow> int \<Rightarrow> (bytes \<times> heap) option" where
  "kdf h secret password iterations = pbkdf2_sha512 h secret password iterations (replicate 64 0)"

section \<open>Version 1\<close>

definition encrypt_data_with_prefix :: "cpu \<Rightarrow> heap \<Rightarrow> bytes \<Rightarrow> bytes \<Rightarrow> (bytes \<times> heap) option" where
  "encrypt_data_with_prefix c h data secret =
     (if length data mod 16 \<noteq> 0 then None
      else do {
        data_hash \<leftarrow> td_sha256 c data;
        let res = memcpy_at (replicate (length data + 32) 0) 0 data_hash;
        (key, h) \<leftarrow> combine_secrets h data_hash secret;
        cbc_state \<leftarrow> calc_aes_cbc_state_hash key;
        (to, _) \<leftarrow> AesCbcState_encrypt c cbc_state data (drop 32 res);
        Some (take 32 res @ to, h)
      })"

definition encrypt_data :: "cpu \<Rightarrow> heap \<Rightarrow> rng \<Rightarrow> bytes \<Rightarrow> bytes \<Rightarrow> (bytes \<times> heap \<times> rng) option" where
  "encrypt_data c h r data secret = do {
     (prefix, r) \<leftarrow> gen_random_prefix r (int (length data)) 32;
     let combined = memcpy_at (memcpy_at (replicate (length prefix + length data) 0) 0 prefix) (length prefix) data;
     (e, h) \<leftarrow> encrypt_data_with_prefix c h combined secret;
     Some (e, h, r)
   }"

definition decrypt_data :: "cpu \<Rightarrow> heap \<Rightarrow> bytes \<Rightarrow> bytes \<Rightarrow> (bytes td_result \<times> heap) option" where
  "decrypt_data c h encrypted_data secret =
     (if length encrypted_data < 33 then Some (Inl Data_too_small, h)
      else if length encrypted_data mod 16 \<noteq> 0 then Some (Inl Size_not_divisible_by_16, h)
      else do {
        let data_hash = take 32 encrypted_data;
        let encrypted_data = drop 32 encrypted_data;
        (key, h) \<leftarrow> combine_secrets h data_hash secret;
        cbc_state \<leftarrow> calc_aes_cbc_state_hash key;
        (decrypted_data, _) \<leftarrow> AesCbcState_decrypt c cbc_state encrypted_data (replicate (length encrypted_data) 0);
        hash \<leftarrow> td_sha256 c decrypted_data;
        if data_hash \<noteq> hash then Some (Inl Hash_mismatch, h)
        else
          let prefix_size = unat (decrypted_data ! 0)
          in if length decrypted_data < prefix_size \<or> prefix_size < 32 then Some (Inl Invalid_prefix_size, h)
             else Some (Inr (drop prefix_size decrypted_data), h)
      })"

section \<open>Version 2 with a shared secret\<close>

definition encrypt_data_with_prefix_v2 :: "cpu \<Rightarrow> heap \<Rightarrow> bytes \<Rightarrow> bytes \<Rightarrow> bytes \<Rightarrow> (bytes \<times> heap) option" where
  "encrypt_data_with_prefix_v2 c h data secret salt =
     (if length data mod 16 \<noteq> 0 then None
      else do {
        (data_hash, h) \<leftarrow> combine_secrets h salt data;
        let msg_key = take 16 data_hash;
        let res = memcpy_at (replicate (length data + 16) 0) 0 msg_key;
        (key, h) \<leftarrow> combine_secrets h secret msg_key;
        cbc_state \<leftarrow> calc_aes_cbc_state_hash key;
        (to, _) \<leftarrow> AesCbcState_encrypt c cbc_state data (drop 16 res);
        Some (take 16 res @ to, h)
      })"

definition encrypt_data_v2 :: "cpu \<Rightarrow> heap \<Rightarrow> rng \<Rightarrow> bytes \<Rightarrow> bytes \<Rightarrow> bytes \<Rightarrow> (bytes \<times> heap \<times> rng) option" where
  "encrypt_data_v2 c h r data secret salt = do {
     (prefix, r) \<leftarrow> gen_random_prefix r (int (length data)) 16;
     let combined = memcpy_at (memcpy_at (replicate (length prefix + length data) 0) 0 prefix) (length prefix) data;
     (e, h) \<leftarrow> encrypt_data_with_prefix_v2 c h combined secret salt;
     Some (e, h, r)
   }"

definition unpack_encrypted_data :: "bytes \<Rightarrow> (bytes \<times> bytes) td_result" where
  "unpack_encrypted_data encrypted_data =
     (if length encrypted_data < 17 then Inl Data_too_small
      else if length encrypted_data mod 16 \<noteq> 0 then Inl Size_not_divisible_by_16
      else Inr (take 16 encrypted_data, drop 16 encrypted_data))"

definition do_decrypt :: "cpu \<Rightarrow> heap \<Rightarrow> bytes \<Rightarrow> bytes \<Rightarrow> bytes \<Rightarrow> bytes \<Rightarrow> (bytes td_result \<times> heap) option" where
  "do_decrypt c h cbc_state_secret msg_key encrypted_data salt = do {
     cbc_state \<leftarrow> calc_aes_cbc_state_hash cbc_state_secret;
     (decrypted_data, _) \<leftarrow> AesCbcState_decrypt c cbc_state encrypted_data (replicate (length encrypted_data) 0);
     (data_hash, h) \<leftarrow> combine_secrets h salt decrypted_data;
     let got_msg_key = take 16 data_hash;
     if msg_key \<noteq> got_msg_key then Some (Inl Hash_mismatch, h)
     else
       let prefix_size = unat (decrypted_data ! 0)
       in if length decrypted_data < prefix_size \<or> prefix_size < 16 then Some (Inl Invalid_prefix_size, h)
          else Some (Inr (drop prefix_size decrypted_data), h)
   }"

text \<open>\<open>Decrypted\<close>: the proof, from which another party can decrypt this one message, and the data.\<close>

record Decrypted =
  proof_secret :: bytes
  decrypted_text :: bytes

definition decrypt_data_v2 :: "cpu \<Rightarrow> heap \<Rightarrow> bytes \<Rightarrow> bytes \<Rightarrow> bytes \<Rightarrow> (Decrypted td_result \<times> heap) option" where
  "decrypt_data_v2 c h encrypted_data secret salt =
     (case unpack_encrypted_data encrypted_data of
        Inl e \<Rightarrow> Some (Inl e, h)
      | Inr (msg_key, data) \<Rightarrow> do {
          (key, h) \<leftarrow> combine_secrets h secret msg_key;
          let cbc_state_secret = take 48 key;
          (res, h) \<leftarrow> do_decrypt c h cbc_state_secret msg_key data salt;
          Some (map_sum id (\<lambda>d. \<lparr>proof_secret = cbc_state_secret, decrypted_text = d\<rparr>) res, h)
        })"

definition decrypt_data_with_proof :: "cpu \<Rightarrow> heap \<Rightarrow> bytes \<Rightarrow> bytes \<Rightarrow> bytes \<Rightarrow> (bytes td_result \<times> heap) option" where
  "decrypt_data_with_proof c h encrypted_data proof_bytes salt =
     (if length encrypted_data < 32 then Some (Inl Data_too_small, h)
      else if length proof_bytes \<noteq> 48 then Some (Inl Invalid_proof_size, h)
      else
        case unpack_encrypted_data (drop 32 encrypted_data) of
          Inl e \<Rightarrow> Some (Inl e, h)
        | Inr (msg_key, data) \<Rightarrow> do_decrypt c h proof_bytes msg_key data salt)"

section \<open>Version 2 between two Ed25519 keys\<close>

text \<open>
  The curve operations of \<open>crypto/Ed25519.cpp\<close> are a parameter: a key pair from the generator, the
  public key of a private key, and the shared secret of a public and a private key.
\<close>

record ed25519 =
  generate_private_key :: "rng \<Rightarrow> bytes td_result \<times> rng"
  get_public_key :: "bytes \<Rightarrow> bytes td_result"
  compute_shared_secret :: "bytes \<Rightarrow> bytes \<Rightarrow> bytes td_result"

definition secure_xor :: "bytes \<Rightarrow> bytes \<Rightarrow> bytes option" where
  "secure_xor a b = (if length a = length b then Some (xor_bytes a b) else None)"

definition encrypt_data_to :: "cpu \<Rightarrow> ed25519 \<Rightarrow> heap \<Rightarrow> rng \<Rightarrow> bytes \<Rightarrow> bytes \<Rightarrow> bytes \<Rightarrow> bytes \<Rightarrow>
    (bytes td_result \<times> heap \<times> rng) option" where
  "encrypt_data_to c ed h r data public_key private_key salt =
     (case compute_shared_secret ed public_key private_key of
        Inl e \<Rightarrow> Some (Inl e, h, r)
      | Inr shared_secret \<Rightarrow> do {
          (encrypted, h, r) \<leftarrow> encrypt_data_v2 c h r data shared_secret salt;
          case get_public_key ed private_key of
            Inl e \<Rightarrow> Some (Inl e, h, r)
          | Inr tmp_public_key \<Rightarrow> do {
              let prefixed = memcpy_at (replicate (32 + length encrypted) 0) 0 tmp_public_key;
              xored_keys \<leftarrow> secure_xor public_key tmp_public_key;
              let prefixed = memcpy_at prefixed 0 xored_keys;
              let prefixed = memcpy_at prefixed (length xored_keys) encrypted;
              Some (Inr prefixed, h, r)
            }
        })"

definition encrypt_data_anonymous :: "cpu \<Rightarrow> ed25519 \<Rightarrow> heap \<Rightarrow> rng \<Rightarrow> bytes \<Rightarrow> bytes \<Rightarrow> bytes \<Rightarrow>
    (bytes td_result \<times> heap \<times> rng) option" where
  "encrypt_data_anonymous c ed h r data public_key salt =
     (case generate_private_key ed r of
        (Inl e, r) \<Rightarrow> Some (Inl e, h, r)
      | (Inr tmp_private_key, r) \<Rightarrow> encrypt_data_to c ed h r data public_key tmp_private_key salt)"

definition decrypt_data_from :: "cpu \<Rightarrow> ed25519 \<Rightarrow> heap \<Rightarrow> bytes \<Rightarrow> bytes \<Rightarrow> bytes \<Rightarrow>
    (Decrypted td_result \<times> heap) option" where
  "decrypt_data_from c ed h data private_key salt =
     (if length data < 32 then Some (Inl Data_too_small, h)
      else
        case get_public_key ed private_key of
          Inl e \<Rightarrow> Some (Inl e, h)
        | Inr public_key \<Rightarrow> do {
            tmp_public_key \<leftarrow> secure_xor (take 32 data) public_key;
            case compute_shared_secret ed tmp_public_key private_key of
              Inl e \<Rightarrow> Some (Inl e, h)
            | Inr shared_secret \<Rightarrow> decrypt_data_v2 c h (drop 32 data) shared_secret salt
          })"

section \<open>What the component computes\<close>

text \<open>The data under the first 48 bytes of a derived secret, and the two formats.\<close>

definition sealed :: "bytes \<Rightarrow> bytes \<Rightarrow> bytes" where
  "sealed k data = cbc_text (aes256 (take 32 k)) (take 16 (drop 32 k)) data"

definition opened :: "bytes \<Rightarrow> bytes \<Rightarrow> bytes" where
  "opened k data = cbc_plain (aes256_inv (take 32 k)) (take 16 (drop 32 k)) data"

definition v1_text :: "bytes \<Rightarrow> bytes \<Rightarrow> bytes" where
  "v1_text data secret =
     fips_sha256 data @ sealed (fips_hmac EVP_sha512 (fips_sha256 data) secret) data"

definition v2_msg_key :: "bytes \<Rightarrow> bytes \<Rightarrow> bytes" where
  "v2_msg_key data salt = take 16 (fips_hmac EVP_sha512 salt data)"

definition v2_text :: "bytes \<Rightarrow> bytes \<Rightarrow> bytes \<Rightarrow> bytes" where
  "v2_text data secret salt =
     v2_msg_key data salt @ sealed (fips_hmac EVP_sha512 secret (v2_msg_key data salt)) data"

text \<open>A well-formed padding: its first byte is its length.\<close>

definition padding_ok :: "nat \<Rightarrow> bytes \<Rightarrow> bytes \<Rightarrow> bool" where
  "padding_ok n p d \<longleftrightarrow> n \<le> length p \<and> unat (p ! 0) = length p \<and> 16 dvd length (p @ d)"

lemma sealed_opened:
  assumes "48 \<le> length k" "16 dvd length data"
  shows "opened k (sealed k data) = data" "sealed k (opened k data) = data"
    "length (sealed k data) = length data" "length (opened k data) = length data"
proof -
  have iv: "length (take 16 (drop 32 k)) = 16"
    using assms(1) by simp
  show "opened k (sealed k data) = data" "sealed k (opened k data) = data"
    unfolding opened_def sealed_def
    by (rule fips_aes256.cbc_plain_text [OF TrueI assms(2) iv], rule fips_aes256.cbc_text_plain [OF TrueI assms(2) iv])
  show "length (sealed k data) = length data" "length (opened k data) = length data"
    unfolding opened_def sealed_def using length_cbc_text [OF _ assms(2) iv] by simp_all
qed

lemma sealed_take_48: "sealed (take 48 k) = sealed k" "opened (take 48 k) = opened k"
  by (simp_all add: fun_eq_iff sealed_def opened_def drop_take min_def)

lemma length_sha256 [simp]: "length (fips_sha256 m) = 32"
  by (simp add: length_fips_hash256)

lemma calc_aes_cbc_state_hash_result:
  "48 \<le> length k \<Longrightarrow>
     calc_aes_cbc_state_hash k = Some \<lparr>cbc_key = take 32 k, cbc_iv = take 16 (drop 32 k)\<rparr>"
  by (simp add: calc_aes_cbc_state_hash_def AesCbcState_new_def)

lemma AesCbcState_results:
  assumes "cpu_ok c" "48 \<le> length k" "16 dvd length data" "length to = length data"
  obtains s s' where
    "AesCbcState_encrypt c \<lparr>cbc_key = take 32 k, cbc_iv = take 16 (drop 32 k)\<rparr> data to = Some (sealed k data, s)"
    "AesCbcState_decrypt c \<lparr>cbc_key = take 32 k, cbc_iv = take 16 (drop 32 k)\<rparr> data to = Some (opened k data, s')"
  using aes_cbc_xcrypt_result [OF assms(1), of "take 32 k" "take 16 (drop 32 k)" data to] assms
  by (simp add: AesCbcState_encrypt_def AesCbcState_decrypt_def sealed_def opened_def)

lemma combine_secrets_result:
  assumes "no_oom h" "fits_int (length a)" "fits_int (length b)"
  obtains h' where "combine_secrets h a b = Some (fips_hmac EVP_sha512 a b, h')" "no_oom h'"
  using hmac_into_result [OF assms, of "replicate 64 0" EVP_sha512]
  by (auto simp: combine_secrets_def hmac_sha512_def)

lemma fits_int_small [simp]: "fits_int 32" "fits_int 16" "fits_int 48" "fits_int 64"
  by (simp_all add: fits_int_def)

lemma kdf_result:
  assumes "no_oom h" "fits_int (length a)" "fits_int (length b)" "0 < n"
  obtains h' where "kdf h a b n = Some (rfc_pbkdf2 EVP_sha512 a b (nat n) 64, h')" "no_oom h'"
  using pbkdf2_impl_result [OF assms(1-3), of "replicate 64 0" EVP_sha512 n] assms(4)
  by (auto simp: kdf_def pbkdf2_sha512_def)

lemma and_minus_16: "(x :: int) AND (-16) = 16 * (x div 16)"
proof -
  have "x AND (-16) = x AND NOT (mask 4)"
    using minus_exp_eq_not_mask [of 4, where ?'a = int] by simp
  also have "\<dots> = push_bit 4 (drop_bit 4 x)"
    by (rule bit_eqI) (auto simp: bit_simps)
  finally show ?thesis
    by (simp add: push_bit_eq_mult drop_bit_eq_div)
qed

lemma gen_random_prefix_result:
  assumes "n = 16 \<or> n = 32"
  obtains p r' where "gen_random_prefix r (int (length d)) n = Some (p, r')"
    "padding_ok (nat n) p d" "length p < nat n + 16"
proof -
  let ?k = "length d"
  define t u where "t = (n + 15 + int ?k) div 16" and "u = (n + 15 + int ?k) mod 16"
  have tu: "16 * t + u = n + 15 + int ?k" "0 \<le> u" "u < 16"
    by (simp_all add: t_def u_def)
  define s where "s = nat (16 * t - int ?k)"
  have i: "16 * t - int ?k = int s"
    using assms tu by (auto simp: s_def)
  then have s: "nat n \<le> s" "s < nat n + 16" "int s + int ?k = 16 * t"
    using assms tu by auto
  then have "int (s + ?k) = int (16 * nat t)"
    by simp
  then have dvd: "16 dvd s + ?k"
    by (metis dvd_triv_left of_nat_eq_iff)
  define p where "p = (map r [0..<s]) [0 := word_of_nat s]"
  have p: "length p = s" "unat (p ! 0) = s"
    using s assms by (auto simp: p_def unat_word_of_nat_mod)
  have "(int s + int ?k) mod 16 = 0"
    using s(3) by simp
  then have g: "gen_random_prefix r (int ?k) n = Some (p, \<lambda>i. r (s + i))"
    using s assms unfolding gen_random_prefix_def and_minus_16 t_def [symmetric] i
    by (auto simp: secure_bytes_def p_def)
  have ok: "padding_ok (nat n) p d" and l: "length p < nat n + 16"
    using s(1,2) dvd unfolding padding_ok_def by (simp_all add: p)
  show thesis
    by (rule that [OF g ok l])
qed

lemma encrypt_data_with_prefix_result:
  assumes "cpu_ok c" "no_oom h" "16 dvd length data" "fits_int (length secret)"
  obtains h' where "encrypt_data_with_prefix c h data secret = Some (v1_text data secret, h')" "no_oom h'"
proof -
  let ?hash = "fips_sha256 data"
  let ?k = "fips_hmac EVP_sha512 ?hash secret"
  obtain h' where h': "combine_secrets h ?hash secret = Some (?k, h')" "no_oom h'"
    using combine_secrets_result [OF assms(2), of ?hash secret] assms(4) by auto
  obtain s where "AesCbcState_encrypt c \<lparr>cbc_key = take 32 ?k, cbc_iv = take 16 (drop 32 ?k)\<rparr> data
      (replicate (length data) 0) = Some (sealed ?k data, s)"
    using AesCbcState_results [OF assms(1), of ?k data "replicate (length data) 0"] assms(3) by auto
  then show thesis
    using h' assms(3) td_hashes(1) [OF assms(1), of data]
    by (intro that [of h']) (simp_all add: encrypt_data_with_prefix_def calc_aes_cbc_state_hash_result
      memcpy_at_def v1_text_def dvd_eq_mod_eq_0 [symmetric])
qed

text \<open>Decryption as a function of its arguments.\<close>

definition v1_open :: "bytes \<Rightarrow> bytes \<Rightarrow> bytes td_result" where
  "v1_open e secret =
     (if length e < 33 then Inl Data_too_small
      else if length e mod 16 \<noteq> 0 then Inl Size_not_divisible_by_16
      else
        let data = opened (fips_hmac EVP_sha512 (take 32 e) secret) (drop 32 e)
        in if take 32 e \<noteq> fips_sha256 data then Inl Hash_mismatch
           else if length data < unat (data ! 0) \<or> unat (data ! 0) < 32 then Inl Invalid_prefix_size
           else Inr (drop (unat (data ! 0)) data))"

lemma decrypt_data_result:
  assumes "cpu_ok c" "no_oom h" "fits_int (length secret)"
  obtains h' where "decrypt_data c h e secret = Some (v1_open e secret, h')" "no_oom h'"
proof (cases "33 \<le> length e \<and> length e mod 16 = 0")
  case False
  then show thesis
    using assms(2) by (intro that [of h]) (auto simp: decrypt_data_def v1_open_def)
next
  case True
  let ?k = "fips_hmac EVP_sha512 (take 32 e) secret"
  let ?from = "drop 32 e"
  have dvd: "16 dvd length ?from"
    using True by (auto simp: mod_0_imp_dvd)
  obtain h' where h': "combine_secrets h (take 32 e) secret = Some (?k, h')" "no_oom h'"
    using combine_secrets_result [OF assms(2), of "take 32 e" secret] assms(3) True by auto
  obtain s where "AesCbcState_decrypt c \<lparr>cbc_key = take 32 ?k, cbc_iv = take 16 (drop 32 ?k)\<rparr> ?from
      (replicate (length ?from) 0) = Some (opened ?k ?from, s)"
    using AesCbcState_results [OF assms(1), of ?k ?from "replicate (length ?from) 0"] dvd by auto
  then have s: "AesCbcState_decrypt c \<lparr>cbc_key = take 32 ?k, cbc_iv = take 16 (drop 32 ?k)\<rparr> ?from
      (replicate (length e - 32) 0) = Some (opened ?k ?from, s)"
    by simp
  show thesis
    using True h' s td_hashes(1) [OF assms(1), of "opened ?k ?from"]
    by (intro that [of h']) (auto simp: decrypt_data_def calc_aes_cbc_state_hash_result v1_open_def Let_def)
qed

text \<open>What opens is what was sealed.\<close>

lemma v1_open_text:
  assumes "padding_ok 32 p d"
  shows "v1_open (v1_text (p @ d) secret) secret = Inr d"
proof -
  let ?k = "fips_hmac EVP_sha512 (fips_sha256 (p @ d)) secret"
  have p: "32 \<le> length p" "unat (p ! 0) = length p" "16 dvd length (p @ d)"
    using assms by (simp_all add: padding_ok_def)
  then have "(p @ d) ! 0 = p ! 0" "p \<noteq> []"
    by (cases p; simp)+
  moreover have "length (p @ d) mod 16 = 0"
    using p(3) by (simp only: dvd_eq_mod_eq_0)
  moreover have "(32 + length (p @ d)) mod 16 = 0"
    using p(3) by presburger
  ultimately show ?thesis
    using p sealed_opened [of ?k "p @ d"] unfolding v1_open_def v1_text_def
    by (simp add: Let_def)
qed

lemma v1_open_InrD:
  assumes "v1_open e secret = Inr d"
  obtains p where "padding_ok 32 p d" "e = v1_text (p @ d) secret"
proof -
  define k where "k = fips_hmac EVP_sha512 (take 32 e) secret"
  define data where "data = opened k (drop 32 e)"
  define n where "n = unat (data ! 0)"
  have e: "33 \<le> length e" "length e mod 16 = 0" "take 32 e = fips_sha256 data" "n \<le> length data" "32 \<le> n"
      "d = drop n data"
    using assms by (auto simp: v1_open_def Let_def k_def data_def n_def split: if_splits)
  have dvd: "16 dvd length (drop 32 e)"
    using e(1,2) by (auto simp: mod_0_imp_dvd)
  have k: "48 \<le> length k"
    by (simp add: k_def)
  have l: "length data = length (drop 32 e)" and s: "sealed k data = drop 32 e"
    using sealed_opened [OF k dvd] by (simp_all add: data_def)
  have "take n data ! 0 = data ! 0"
    using e(5) by simp
  then have "padding_ok 32 (take n data) d"
    using e l dvd by (simp add: padding_ok_def n_def [symmetric])
  moreover have "e = v1_text (take n data @ d) secret"
    using s e(3,6) k_def append_take_drop_id [of 32 e] by (simp add: v1_text_def)
  ultimately show thesis
    by (rule that)
qed

section \<open>Version 2\<close>

lemma length_v2_msg_key [simp]: "length (v2_msg_key data salt) = 16"
  by (simp add: v2_msg_key_def)

lemma encrypt_data_with_prefix_v2_result:
  assumes "cpu_ok c" "no_oom h" "16 dvd length data" "fits_int (length secret)" "fits_int (length salt)"
    "fits_int (length data)"
  obtains h' where "encrypt_data_with_prefix_v2 c h data secret salt = Some (v2_text data secret salt, h')" "no_oom h'"
proof -
  let ?mk = "v2_msg_key data salt"
  let ?k = "fips_hmac EVP_sha512 secret ?mk"
  obtain h1 where h1: "combine_secrets h salt data = Some (fips_hmac EVP_sha512 salt data, h1)" "no_oom h1"
    using combine_secrets_result [OF assms(2,5,6)] by auto
  obtain h' where h': "combine_secrets h1 secret ?mk = Some (?k, h')" "no_oom h'"
    using combine_secrets_result [OF h1(2), of secret ?mk] assms(4) by auto
  obtain s where "AesCbcState_encrypt c \<lparr>cbc_key = take 32 ?k, cbc_iv = take 16 (drop 32 ?k)\<rparr> data
      (replicate (length data) 0) = Some (sealed ?k data, s)"
    using AesCbcState_results [OF assms(1), of ?k data "replicate (length data) 0"] assms(3) by auto
  then show thesis
    using h1 h' assms(3)
    by (intro that [of h']) (simp_all add: encrypt_data_with_prefix_v2_def calc_aes_cbc_state_hash_result
      memcpy_at_def v2_text_def v2_msg_key_def Let_def dvd_eq_mod_eq_0 [symmetric])
qed

definition v2_open_with :: "bytes \<Rightarrow> bytes \<Rightarrow> bytes \<Rightarrow> bytes \<Rightarrow> bytes td_result" where
  "v2_open_with k mk e salt =
     (let data = opened k e
      in if mk \<noteq> v2_msg_key data salt then Inl Hash_mismatch
         else if length data < unat (data ! 0) \<or> unat (data ! 0) < 16 then Inl Invalid_prefix_size
         else Inr (drop (unat (data ! 0)) data))"

lemma do_decrypt_result:
  assumes "cpu_ok c" "no_oom h" "16 dvd length e" "fits_int (length e)" "fits_int (length salt)" "48 \<le> length k"
  obtains h' where "do_decrypt c h k mk e salt = Some (v2_open_with k mk e salt, h')" "no_oom h'"
proof -
  have l: "length (opened k e) = length e"
    using sealed_opened(4) [OF assms(6,3)] .
  obtain s where s: "AesCbcState_decrypt c \<lparr>cbc_key = take 32 k, cbc_iv = take 16 (drop 32 k)\<rparr> e
      (replicate (length e) 0) = Some (opened k e, s)"
    using AesCbcState_results [OF assms(1,6,3), of "replicate (length e) 0"] by auto
  obtain h' where h': "combine_secrets h salt (opened k e) =
      Some (fips_hmac EVP_sha512 salt (opened k e), h')" "no_oom h'"
    using combine_secrets_result [OF assms(2,5), of "opened k e"] assms(4) l by auto
  show thesis
    using s h' assms(6) by (intro that [of h']) (auto simp: do_decrypt_def calc_aes_cbc_state_hash_result
      v2_open_with_def v2_msg_key_def Let_def)
qed

definition v2_open :: "bytes \<Rightarrow> bytes \<Rightarrow> bytes \<Rightarrow> Decrypted td_result" where
  "v2_open e secret salt =
     (if length e < 17 then Inl Data_too_small
      else if length e mod 16 \<noteq> 0 then Inl Size_not_divisible_by_16
      else
        let k = take 48 (fips_hmac EVP_sha512 secret (take 16 e))
        in map_sum id (\<lambda>d. \<lparr>proof_secret = k, decrypted_text = d\<rparr>) (v2_open_with k (take 16 e) (drop 16 e) salt))"

lemma decrypt_data_v2_result:
  assumes "cpu_ok c" "no_oom h" "fits_int (length e)" "fits_int (length secret)" "fits_int (length salt)"
  obtains h' where "decrypt_data_v2 c h e secret salt = Some (v2_open e secret salt, h')" "no_oom h'"
proof (cases "17 \<le> length e \<and> length e mod 16 = 0")
  case False
  then show thesis
    using assms(2) by (intro that [of h]) (auto simp: decrypt_data_v2_def v2_open_def unpack_encrypted_data_def)
next
  case True
  let ?k = "fips_hmac EVP_sha512 secret (take 16 e)"
  obtain h1 where h1: "combine_secrets h secret (take 16 e) = Some (?k, h1)" "no_oom h1"
    using combine_secrets_result [OF assms(2,4), of "take 16 e"] True by auto
  have dvd: "16 dvd length (drop 16 e)"
    using True by (auto simp: mod_0_imp_dvd)
  have fits: "fits_int (length (drop 16 e))"
    using assms(3) by (simp add: fits_int_def)
  obtain h' where "do_decrypt c h1 (take 48 ?k) (take 16 e) (drop 16 e) salt =
      Some (v2_open_with (take 48 ?k) (take 16 e) (drop 16 e) salt, h')" "no_oom h'"
    using do_decrypt_result [OF assms(1) h1(2) dvd fits assms(5), of "take 48 ?k" "take 16 e"] by auto
  with True h1 show thesis
    by (intro that [of h']) (auto simp: decrypt_data_v2_def v2_open_def unpack_encrypted_data_def Let_def)
qed

lemma v2_open_text:
  assumes "padding_ok 16 p d"
  shows "v2_open (v2_text (p @ d) secret salt) secret salt =
    Inr \<lparr>proof_secret = take 48 (fips_hmac EVP_sha512 secret (v2_msg_key (p @ d) salt)), decrypted_text = d\<rparr>"
proof -
  let ?mk = "v2_msg_key (p @ d) salt"
  let ?k = "fips_hmac EVP_sha512 secret ?mk"
  have p: "16 \<le> length p" "unat (p ! 0) = length p" "16 dvd length (p @ d)"
    using assms by (simp_all add: padding_ok_def)
  have "(p @ d) ! 0 = p ! 0" "p \<noteq> []"
    using p(1) by (cases p; simp)+
  moreover have "(16 + length (p @ d)) mod 16 = 0"
    using p(3) by presburger
  ultimately show ?thesis
    using p sealed_opened [of ?k "p @ d"] unfolding v2_open_def v2_text_def
    by (auto simp: Let_def v2_open_with_def sealed_take_48 Suc_le_eq)
qed

lemma v2_open_InrD:
  assumes "v2_open e secret salt = Inr D"
  obtains p where "padding_ok 16 p (decrypted_text D)" "e = v2_text (p @ decrypted_text D) secret salt"
    "proof_secret D = take 48 (fips_hmac EVP_sha512 secret (take 16 e))"
proof -
  define k where "k = fips_hmac EVP_sha512 secret (take 16 e)"
  define data where "data = opened k (drop 16 e)"
  define n where "n = unat (data ! 0)"
  have len: "17 \<le> length e" "length e mod 16 = 0"
    using assms by (auto simp: v2_open_def split: if_splits)
  then obtain d where d: "v2_open_with (take 48 k) (take 16 e) (drop 16 e) salt = Inr d"
    "D = \<lparr>proof_secret = take 48 k, decrypted_text = d\<rparr>"
    using assms by (cases "v2_open_with (take 48 k) (take 16 e) (drop 16 e) salt")
      (auto simp: v2_open_def Let_def k_def)
  have e: "take 16 e = v2_msg_key data salt" "n \<le> length data" "16 \<le> n" "d = drop n data"
    using d(1) by (auto simp: v2_open_with_def Let_def data_def n_def sealed_take_48 split: if_splits)
  have dvd: "16 dvd length (drop 16 e)"
    using len by (auto simp: mod_0_imp_dvd)
  have k: "48 \<le> length k"
    by (simp add: k_def)
  have l: "length data = length (drop 16 e)" and s: "sealed k data = drop 16 e"
    using sealed_opened [OF k dvd] by (simp_all add: data_def)
  have "take n data ! 0 = data ! 0"
    using e(3) by simp
  then have "padding_ok 16 (take n data) d"
    using e l dvd by (simp add: padding_ok_def n_def [symmetric])
  moreover have "e = v2_text (take n data @ d) secret salt"
    using s e(1,4) k_def append_take_drop_id [of 16 e] by (simp add: v2_text_def)
  ultimately show thesis
    using d(2) by (intro that) (simp_all add: k_def)
qed

section \<open>Encryption of a message\<close>

lemmas random_prefix_16 = gen_random_prefix_result [of 16, simplified]
lemmas random_prefix_32 = gen_random_prefix_result [of 32, simplified]

lemma combined_eq: "memcpy_at (memcpy_at (replicate (length p + length d) 0) 0 p) (length p) d = p @ d"
  by (simp add: memcpy_at_def)

lemma encrypt_data_result:
  assumes "cpu_ok c" "no_oom h" "fits_int (length secret)"
  obtains p h' r' where "encrypt_data c h r data secret = Some (v1_text (p @ data) secret, h', r')"
    "padding_ok 32 p data" "no_oom h'"
proof -
  obtain p r' where p: "gen_random_prefix r (int (length data)) 32 = Some (p, r')" "padding_ok 32 p data"
    using random_prefix_32 [of r data] by blast
  then have "16 dvd length (p @ data)"
    by (simp add: padding_ok_def)
  then obtain h' where "encrypt_data_with_prefix c h (p @ data) secret = Some (v1_text (p @ data) secret, h')" "no_oom h'"
    using encrypt_data_with_prefix_result [OF assms(1,2) _ assms(3)] by blast
  with p show thesis
    by (intro that) (simp_all add: encrypt_data_def combined_eq)
qed

lemma encrypt_data_v2_result:
  assumes "cpu_ok c" "no_oom h" "fits_int (length secret)" "fits_int (length salt)" "fits_int (length data + 31)"
  obtains p h' r' where "encrypt_data_v2 c h r data secret salt = Some (v2_text (p @ data) secret salt, h', r')"
    "padding_ok 16 p data" "length p < 32" "no_oom h'"
proof -
  obtain p r' where p: "gen_random_prefix r (int (length data)) 16 = Some (p, r')" "padding_ok 16 p data" "length p < 32"
    using random_prefix_16 [of r data] by blast
  then have "16 dvd length (p @ data)" "fits_int (length (p @ data))"
    using assms(5) by (simp_all add: padding_ok_def fits_int_def)
  then obtain h' where "encrypt_data_with_prefix_v2 c h (p @ data) secret salt =
      Some (v2_text (p @ data) secret salt, h')" "no_oom h'"
    using encrypt_data_with_prefix_v2_result [OF assms(1,2) _ assms(3,4)] by blast
  with p show thesis
    by (intro that) (simp_all add: encrypt_data_v2_def combined_eq)
qed

lemma length_v2_text:
  "16 dvd length data \<Longrightarrow> length (v2_text data secret salt) = 16 + length data"
  by (simp add: v2_text_def sealed_opened)

text \<open>
  What the key pair form relies on: two parties compute the same secret, and public keys have 32
  bytes.
\<close>

definition ed25519_agree :: "ed25519 \<Rightarrow> bool" where
  "ed25519_agree ed \<longleftrightarrow> (\<forall>a b pa pb.
     get_public_key ed a = Inr pa \<longrightarrow> get_public_key ed b = Inr pb \<longrightarrow>
       length pa = 32 \<and> length pb = 32 \<and> compute_shared_secret ed pa b = compute_shared_secret ed pb a)"

text \<open>An instance, to run the definitions on: the public key is the private key cut or filled to 32 bytes.\<close>

definition demo_public :: "bytes \<Rightarrow> bytes" where
  "demo_public k = take 32 (k @ replicate 32 0)"

definition demo_ed25519 :: ed25519 where
  "demo_ed25519 = \<lparr>generate_private_key = (\<lambda>r. let (k, r) = secure_bytes r 32 in (Inr k, r)),
     get_public_key = (\<lambda>k. Inr (demo_public k)),
     compute_shared_secret = (\<lambda>p k. Inr (xor_bytes p (demo_public k)))\<rparr>"

lemma demo_ed25519_agree: "ed25519_agree demo_ed25519"
  by (auto simp: ed25519_agree_def demo_ed25519_def demo_public_def xor_bytes_commute)

section \<open>Properties\<close>

text \<open>
  C25: on a machine that does not run out of memory, \<open>decrypt_data\<close> always returns, and it
  returns the data \<open>d\<close> exactly when its input is what \<open>encrypt_data_with_prefix\<close> makes of \<open>d\<close> behind
  some well-formed padding, under the same secret. Every other input is an error: nothing that was
  not sealed under the secret is ever accepted.
\<close>

theorem decrypt_data_accepts_sealed:
  assumes "cpu_ok c" "no_oom h" "fits_int (length secret)"
  shows "\<exists>res h'. decrypt_data c h e secret = Some (res, h') \<and>
    (\<forall>d. res = Inr d \<longleftrightarrow> (\<exists>p h''. padding_ok 32 p d \<and>
       encrypt_data_with_prefix c h (p @ d) secret = Some (e, h'')))"
proof -
  obtain h' where h': "decrypt_data c h e secret = Some (v1_open e secret, h')"
    by (rule decrypt_data_result [OF assms])
  have "v1_open e secret = Inr d \<longleftrightarrow> (\<exists>p h''. padding_ok 32 p d \<and>
       encrypt_data_with_prefix c h (p @ d) secret = Some (e, h''))" (is "?l \<longleftrightarrow> ?r") for d
  proof
    assume ?l
    then obtain p where p: "padding_ok 32 p d" "e = v1_text (p @ d) secret"
      by (rule v1_open_InrD)
    moreover have "16 dvd length (p @ d)"
      using p(1) by (simp add: padding_ok_def)
    ultimately show ?r
      using encrypt_data_with_prefix_result [OF assms(1,2) _ assms(3)] by metis
  next
    assume ?r
    then obtain p h'' where p: "padding_ok 32 p d" "encrypt_data_with_prefix c h (p @ d) secret = Some (e, h'')"
      by blast
    moreover have "16 dvd length (p @ d)"
      using p(1) by (simp add: padding_ok_def)
    ultimately have "e = v1_text (p @ d) secret"
      using encrypt_data_with_prefix_result [OF assms(1,2) _ assms(3), of "p @ d"] by fastforce
    then show ?l
      using v1_open_text [OF p(1)] by simp
  qed
  with h' show ?thesis by blast
qed

theorem decrypt_data_accepts_sealed_witness:
  "\<exists>res h'. decrypt_data soft_cpu [] (replicate 48 1) [2] = Some (res, h')"
  using decrypt_data_accepts_sealed [OF soft_cpu_ok, of "[]" "[2]" "replicate 48 1"]
  by (auto simp: fits_int_def)

text \<open>
  C26: \<open>decrypt_data\<close> gives back what \<open>encrypt_data\<close> was given, for data of any length and
  whatever the random generator yields. The encrypted text is whole blocks, longer than the data by
  64 to 79 bytes.
\<close>

theorem encrypt_data_roundtrip:
  assumes "cpu_ok c" "no_oom h" "no_oom h2" "fits_int (length secret)"
  shows "\<exists>e h' r'. encrypt_data c h r data secret = Some (e, h', r') \<and> length e mod 16 = 0 \<and>
    length data + 64 \<le> length e \<and> length e < length data + 80 \<and>
    (\<exists>h''. decrypt_data c h2 e secret = Some (Inr data, h''))"
proof -
  obtain p r' where p: "gen_random_prefix r (int (length data)) 32 = Some (p, r')" "padding_ok 32 p data" "length p < 48"
    using random_prefix_32 [of r data] by blast
  then have dvd: "16 dvd length (p @ data)"
    by (simp add: padding_ok_def)
  then obtain h' where "encrypt_data_with_prefix c h (p @ data) secret = Some (v1_text (p @ data) secret, h')"
    using encrypt_data_with_prefix_result [OF assms(1,2) _ assms(4)] by blast
  then have enc: "encrypt_data c h r data secret = Some (v1_text (p @ data) secret, h', r')"
    using p(1) by (simp add: encrypt_data_def combined_eq)
  have "length (v1_text (p @ data) secret) = 32 + length (p @ data)"
    using dvd by (simp add: v1_text_def sealed_opened)
  moreover obtain h'' where "decrypt_data c h2 (v1_text (p @ data) secret) secret = Some (Inr data, h'')"
    using decrypt_data_result [OF assms(1,3,4), of "v1_text (p @ data) secret"] v1_open_text [OF p(2)] by metis
  moreover have "(32 + length (p @ data)) mod 16 = 0" "32 \<le> length p"
    using dvd p(2) by (presburger, simp add: padding_ok_def)
  ultimately show ?thesis
    using enc p(3) by auto
qed

theorem encrypt_data_roundtrip_witness:
  "\<exists>e h' r'. encrypt_data soft_cpu [] (\<lambda>i. word_of_nat i) [1, 2, 3] [9] = Some (e, h', r') \<and>
     (\<exists>h''. decrypt_data soft_cpu [] e [9] = Some (Inr [1, 2, 3], h''))"
  using encrypt_data_roundtrip [OF soft_cpu_ok, of "[]" "[]" "[9]" "\<lambda>i. word_of_nat i" "[1, 2, 3]"]
  by (auto simp: fits_int_def)

text \<open>
  C27: a message that one party encrypts with the public key of another and its own private
  key is decrypted by the other with its private key; and the proof that comes with the decrypted
  text lets anyone decrypt this message, without a private key.
\<close>

theorem encrypt_data_v2_between_keys:
  assumes "cpu_ok c" "no_oom h" "no_oom h2" "no_oom h3" "ed25519_agree ed"
    "get_public_key ed private_key = Inr pub" "get_public_key ed tmp_private = Inr tmp_pub"
    "compute_shared_secret ed pub tmp_private = Inr s"
    "fits_int (length s)" "fits_int (length salt)" "fits_int (length data + 47)"
  shows "\<exists>e pf h1 r1 h2' h3'. encrypt_data_to c ed h r data pub tmp_private salt = Some (Inr e, h1, r1) \<and>
    decrypt_data_from c ed h2 e private_key salt = Some (Inr \<lparr>proof_secret = pf, decrypted_text = data\<rparr>, h2') \<and>
    decrypt_data_with_proof c h3 e pf salt = Some (Inr data, h3')"
proof -
  have len: "length pub = 32" "length tmp_pub = 32"
    and agree: "compute_shared_secret ed tmp_pub private_key = Inr s"
    using assms(5) [unfolded ed25519_agree_def, rule_format, OF assms(6,7)] assms(8) by simp_all
  have fits: "fits_int (length data + 31)"
    using assms(11) by (simp add: fits_int_def)
  obtain p h1 r1 where enc: "encrypt_data_v2 c h r data s salt = Some (v2_text (p @ data) s salt, h1, r1)"
    and p: "padding_ok 16 p data" "length p < 32"
    using encrypt_data_v2_result [OF assms(1,2,9,10) fits] by metis
  let ?t = "v2_text (p @ data) s salt"
  let ?e = "xor_bytes pub tmp_pub @ ?t"
  have to: "encrypt_data_to c ed h r data pub tmp_private salt = Some (Inr ?e, h1, r1)"
    using enc len assms(7,8) by (simp add: encrypt_data_to_def secure_xor_def memcpy_at_def)
  have dvd: "16 dvd length (p @ data)"
    using p(1) by (simp add: padding_ok_def)
  have lt: "length ?t = 16 + length (p @ data)"
    by (rule length_v2_text [OF dvd])
  then have ft: "fits_int (length ?t)"
    using assms(11) p(2) by (simp add: fits_int_def)
  have e: "take 32 ?e = xor_bytes pub tmp_pub" "drop 32 ?e = ?t"
    using len by simp_all
  have x: "secure_xor (xor_bytes pub tmp_pub) pub = Some tmp_pub"
    using len by (simp add: secure_xor_def xor_bytes_commute [of pub] xor_bytes_cancel)
  let ?pf = "take 48 (fips_hmac EVP_sha512 s (v2_msg_key (p @ data) salt))"
  let ?D = "\<lparr>proof_secret = ?pf, decrypted_text = data\<rparr>"
  obtain h2' where "decrypt_data_v2 c h2 ?t s salt = Some (Inr ?D, h2')"
    using decrypt_data_v2_result [OF assms(1,3) ft assms(9,10)] v2_open_text [OF p(1)] by metis
  then have dec: "decrypt_data_from c ed h2 ?e private_key salt = Some (Inr ?D, h2')"
    using assms(6) agree x len unfolding decrypt_data_from_def e by simp
  have u: "unpack_encrypted_data ?t = Inr (v2_msg_key (p @ data) salt, drop 16 ?t)"
    using lt dvd p(1) by (auto simp: unpack_encrypted_data_def v2_text_def padding_ok_def dvd_eq_mod_eq_0)
  have open_with: "v2_open_with ?pf (v2_msg_key (p @ data) salt) (drop 16 ?t) salt = Inr data"
  proof -
    have "length ?t mod 16 = 0" "\<not> length ?t < 17" "take 16 ?t = v2_msg_key (p @ data) salt"
      using lt dvd p(1) by (auto simp: v2_text_def padding_ok_def dvd_eq_mod_eq_0)
    with v2_open_text [OF p(1), of s salt] show ?thesis
      by (cases "v2_open_with ?pf (v2_msg_key (p @ data) salt) (drop 16 ?t) salt")
        (auto simp: v2_open_def Let_def)
  qed
  have "16 dvd length (drop 16 ?t)" "fits_int (length (drop 16 ?t))"
    using lt dvd ft by (simp_all add: fits_int_def)
  then obtain h3' where "do_decrypt c h3 ?pf (v2_msg_key (p @ data) salt) (drop 16 ?t) salt =
      Some (Inr data, h3')"
    using do_decrypt_result [OF assms(1,4) _ _ assms(10), of "drop 16 ?t" "?pf" "v2_msg_key (p @ data) salt"]
      open_with by auto
  then have "decrypt_data_with_proof c h3 ?e ?pf salt = Some (Inr data, h3')"
    using len u unfolding decrypt_data_with_proof_def e by simp
  with to dec show ?thesis
    by blast
qed

theorem encrypt_data_v2_between_keys_witness:
  "\<exists>e pf h1 r1 h2'. encrypt_data_to soft_cpu demo_ed25519 [] (\<lambda>i. word_of_nat i) [7] (demo_public [1]) [2] [3] =
      Some (Inr e, h1, r1) \<and>
    decrypt_data_from soft_cpu demo_ed25519 [] e [1] [3] = Some (Inr \<lparr>proof_secret = pf, decrypted_text = [7]\<rparr>, h2')"
proof -
  let ?s = "xor_bytes (demo_public [1]) (demo_public [2])"
  have len: "length (demo_public k) = 32" for k
    using demo_ed25519_agree by (simp add: ed25519_agree_def demo_ed25519_def)
  have keys: "get_public_key demo_ed25519 [1] = Inr (demo_public [1])"
    "get_public_key demo_ed25519 [2] = Inr (demo_public [2])"
    "compute_shared_secret demo_ed25519 (demo_public [1]) [2] = Inr ?s"
    unfolding demo_ed25519_def by simp_all
  have fits: "fits_int (length ?s)" "fits_int (length [3 :: u8])" "fits_int (length [7 :: u8] + 47)"
    using len by (simp_all add: fits_int_def)
  have "no_oom []"
    by simp
  then obtain e pf h1 r1 h2' h3' where
    "encrypt_data_to soft_cpu demo_ed25519 [] (\<lambda>i. word_of_nat i) [7] (demo_public [1]) [2] [3] = Some (Inr e, h1, r1) \<and>
     decrypt_data_from soft_cpu demo_ed25519 [] e [1] [3] = Some (Inr \<lparr>proof_secret = pf, decrypted_text = [7]\<rparr>, h2') \<and>
     decrypt_data_with_proof soft_cpu [] e pf [3] = Some (Inr [7], h3')"
    using encrypt_data_v2_between_keys [OF soft_cpu_ok _ _ _ demo_ed25519_agree keys fits, of "[]" "[]" "[]"]
    by blast
  then show ?thesis
    by blast
qed

end
