(* ===== verification/Text.thy ===== *)
theory Text
  imports Prelude
begin

text \<open>
  Characters and text as \<open>td/utils/misc.h\<close>, \<open>misc.cpp\<close>, \<open>Slice.h\<close> and \<open>StringBuilder.cpp\<close> treat
  them: classes of characters, hexadecimal text, decimal numbers of type \<open>int32\<close>, and the run-length
  code for zero bytes. A \<open>char\<close> is the byte it is stored as; where the code compares characters as
  signed numbers, a byte from 128 on is negative and fails the same tests as the large unsigned number
  here, because every test bounds the character from both sides.
\<close>

datatype text_error =
    Wrong_hex_string_length
  | Wrong_hex_string
  | Not_a_hex_digit
  | Cannot_parse_number
  | Wrong_character
  | Wrong_string_length
  | Wrong_string_padding
  | Nonzero_padding
  | Wrong_adnl_id_size
  | Invalid_first_byte
  | Checksum_mismatch

type_synonym 'a text_result = "text_error + 'a"

section \<open>Characters\<close>

text \<open>The string literals of the code, as bytes.\<close>

definition ascii :: "string \<Rightarrow> bytes" where
  "ascii s = map (\<lambda>c. word_of_nat (of_char c)) s"

definition is_alpha :: "u8 \<Rightarrow> bool" where
  "is_alpha c = (let c = c OR 0x20 in 0x61 \<le> c \<and> c \<le> 0x7a)"

definition to_lower :: "u8 \<Rightarrow> u8" where
  "to_lower c = (if 0x41 \<le> c \<and> c \<le> 0x5a then c - 0x41 + 0x61 else c)"

definition is_digit :: "u8 \<Rightarrow> bool" where
  "is_digit c \<longleftrightarrow> 0x30 \<le> c \<and> c \<le> 0x39"

definition is_alnum :: "u8 \<Rightarrow> bool" where
  "is_alnum c \<longleftrightarrow> is_alpha c \<or> is_digit c"

definition is_hex_digit :: "u8 \<Rightarrow> bool" where
  "is_hex_digit c = (if is_digit c then True else let c = c OR 0x20 in 0x61 \<le> c \<and> c \<le> 0x66)"

text \<open>\<open>find\<close>: the position of the first delimiter.\<close>

definition find_byte :: "u8 \<Rightarrow> bytes \<Rightarrow> nat option" where
  "find_byte d s = (if d \<in> set s then Some (length (takeWhile (\<lambda>c. c \<noteq> d) s)) else None)"

section \<open>Hexadecimal text\<close>

definition hex_to_int :: "u8 \<Rightarrow> nat" where
  "hex_to_int c =
     (if is_digit c then unat (c - 0x30)
      else let c = c OR 0x20 in if 0x61 \<le> c \<and> c \<le> 0x66 then unat (c - 0x61) + 10 else 16)"

text \<open>The loop of \<open>hex_decode\<close> over the pairs of characters.\<close>

fun hex_pairs :: "bytes \<Rightarrow> bytes text_result" where
  "hex_pairs (a # b # hex) =
     (let high = hex_to_int a; low = hex_to_int b in
      if high = 16 \<or> low = 16 then Inl Wrong_hex_string
      else case hex_pairs hex of Inl e \<Rightarrow> Inl e | Inr r \<Rightarrow> Inr (word_of_nat (high * 16 + low) # r))"
| "hex_pairs _ = Inr []"

definition hex_decode :: "bytes \<Rightarrow> bytes text_result" where
  "hex_decode hex = (if length hex mod 2 \<noteq> 0 then Inl Wrong_hex_string_length else hex_pairs hex)"

text \<open>\<open>td::buffer_to_hex\<close>: the low half of a byte comes first.\<close>

definition hex_digit :: "u8 \<Rightarrow> u8" where
  "hex_digit n = ascii ''0123456789ABCDEF'' ! unat n"

definition buffer_to_hex :: "bytes \<Rightarrow> bytes" where
  "buffer_to_hex buffer = concat (map (\<lambda>c. [hex_digit (c AND 15), hex_digit (drop_bit 4 c)]) buffer)"

section \<open>Decimal numbers\<close>

text \<open>\<open>print_uint\<close> and \<open>print_int\<close> write a number into the buffer of a \<open>StringBuilder\<close>.\<close>

fun digits_rev :: "nat \<Rightarrow> bytes" where
  "digits_rev x = word_of_nat (0x30 + x mod 10) # (if x div 10 > 0 then digits_rev (x div 10) else [])"

declare digits_rev.simps [simp del]

definition print_uint :: "nat \<Rightarrow> bytes" where
  "print_uint x =
     (if x < 100 then
        if x < 10 then [word_of_nat (0x30 + x)]
        else [word_of_nat (0x30 + x div 10), word_of_nat (0x30 + x mod 10)]
      else rev (digits_rev x))"

definition print_int :: "int \<Rightarrow> bytes" where
  "print_int x = (if x < 0 then 0x2d # print_uint (nat (- x)) else print_uint (nat x))"

text \<open>\<open>to_integer\<close> at the type \<open>int32\<close>: the unsigned value wraps around, and stops at the first
  character that is not a digit.\<close>

fun digits_value :: "u32 \<Rightarrow> bytes \<Rightarrow> u32" where
  "digits_value v [] = v"
| "digits_value v (c # s) = (if is_digit c then digits_value (v * 10 + ucast (c - 0x30)) s else v)"

definition to_integer :: "bytes \<Rightarrow> int" where
  "to_integer str =
     (let (is_negative, str) = (case str of c # r \<Rightarrow> if c = 0x2d then (True, r) else (False, str) | [] \<Rightarrow> (False, []));
          integer_value = digits_value 0 str;
          (integer_value, is_negative) =
            (if integer_value > 0x7FFFFFFF then (NOT integer_value + 1, \<not> is_negative) else (integer_value, is_negative))
      in if integer_value > 0x7FFFFFFF then - (2 ^ 31)
         else if is_negative then sint (- integer_value) else sint integer_value)"

definition to_integer_safe :: "bytes \<Rightarrow> int text_result" where
  "to_integer_safe str =
     (let res = to_integer str in if print_int res \<noteq> str then Inl Cannot_parse_number else Inr res)"

section \<open>Runs of zero bytes\<close>

text \<open>
  \<open>x_encode\<close> writes a byte of the class \<open>f\<close> followed by the length of its run, at most 250;
  \<open>x_decode\<close> repeats it.
\<close>

definition run_length :: "u8 \<Rightarrow> bytes \<Rightarrow> nat" where
  "run_length c s = min 249 (length (takeWhile (\<lambda>d. d = c) s))"

function x_encode :: "(u8 \<Rightarrow> bool) \<Rightarrow> bytes \<Rightarrow> bytes" where
  "x_encode f [] = []"
| "x_encode f (c # s) =
     (if f c then c # word_of_nat (1 + run_length c s) # x_encode f (drop (run_length c s) s)
      else c # x_encode f s)"
  by pat_completeness auto
termination
  by (relation "measure (\<lambda>(f, s). length s)") auto

fun x_decode :: "(u8 \<Rightarrow> bool) \<Rightarrow> bytes \<Rightarrow> bytes" where
  "x_decode f [] = []"
| "x_decode f [c] = [c]"
| "x_decode f (c # n # s) = (if f c then replicate (unat n) c @ x_decode f s else c # x_decode f (n # s))"

definition is_zero :: "u8 \<Rightarrow> bool" where
  "is_zero c \<longleftrightarrow> c = 0"

definition is_zero_or_one :: "u8 \<Rightarrow> bool" where
  "is_zero_or_one c \<longleftrightarrow> c = 0 \<or> c = 0xff"

definition zero_encode :: "bytes \<Rightarrow> bytes" where
  "zero_encode data = x_encode is_zero data"

definition zero_decode :: "bytes \<Rightarrow> bytes" where
  "zero_decode data = x_decode is_zero data"

definition zero_one_encode :: "bytes \<Rightarrow> bytes" where
  "zero_one_encode data = x_encode is_zero_or_one data"

definition zero_one_decode :: "bytes \<Rightarrow> bytes" where
  "zero_one_decode data = x_decode is_zero_or_one data"

section \<open>Characters and numbers\<close>

lemma find_byte_less:
  assumes "find_byte d s = Some n"
  shows "n < length s"
proof -
  have "d \<in> set s \<Longrightarrow> length (takeWhile (\<lambda>c. c \<noteq> d) s) < length s"
    by (induction s) auto
  then show ?thesis
    using assms by (auto simp: find_byte_def split: if_splits)
qed

lemma or_exp: "c OR 2 ^ n = (if bit c n then c else c + 2 ^ n)" for c :: u8
proof (cases "bit c n")
  case True
  have "c OR 2 ^ n = c"
    by (rule bit_eqI) (use True in \<open>auto simp only: bit_or_iff bit_exp_iff\<close>)
  then show ?thesis
    using True by simp
next
  case False
  then have "c AND 2 ^ n = 0"
    by (simp only: and_exp_eq_0_iff_not_bit not_False_eq_True)
  then show ?thesis
    using False by (simp only: disjunctive_add_eq_or if_False)
qed

lemma or_0x20: "c OR 0x20 = (if bit c 5 then c else c + 0x20)" for c :: u8
  using or_exp [of c 5] by simp

lemma letters:
  fixes c :: u8
  shows "is_alpha c \<Longrightarrow> 0x61 \<le> to_lower c \<and> to_lower c \<le> 0x7a"
    "0x61 \<le> c \<Longrightarrow> c \<le> 0x7a \<Longrightarrow> is_alpha c \<and> to_lower c = c"
proof -
  show "0x61 \<le> c \<Longrightarrow> c \<le> 0x7a \<Longrightarrow> is_alpha c \<and> to_lower c = c"
  proof -
    assume c: "0x61 \<le> c" "c \<le> 0x7a"
    then have u: "97 \<le> unat c" "unat c \<le> 122"
      by (simp_all add: word_le_nat_alt)
    then have "unat c div 32 = 3"
      by simp
    then have "bit (unat c) 5"
      by (simp add: bit_iff_odd)
    then have "bit c 5"
      by (simp add: bit_unsigned_iff)
    then show ?thesis
      using c u by (simp add: is_alpha_def to_lower_def or_0x20 word_le_nat_alt)
  qed
  show "0x61 \<le> to_lower c \<and> to_lower c \<le> 0x7a" if a: "is_alpha c"
  proof (cases "bit c 5")
    case True
    then have "97 \<le> unat c" "unat c \<le> 122"
      using a by (simp_all add: is_alpha_def or_0x20 word_le_nat_alt)
    then show ?thesis
      by (simp add: to_lower_def word_le_nat_alt)
  next
    case False
    define d where "d = c + 0x20"
    have d: "97 \<le> unat d" "unat d \<le> 122"
      using a False by (simp_all add: is_alpha_def or_0x20 word_le_nat_alt d_def Let_def)
    have c: "c = d - 0x20"
      by (simp add: d_def)
    have "unat c = unat d - 32"
      unfolding c using d by (subst unat_sub) (simp_all add: word_le_nat_alt)
    then have "to_lower c = c - 0x41 + 0x61"
      using d by (simp add: to_lower_def word_le_nat_alt) linarith
    also have "\<dots> = d"
      by (simp add: d_def)
    finally show ?thesis
      using d by (simp add: word_le_nat_alt)
  qed
qed

lemma unat_u8_of_nat: "n < 256 \<Longrightarrow> unat (word_of_nat n :: u8) = n"
  by (simp add: unat_of_nat)

lemma u8_of_nat_unat: "word_of_nat (unat c) = (c :: u8)"
  by simp

lemma byte_cases: "(\<And>n. n < 256 \<Longrightarrow> P (word_of_nat n)) \<Longrightarrow> P (c :: u8)"
  by (metis unat_u8_less u8_of_nat_unat)

lemma x_decode_encode: "x_decode f (x_encode f s) = s"
proof (induction f s rule: x_encode.induct)
  case (2 f c s)
  define n where "n = run_length c s"
  have "take n s = replicate n c"
  proof -
    have "takeWhile (\<lambda>d. d = c) s = replicate (length (takeWhile (\<lambda>d. d = c) s)) c"
      by (metis (mono_tags, lifting) replicate_length_same set_takeWhileD)
    then show ?thesis
      unfolding n_def run_length_def
      by (metis min.cobounded2 take_replicate takeWhile_eq_take take_take)
  qed
  moreover have "unat (word_of_nat (1 + n) :: u8) = 1 + n"
    by (rule unat_u8_of_nat) (simp add: n_def run_length_def)
  ultimately have "replicate (unat (word_of_nat (1 + n) :: u8)) c @ drop n s = c # s"
    by (metis append_take_drop_id plus_1_eq_Suc replicate_Suc append_Cons)
  moreover have "f c \<Longrightarrow> x_decode f (x_encode f (drop n s)) = drop n s"
    using 2 by (simp add: n_def)
  moreover have "\<not> f c \<Longrightarrow> x_decode f (x_encode f (c # s)) = c # x_decode f (x_encode f s)"
    by (cases "x_encode f s") simp_all
  ultimately show ?case
    using 2(2) by (auto simp: n_def)
qed simp

lemma digit_char: "k < 10 \<Longrightarrow> is_digit (word_of_nat (0x30 + k)) \<and> ucast (word_of_nat (0x30 + k) - 0x30 :: u8) = (word_of_nat k :: u32)"
proof -
  assume k: "k < 10"
  have "unat (word_of_nat (0x30 + k) :: u8) = 0x30 + k"
    by (rule unat_u8_of_nat) (use k in simp)
  moreover have "(word_of_nat (0x30 + k) :: u8) - 0x30 = word_of_nat k"
    by simp
  moreover have "ucast (word_of_nat k :: u8) = (word_of_nat k :: u32)"
    using k by (intro unsigned_word_eqI [where 'a = nat]) (simp add: unsigned_ucast_eq unsigned_of_nat take_bit_nat_eq_self)
  ultimately show ?thesis
    using k by (simp only: is_digit_def word_le_nat_alt) simp
qed

lemma digits_value_snoc:
  "list_all is_digit s \<Longrightarrow> is_digit c \<Longrightarrow> digits_value v (s @ [c]) = digits_value v s * 10 + ucast (c - 0x30)"
  by (induction s arbitrary: v) auto

lemma rev_digits:
  "rev (digits_rev x) = (if x div 10 > 0 then rev (digits_rev (x div 10)) else []) @ [word_of_nat (0x30 + x mod 10)]"
  by (subst digits_rev.simps) simp

lemma digits_rev_value: "list_all is_digit (digits_rev x) \<and> digits_value 0 (rev (digits_rev x)) = word_of_nat x"
proof (induction x rule: digits_rev.induct)
  case (1 x)
  have d: "is_digit (word_of_nat (0x30 + x mod 10))"
      "ucast (word_of_nat (0x30 + x mod 10) - 0x30 :: u8) = (word_of_nat (x mod 10) :: u32)"
    using digit_char [of "x mod 10"] by (simp_all only: mod_less_divisor zero_less_numeral)
  define r where "r = (if x div 10 > 0 then rev (digits_rev (x div 10)) else [])"
  have r: "list_all is_digit r" "digits_value 0 r = word_of_nat (x div 10)"
    using 1 by (auto simp: r_def list_all_iff)
  have "word_of_nat (x div 10) * 10 + word_of_nat (x mod 10) = (word_of_nat (x div 10 * 10 + x mod 10) :: u32)"
    by (simp only: of_nat_add of_nat_mult of_nat_numeral)
  then have "digits_value 0 (r @ [word_of_nat (0x30 + x mod 10)]) = word_of_nat x"
    by (simp only: digits_value_snoc [OF r(1) d(1)] r(2) d(2) div_mult_mod_eq)
  moreover have "rev (digits_rev x) = r @ [word_of_nat (0x30 + x mod 10)]"
    unfolding r_def by (rule rev_digits)
  ultimately show ?case
    using r(1) d(1) by (metis list.pred_inject list_all_append list_all_rev)
qed

lemma print_uint_digits: "print_uint x = rev (digits_rev x)"
  by (auto simp: print_uint_def digits_rev.simps [of x] digits_rev.simps [of "x div 10"])

lemma print_uint_value: "list_all is_digit (print_uint x)" "digits_value 0 (print_uint x) = word_of_nat x" "print_uint x \<noteq> []"
  using digits_rev_value [of x] digits_rev.simps [of x] by (auto simp: print_uint_digits list_all_iff)

lemma sint_int32: "- (2 ^ 31) \<le> w \<Longrightarrow> w < 2 ^ 31 \<Longrightarrow> sint (word_of_int w :: u32) = w"
  by (simp add: signed_of_int signed_take_bit_int_eq_self)

lemma int32_bounds: "- (2 ^ 31) \<le> sint (v :: u32)" "sint (v :: u32) < 2 ^ 31"
  using sint_range_size [of v] by (simp_all add: word_size)

lemma to_integer_print:
  assumes "- (2 ^ 31) \<le> w" "w < 2 ^ 31"
  shows "to_integer (print_int w) = w"
proof (cases "w < 0")
  case True
  define n where "n = nat (- w)"
  have n: "n \<le> 2 ^ 31" "w = - int n" "n \<noteq> 0"
    using assms True by (auto simp: n_def)
  have v: "unat (word_of_nat n :: u32) = n"
    using n by (simp add: unat_of_nat)
  show ?thesis
  proof (cases "n = 2 ^ 31")
    case True
    then show ?thesis
      using n by (simp add: to_integer_def print_int_def print_uint_value n_def [symmetric])
  next
    case False
    then have "\<not> (word_of_nat n :: u32) > 0x7FFFFFFF" "sint (- (word_of_nat n :: u32)) = - int n"
      using n v sint_int32 [of "- int n"] by (auto simp: word_less_nat_alt)
    then show ?thesis
      using n by (simp add: to_integer_def print_int_def print_uint_value n_def [symmetric])
  qed
next
  case False
  define n where "n = nat w"
  have n: "n < 2 ^ 31" "w = int n"
    using assms False by (auto simp: n_def)
  obtain c r where c: "print_uint n = c # r" "is_digit c"
    using print_uint_value [of n] by (cases "print_uint n") auto
  then have "c \<noteq> 0x2d"
    by (auto simp: is_digit_def)
  moreover have "\<not> (word_of_nat n :: u32) > 0x7FFFFFFF" "sint (word_of_nat n :: u32) = int n"
    using n sint_int32 [of "int n"] by (auto simp: word_less_nat_alt unat_of_nat)
  ultimately show ?thesis
    using n c print_uint_value(2) [of n] by (simp add: to_integer_def print_int_def)
qed

lemma to_integer_range: "- (2 ^ 31) \<le> to_integer s \<and> to_integer s < 2 ^ 31"
  using int32_bounds by (simp add: to_integer_def Let_def split: prod.split)

text \<open>\<open>to_integer_safe\<close> accepts exactly what \<open>print_int\<close> writes.\<close>

lemma to_integer_safe_iff:
  "to_integer_safe s = Inr w \<longleftrightarrow> - (2 ^ 31) \<le> w \<and> w < 2 ^ 31 \<and> s = print_int w"
  using to_integer_print to_integer_range by (auto simp: to_integer_safe_def Let_def)

section \<open>Hexadecimal text\<close>

lemma low_half: "c AND 15 = take_bit 4 c" for c :: u8
  by (simp add: take_bit_eq_mask mask_eq_exp_minus_1)

lemma hex_digit_value: "n < 16 \<Longrightarrow> hex_to_int (hex_digit n) = unat n" for n :: u8
proof -
  assume "n < 16"
  have "list_all (\<lambda>k. hex_to_int (hex_digit (word_of_nat k)) = k) [0..<16]"
    by code_simp
  moreover have "unat n < 16"
    using \<open>n < 16\<close> by (simp add: word_less_nat_alt)
  ultimately have "hex_to_int (hex_digit (word_of_nat (unat n))) = unat n"
    by (auto simp only: list_all_iff set_upt atLeastLessThan_iff)
  then show ?thesis
    by simp
qed

text \<open>The two functions disagree on the order of the halves: decoding what was encoded swaps them.\<close>

lemma hex_decode_buffer_to_hex: "hex_decode (buffer_to_hex b) = Inr (map (word_rotl 4) b)"
proof -
  have "hex_pairs (buffer_to_hex b) = Inr (map (word_rotl 4) b)"
  proof (induction b)
    case (Cons c b)
    have c: "c AND 15 < 16" "drop_bit 4 c < 16"
      using less_mult_imp_div_less [of "unat c" 16 16]
      by (simp_all add: low_half word_less_nat_alt unat_drop_bit_eq unsigned_take_bit_eq take_bit_nat_def drop_bit_nat_def)
    have "word_of_nat (unat (c AND 15) * 16 + unat (drop_bit 4 c)) = push_bit 4 (take_bit 4 c) + drop_bit 4 c"
      by (simp add: low_half push_bit_eq_mult)
    also have "\<dots> = push_bit 4 (take_bit 4 c) OR drop_bit 4 c"
      by (rule disjunctive_add_eq_or, rule bit_word_eqI) (auto simp: bit_simps)
    also have "\<dots> = word_rotl 4 c"
    proof (rule bit_word_eqI)
      fix n assume "n < LENGTH(8)"
      moreover from this have "(n + 4) mod 8 = (if n < 4 then 4 + n else n - 4)"
        by (simp add: le_mod_geq)
      ultimately show "bit (push_bit 4 (take_bit 4 c) OR drop_bit 4 c) n = bit (word_rotl 4 c) n"
        by (auto simp: bit_simps)
    qed
    finally have "word_of_nat (unat (c AND 15) * 16 + unat (drop_bit 4 c)) = word_rotl 4 c" .
    moreover have "unat (c AND 15) \<noteq> 16" "unat (drop_bit 4 c) \<noteq> 16"
      using c by (auto simp: word_less_nat_alt)
    ultimately show ?case
      using Cons by (simp add: buffer_to_hex_def hex_digit_value c)
  qed (simp add: buffer_to_hex_def)
  moreover have "length (buffer_to_hex b) mod 2 = 0"
    by (induction b) (simp_all add: buffer_to_hex_def)
  ultimately show ?thesis
    by (simp add: hex_decode_def)
qed

section \<open>The bits of a word\<close>

text \<open>The low \<open>n\<close> bits of a word, the most significant one first.\<close>

definition bits_of :: "nat \<Rightarrow> 'a::len word \<Rightarrow> bool list" where
  "bits_of n x = map (\<lambda>i. bit x (n - 1 - i)) [0..<n]"

lemma length_bits_of [simp]: "length (bits_of n x) = n"
  by (simp add: bits_of_def)

lemma nth_bits_of [simp]: "i < n \<Longrightarrow> bits_of n x ! i = bit x (n - 1 - i)"
  by (simp add: bits_of_def)

lemma bits_of_eq_iff: "bits_of n x = bits_of n y \<longleftrightarrow> (\<forall>i<n. bit x i = bit y i)"
proof
  assume eq: "bits_of n x = bits_of n y"
  show "\<forall>i<n. bit x i = bit y i"
  proof (intro allI impI)
    fix i assume "i < n"
    then show "bit x i = bit y i"
      using arg_cong [OF eq, of "\<lambda>l. l ! (n - 1 - i)"] by simp
  qed
qed (auto intro: nth_equalityI)

lemma bits_of_append: "bits_of (n + m) x = bits_of n (drop_bit m x) @ bits_of m x"
  by (rule nth_equalityI) (auto simp: nth_append bit_drop_bit_eq algebra_simps not_less)

lemma bits_of_join:
  assumes "n + k \<le> LENGTH('a)" "\<And>i. bit x i \<Longrightarrow> i < k"
  shows "bits_of (n + k) (push_bit k c OR x) = bits_of n c @ bits_of k (x :: 'a::len word)"
proof -
  have "bits_of n (drop_bit k (push_bit k c OR x)) = bits_of n c"
    unfolding bits_of_eq_iff using assms by (auto simp: bit_simps)
  moreover have "bits_of k (push_bit k c OR x) = bits_of k x"
    unfolding bits_of_eq_iff by (auto simp: bit_simps)
  ultimately show ?thesis
    by (simp add: bits_of_append)
qed

lemma bits_of_ucast: "n \<le> LENGTH('a) \<Longrightarrow> n \<le> LENGTH('b) \<Longrightarrow> bits_of n (ucast (x :: 'a::len word) :: 'b::len word) = bits_of n x"
  by (auto simp: bits_of_eq_iff bit_simps)

lemma bits_of_u8_inject: "bits_of 8 x = bits_of 8 y \<longleftrightarrow> x = (y :: u8)"
  by (auto simp: bits_of_eq_iff intro: bit_word_eqI)

lemma bits_of_zero: "bits_of n 0 = replicate n False"
  by (auto simp: bits_of_def map_replicate_const)

end
