(* ===== verification/Mnemonic.thy ===== *)
theory Mnemonic
  imports Simple_Encryption Text
begin

text \<open>
  \<open>app/jni/ton/tonlib/keys/Mnemonic.cpp\<close> with the helpers of \<open>td/utils/misc.h\<close> it uses: the list of
  words from which a private key is derived. The words are brought into a normal form (letters in
  lower case, everything else a separator), and two checksums tell a seed without a password from one
  with a password. Creating a new mnemonic from the word list of \<open>bip39.cpp\<close> is not modelled.
\<close>

section \<open>Characters and words\<close>

text \<open>The loop of \<open>full_split\<close>; the bound on the number of parts is the largest \<open>size_t\<close>.\<close>

function split_loop :: "u8 \<Rightarrow> bytes \<Rightarrow> bytes list" where
  "split_loop delimiter s =
     (case find_byte delimiter s of
        None \<Rightarrow> [s]
      | Some delimiter_pos \<Rightarrow> take delimiter_pos s # split_loop delimiter (drop (delimiter_pos + 1) s))"
  by pat_completeness auto

termination
  by (relation "measure (\<lambda>(d, s). length s)") (auto dest: find_byte_less)

declare split_loop.simps [simp del]

definition full_split :: "bytes \<Rightarrow> u8 \<Rightarrow> bytes list" where
  "full_split s delimiter = (if s = [] then [] else split_loop delimiter s)"

definition normalize_and_split :: "bytes \<Rightarrow> bytes list" where
  "normalize_and_split words =
     (let words = map (\<lambda>c. if is_alpha c then to_lower c else 0x20) words;
          vec = full_split words 0x20
      in filter (\<lambda>s. s \<noteq> []) vec)"

definition join :: "bytes list \<Rightarrow> bytes" where
  "join words = concat (map (\<lambda>i. (if i \<noteq> 0 then [0x20] else []) @ words ! i) [0..<length words])"

section \<open>The mnemonic\<close>

record Mnemonic =
  mnemonic_words :: "bytes list"
  mnemonic_password :: bytes

definition create_from_normalized :: "bytes list \<Rightarrow> bytes \<Rightarrow> Mnemonic td_result" where
  "create_from_normalized words password =
     (let new_words = normalize_and_split (join words)
      in if new_words \<noteq> words then Inl Not_normalized else Inr \<lparr>mnemonic_words = words, mnemonic_password = password\<rparr>)"

definition create_from_string :: "bytes \<Rightarrow> bytes \<Rightarrow> Mnemonic td_result" where
  "create_from_string words password = create_from_normalized (normalize_and_split words) password"

definition create_from_words :: "bytes list \<Rightarrow> bytes \<Rightarrow> Mnemonic td_result" where
  "create_from_words words password = create_from_string (join words) password"

definition PBKDF_ITERATIONS :: int where
  "PBKDF_ITERATIONS = 100000"

definition to_entropy :: "heap \<Rightarrow> Mnemonic \<Rightarrow> (bytes \<times> heap) option" where
  "to_entropy h m = hmac_sha512 h (join (mnemonic_words m)) (mnemonic_password m) (replicate 64 0)"

definition to_seed :: "heap \<Rightarrow> Mnemonic \<Rightarrow> (bytes \<times> heap) option" where
  "to_seed h m = do {
     (entropy, h) \<leftarrow> to_entropy h m;
     pbkdf2_sha512 h entropy (ascii ''TON default seed'') PBKDF_ITERATIONS (replicate 64 0)
   }"

definition to_private_key :: "heap \<Rightarrow> Mnemonic \<Rightarrow> (bytes \<times> heap) option" where
  "to_private_key h m = do {
     (seed, h) \<leftarrow> to_seed h m;
     Some (take 32 seed, h)
   }"

definition is_basic_seed :: "heap \<Rightarrow> Mnemonic \<Rightarrow> (bool \<times> heap) option" where
  "is_basic_seed h m = do {
     (entropy, h) \<leftarrow> to_entropy h m;
     (hash, h) \<leftarrow> pbkdf2_sha512 h entropy (ascii ''TON seed version'') (max 1 (PBKDF_ITERATIONS div 256)) (replicate 64 0);
     Some (hash ! 0 = 0, h)
   }"

definition is_password_seed :: "heap \<Rightarrow> Mnemonic \<Rightarrow> (bool \<times> heap) option" where
  "is_password_seed h m = do {
     (entropy, h) \<leftarrow> to_entropy h m;
     (hash, h) \<leftarrow> pbkdf2_sha512 h entropy (ascii ''TON fast seed version'') 1 (replicate 64 0);
     Some (hash ! 0 = 1, h)
   }"

section \<open>Normal form\<close>

definition word_ok :: "bytes \<Rightarrow> bool" where
  "word_ok w \<longleftrightarrow> w \<noteq> [] \<and> list_all (\<lambda>c. 0x61 \<le> c \<and> c \<le> 0x7a) w"

lemma split_loop_no_delimiter: "d \<notin> set s \<Longrightarrow> split_loop d s = [s]"
  by (simp add: split_loop.simps find_byte_def)

lemma split_loop_word:
  assumes "d \<notin> set w"
  shows "split_loop d (w @ d # s) = w # split_loop d s"
proof -
  have "takeWhile (\<lambda>c. c \<noteq> d) (w @ d # s) = w"
    using assms by (simp add: takeWhile_append)
  then have "find_byte d (w @ d # s) = Some (length w)"
    by (simp add: find_byte_def)
  then show ?thesis
    by (subst split_loop.simps) simp
qed

text \<open>The parts have no delimiter, and their characters come from the string.\<close>

lemma split_loop_parts: "w \<in> set (split_loop d s) \<Longrightarrow> set w \<subseteq> set s - {d}"
proof (induction d s rule: split_loop.induct)
  case (1 d s)
  show ?case
  proof (cases "find_byte d s")
    case None
    then show ?thesis
      using 1(2) by (subst (asm) split_loop.simps) (auto simp: find_byte_def split: if_splits)
  next
    case (Some n)
    then have "take n s = takeWhile (\<lambda>c. c \<noteq> d) s"
      by (auto simp: find_byte_def takeWhile_eq_take [symmetric] split: if_splits)
    then have "set (take n s) \<subseteq> set s - {d}"
      by (auto dest: set_takeWhileD)
    moreover have "w \<in> set (split_loop d (drop (n + 1) s)) \<Longrightarrow> set w \<subseteq> set s - {d}"
      using 1(1) [OF Some] set_drop_subset [of "n + 1" s] by blast
    ultimately show ?thesis
      using 1(2) Some by (subst (asm) split_loop.simps) auto
  qed
qed

lemma normalize_and_split_words:
  assumes "w \<in> set (normalize_and_split s)"
  shows "word_ok w"
proof -
  let ?s = "map (\<lambda>c. if is_alpha c then to_lower c else 0x20) s"
  have "w \<in> set (split_loop 0x20 ?s)" "w \<noteq> []"
    using assms by (auto simp: normalize_and_split_def full_split_def Let_def split: if_splits)
  then have "set w \<subseteq> set ?s - {0x20}" "w \<noteq> []"
    using split_loop_parts by blast+
  then show ?thesis
    using letters(1) by (fastforce simp: word_ok_def list_all_iff split: if_splits)
qed

lemma join_simps:
  "join [] = []" "join [w] = w" "join (w # v # ws) = w @ 0x20 # join (v # ws)"
proof -
  have "join (w # v # ws) = w @ concat (map (\<lambda>i. 0x20 # (v # ws) ! i) [0..<Suc (length ws)])"
    unfolding join_def by (simp add: upt_conv_Cons map_Suc_upt [symmetric] comp_def del: upt_Suc)
  also have "\<dots> = w @ 0x20 # join (v # ws)"
    unfolding join_def by (simp add: upt_conv_Cons map_Suc_upt [symmetric] comp_def del: upt_Suc)
  finally show "join (w # v # ws) = w @ 0x20 # join (v # ws)" .
qed (simp_all add: join_def)

lemma split_join:
  assumes "list_all word_ok ws" "ws \<noteq> []"
  shows "split_loop 0x20 (join ws) = ws"
  using assms
proof (induction ws rule: induct_list012)
  case (2 w)
  then have "0x20 \<notin> set w"
    by (auto simp: word_ok_def list_all_iff)
  then show ?case
    by (simp add: join_simps split_loop_no_delimiter)
next
  case (3 w v ws)
  then have "0x20 \<notin> set w"
    by (auto simp: word_ok_def list_all_iff)
  then show ?case
    using 3 by (simp add: join_simps split_loop_word)
qed simp

lemma normalize_join_chars:
  assumes "list_all word_ok ws"
  shows "map (\<lambda>c. if is_alpha c then to_lower c else 0x20) (join ws) = join ws"
  using assms
proof (induction ws rule: induct_list012)
  case (3 w v ws)
  then have "map (\<lambda>c. if is_alpha c then to_lower c else 0x20) w = w"
    by (intro map_idI) (auto simp: word_ok_def list_all_iff letters(2))
  moreover have "\<not> is_alpha 0x20"
    by code_simp
  ultimately show ?case
    using 3 by (simp add: join_simps)
next
  case (2 w)
  then show ?case
    by (auto intro!: map_idI simp: join_simps word_ok_def list_all_iff letters(2))
qed (simp add: join_simps)

lemma join_Nil_iff: "list_all word_ok ws \<Longrightarrow> join ws = [] \<longleftrightarrow> ws = []"
  by (induction ws rule: induct_list012) (auto simp: join_simps word_ok_def)

lemma normalize_and_split_join:
  assumes "list_all word_ok ws"
  shows "normalize_and_split (join ws) = ws"
proof (cases "ws = []")
  case True
  then show ?thesis
    by (simp add: join_simps normalize_and_split_def full_split_def)
next
  case False
  then show ?thesis
    using assms join_Nil_iff [OF assms] unfolding normalize_and_split_def normalize_join_chars [OF assms]
    by (auto simp: full_split_def split_join filter_id_conv list_all_iff word_ok_def)
qed

section \<open>What is derived from a mnemonic\<close>

definition mnemonic_seed :: "string \<Rightarrow> nat \<Rightarrow> Mnemonic \<Rightarrow> bytes" where
  "mnemonic_seed salt n m =
     rfc_pbkdf2 EVP_sha512 (fips_hmac EVP_sha512 (join (mnemonic_words m)) (mnemonic_password m)) (ascii salt) n 64"

definition mnemonic_fits :: "Mnemonic \<Rightarrow> bool" where
  "mnemonic_fits m \<longleftrightarrow> fits_int (length (join (mnemonic_words m))) \<and> fits_int (length (mnemonic_password m))"

lemma to_entropy_result:
  assumes "no_oom h" "mnemonic_fits m"
  obtains h' where "to_entropy h m = Some (fips_hmac EVP_sha512 (join (mnemonic_words m)) (mnemonic_password m), h')"
    "no_oom h'"
  using hmac_into_result [OF assms(1), of "join (mnemonic_words m)" "mnemonic_password m" "replicate 64 0" EVP_sha512] assms(2)
  by (auto simp: to_entropy_def hmac_sha512_def mnemonic_fits_def)

lemma seed_result:
  assumes "no_oom h" "fits_int (length salt)" "0 < n"
  obtains h' where "pbkdf2_sha512 h (fips_hmac EVP_sha512 a b) salt n (replicate 64 0) =
      Some (rfc_pbkdf2 EVP_sha512 (fips_hmac EVP_sha512 a b) salt (nat n) 64, h')" "no_oom h'"
  using pbkdf2_impl_result [OF assms(1) _ assms(2) _ assms(3), of "fips_hmac EVP_sha512 a b" "replicate 64 0" EVP_sha512]
  by (auto simp: pbkdf2_sha512_def)

lemma to_private_key_result:
  assumes "no_oom h" "mnemonic_fits m"
  obtains h' where "to_private_key h m = Some (take 32 (mnemonic_seed ''TON default seed'' 100000 m), h')" "no_oom h'"
proof -
  let ?a = "join (mnemonic_words m)" and ?b = "mnemonic_password m"
  obtain h1 where h1: "to_entropy h m = Some (fips_hmac EVP_sha512 ?a ?b, h1)" "no_oom h1"
    by (rule to_entropy_result [OF assms])
  obtain h2 where "pbkdf2_sha512 h1 (fips_hmac EVP_sha512 ?a ?b) (ascii ''TON default seed'') PBKDF_ITERATIONS (replicate 64 0) =
      Some (mnemonic_seed ''TON default seed'' 100000 m, h2)" "no_oom h2"
    using seed_result [OF h1(2), of "ascii ''TON default seed''" PBKDF_ITERATIONS ?a ?b]
    by (auto simp: mnemonic_seed_def PBKDF_ITERATIONS_def ascii_def fits_int_def)
  with h1 show thesis
    by (intro that [of h2]) (auto simp: to_private_key_def to_seed_def)
qed

lemma is_basic_seed_result:
  assumes "no_oom h" "mnemonic_fits m"
  obtains h' where "is_basic_seed h m = Some (mnemonic_seed ''TON seed version'' 390 m ! 0 = 0, h')" "no_oom h'"
proof -
  let ?a = "join (mnemonic_words m)" and ?b = "mnemonic_password m"
  obtain h1 where h1: "to_entropy h m = Some (fips_hmac EVP_sha512 ?a ?b, h1)" "no_oom h1"
    by (rule to_entropy_result [OF assms])
  have n: "max 1 (PBKDF_ITERATIONS div 256) = 390"
    by (simp add: PBKDF_ITERATIONS_def)
  obtain h2 where "pbkdf2_sha512 h1 (fips_hmac EVP_sha512 ?a ?b) (ascii ''TON seed version'') 390 (replicate 64 0) =
      Some (mnemonic_seed ''TON seed version'' 390 m, h2)" "no_oom h2"
    using seed_result [OF h1(2), of "ascii ''TON seed version''" 390 ?a ?b]
    by (auto simp: mnemonic_seed_def ascii_def fits_int_def)
  with h1 show thesis
    by (intro that [of h2]) (auto simp: is_basic_seed_def n)
qed

lemma is_password_seed_result:
  assumes "no_oom h" "mnemonic_fits m"
  obtains h' where "is_password_seed h m = Some (mnemonic_seed ''TON fast seed version'' 1 m ! 0 = 1, h')" "no_oom h'"
proof -
  let ?a = "join (mnemonic_words m)" and ?b = "mnemonic_password m"
  obtain h1 where h1: "to_entropy h m = Some (fips_hmac EVP_sha512 ?a ?b, h1)" "no_oom h1"
    by (rule to_entropy_result [OF assms])
  obtain h2 where "pbkdf2_sha512 h1 (fips_hmac EVP_sha512 ?a ?b) (ascii ''TON fast seed version'') 1 (replicate 64 0) =
      Some (mnemonic_seed ''TON fast seed version'' 1 m, h2)" "no_oom h2"
    using seed_result [OF h1(2), of "ascii ''TON fast seed version''" 1 ?a ?b]
    by (auto simp: mnemonic_seed_def ascii_def fits_int_def)
  with h1 show thesis
    by (intro that [of h2]) (auto simp: is_password_seed_def)
qed

lemma mnemonic_create:
  "create_from_string s password = Inr \<lparr>mnemonic_words = normalize_and_split s, mnemonic_password = password\<rparr>"
proof -
  have "list_all word_ok (normalize_and_split s)"
    using normalize_and_split_words by (auto simp: list_all_iff)
  then show ?thesis
    by (simp add: create_from_string_def create_from_normalized_def normalize_and_split_join)
qed

section \<open>Properties\<close>

text \<open>
  C31: \<open>create\<close> never rejects its input. It brings any string, or any list of strings, into the
  same normal form, whose words are non-empty and consist of small letters; the check in
  \<open>create_from_normalized\<close> accepts exactly the lists in this form; and the words of a mnemonic give
  the same mnemonic again.
\<close>

theorem mnemonic_normal_form:
  "\<exists>m. create_from_string s password = Inr m \<and> list_all word_ok (mnemonic_words m) \<and>
      create_from_words (mnemonic_words m) password = Inr m \<and>
      create_from_normalized ws password =
        (if list_all word_ok ws then Inr \<lparr>mnemonic_words = ws, mnemonic_password = password\<rparr> else Inl Not_normalized)"
proof -
  have ok: "list_all word_ok (normalize_and_split t)" for t
    using normalize_and_split_words by (auto simp: list_all_iff)
  have norm: "create_from_normalized ws password =
      (if list_all word_ok ws then Inr \<lparr>mnemonic_words = ws, mnemonic_password = password\<rparr> else Inl Not_normalized)" for ws
  proof (cases "list_all word_ok ws")
    case True
    then show ?thesis
      by (simp add: create_from_normalized_def normalize_and_split_join)
  next
    case False
    then have "normalize_and_split (join ws) \<noteq> ws"
      using ok [of "join ws"] by metis
    then show ?thesis
      using False by (simp add: create_from_normalized_def)
  qed
  then show ?thesis
    using ok [of s] by (auto simp: create_from_words_def create_from_string_def normalize_and_split_join)
qed

text \<open>
  C32: the private key depends on the text the user enters only through its normal form: upper
  and lower case, and what stands between the words, make no difference; and the key is 32 bytes of
  the PBKDF2 key of RFC 8018 over the HMAC of the words, joined by single spaces, and the password.
\<close>

theorem mnemonic_private_key_of_text:
  assumes "no_oom h" "fits_int (length (join (normalize_and_split s)))" "fits_int (length password)"
  shows "\<exists>m h'. create_from_string s password = Inr m \<and>
    to_private_key h m = Some (take 32 (rfc_pbkdf2 EVP_sha512
      (fips_hmac EVP_sha512 (join (normalize_and_split s)) password) (ascii ''TON default seed'') 100000 64), h') \<and>
    (normalize_and_split s' = normalize_and_split s \<longrightarrow> create_from_string s' password = Inr m)"
proof -
  obtain m where m: "create_from_string s password = Inr m"
    using mnemonic_create [of s password] by blast
  then have e: "m = \<lparr>mnemonic_words = normalize_and_split s, mnemonic_password = password\<rparr>"
    by (auto simp: create_from_string_def create_from_normalized_def Let_def split: if_splits)
  then have "mnemonic_fits m"
    using assms by (simp add: mnemonic_fits_def)
  then obtain h' where "to_private_key h m = Some (take 32 (mnemonic_seed ''TON default seed'' 100000 m), h')"
    using to_private_key_result [OF assms(1)] by blast
  then show ?thesis
    using m e by (auto simp: mnemonic_seed_def create_from_string_def)
qed

theorem mnemonic_private_key_of_text_witness:
  "\<exists>m h'. create_from_string (ascii ''Abandon  ability-ABLE'') [] = Inr m \<and>
    create_from_string (ascii ''abandon ability able'') [] = Inr m \<and>
    to_private_key [] m = Some (take 32 (rfc_pbkdf2 EVP_sha512
      (fips_hmac EVP_sha512 (ascii ''abandon ability able'') []) (ascii ''TON default seed'') 100000 64), h')"
proof -
  have n: "normalize_and_split (ascii ''Abandon  ability-ABLE'') = normalize_and_split (ascii ''abandon ability able'')"
    "join (normalize_and_split (ascii ''abandon ability able'')) = ascii ''abandon ability able''"
    by code_simp+
  have f: "fits_int (length (join (normalize_and_split (ascii ''abandon ability able''))))"
    unfolding n by (simp add: ascii_def fits_int_def)
  show ?thesis
    using mnemonic_private_key_of_text [of "[]" "ascii ''abandon ability able''" "[]" "ascii ''Abandon  ability-ABLE''"]
      f n by (auto simp: fits_int_def)
qed

end
