(* ===== verification/TL_Storage.thy ===== *)
theory TL_Storage
  imports Hash_Blocks "HOL-Library.Monad_Syntax"
begin

text \<open>
  The binary format in which the TON client library keeps its records: \<open>td/utils/tl_storers.h\<close>,
  \<open>tl_parsers.h\<close> and \<open>tl_helpers.h\<close> under \<open>app/jni/ton\<close>. A storer writes to a buffer whose length a
  second storer has calculated; a parser reads from a buffer, and after an error goes on reading from
  32 zero bytes. \<open>None\<close> is the end of the process (a failed \<open>CHECK\<close>, \<open>LOG(FATAL)\<close>) or, in the parser,
  a read outside of the buffer.

  Main results: a record that was stored is parsed back, as long as no string has 2^31 bytes or more,
  and for longer ones it is not; and the parser stays inside its buffer on every input.
\<close>

section \<open>Storing\<close>

definition byte_of :: "nat \<Rightarrow> u8" where
  "byte_of n = word_of_nat n"

definition store_int32 :: "nat \<Rightarrow> bytes" where
  "store_int32 x = [byte_of x, byte_of (x div 2 ^ 8), byte_of (x div 2 ^ 16), byte_of (x div 2 ^ 24)]"

text \<open>The \<open>switch\<close> that falls through.\<close>

definition tl_padding :: "nat \<Rightarrow> bytes" where
  "tl_padding len =
     (if len AND 3 = 1 then [0, 0, 0] else if len AND 3 = 2 then [0, 0] else if len AND 3 = 3 then [0] else [])"

definition store_string :: "bytes \<Rightarrow> bytes option" where
  "store_string str =
     (let len = length str in
      if len < 254 then Some ([byte_of len] @ str @ tl_padding (len + 1))
      else if len < 2 ^ 24 then
        Some ([254, byte_of (len AND 255), byte_of ((len div 2 ^ 8) AND 255), byte_of (len div 2 ^ 16)] @ str @ tl_padding len)
      else if len < 2 ^ 32 then
        Some ([255, byte_of (len AND 255), byte_of ((len div 2 ^ 8) AND 255), byte_of ((len div 2 ^ 16) AND 255),
               byte_of ((len div 2 ^ 24) AND 255), 0, 0, 0] @ str @ tl_padding len)
      else None)"

fun store_strings :: "bytes list \<Rightarrow> bytes option" where
  "store_strings [] = Some []"
| "store_strings (x # xs) = do { a \<leftarrow> store_string x; b \<leftarrow> store_strings xs; Some (a @ b) }"

definition store_vector :: "bytes list \<Rightarrow> bytes option" where
  "store_vector vec =
     (if length vec < 2 ^ 31 then do { b \<leftarrow> store_strings vec; Some (store_int32 (length vec) @ b) } else None)"

text \<open>\<open>TlStorerCalcLength\<close>.\<close>

definition calc_string :: "bytes \<Rightarrow> nat" where
  "calc_string str =
     (let add = length str;
          add = (if add < 254 then add + 1 else if add < 2 ^ 24 then add + 4 else add + 8)
      in (add + 3) div 4 * 4)"

definition calc_vector :: "bytes list \<Rightarrow> nat option" where
  "calc_vector vec = (if length vec < 2 ^ 31 then Some (4 + sum_list (map calc_string vec)) else None)"

text \<open>\<open>RawDecryptedKey\<close> of \<open>tonlib/keys/DecryptedKey.h\<close>.\<close>

record RawDecryptedKey =
  raw_mnemonic_words :: "bytes list"
  raw_private_key :: bytes

definition store_key :: "RawDecryptedKey \<Rightarrow> bytes option" where
  "store_key x = do {
     a \<leftarrow> store_vector (raw_mnemonic_words x);
     b \<leftarrow> store_string (raw_private_key x);
     Some (a @ b)
   }"

definition serialize_secure :: "RawDecryptedKey \<Rightarrow> bytes option" where
  "serialize_secure x = do {
     n \<leftarrow> calc_vector (raw_mnemonic_words x);
     let len = n + calc_string (raw_private_key x);
     data \<leftarrow> store_key x;
     if length data = len then Some data else None
   }"

section \<open>Parsing\<close>

text \<open>\<open>data\<close> is the buffer from the pointer on.\<close>

record TlParser =
  data :: bytes
  data_len :: nat
  left_len :: nat
  tl_error :: "string option"
  error_pos :: nat

definition TlParser_new :: "bytes \<Rightarrow> TlParser" where
  "TlParser_new s =
     \<lparr>data = s, data_len = length s, left_len = length s, tl_error = None, error_pos = 2 ^ 64 - 1\<rparr>"

definition empty_data :: bytes where
  "empty_data = replicate 32 0"

definition set_error :: "string \<Rightarrow> TlParser \<Rightarrow> TlParser option" where
  "set_error msg p =
     (if tl_error p = None then
        Some (p\<lparr>tl_error := Some msg, error_pos := data_len p - left_len p, data := empty_data,
          left_len := 0, data_len := 0\<rparr>)
      else if error_pos p \<noteq> 2 ^ 64 - 1 \<and> data_len p = 0 \<and> left_len p = 0 then Some (p\<lparr>data := empty_data\<rparr>)
      else None)"

definition check_len :: "nat \<Rightarrow> TlParser \<Rightarrow> TlParser option" where
  "check_len len p =
     (if left_len p < len then set_error ''Not enough data to read'' p
      else Some (p\<lparr>left_len := left_len p - len\<rparr>))"

text \<open>The bytes from the pointer on, \<open>n\<close> of them or none when the buffer ends before.\<close>

definition peek :: "nat \<Rightarrow> bytes \<Rightarrow> bytes option" where
  "peek n d = (if n \<le> length d then Some (take n d) else None)"

definition advance :: "nat \<Rightarrow> TlParser \<Rightarrow> TlParser" where
  "advance n p = p\<lparr>data := drop n (data p)\<rparr>"

definition fetch_int :: "TlParser \<Rightarrow> (nat \<times> TlParser) option" where
  "fetch_int p = do {
     p \<leftarrow> check_len 4 p;
     b \<leftarrow> peek 4 (data p);
     Some (unat (b ! 0) + unat (b ! 1) * 2 ^ 8 + unat (b ! 2) * 2 ^ 16 + unat (b ! 3) * 2 ^ 24, advance 4 p)
   }"

text \<open>
  The length of a string with the mark 255: the first four terms are added as 32-bit \<open>int\<close>, and the
  sum is converted to \<open>uint64\<close>.
\<close>

definition long_length :: "bytes \<Rightarrow> nat" where
  "long_length b =
     (let low = ucast (b ! 1) + push_bit 8 (ucast (b ! 2)) + push_bit 16 (ucast (b ! 3)) + push_bit 24 (ucast (b ! 4)) :: 32 word
      in unat (scast low + push_bit 32 (ucast (b ! 5)) + push_bit 40 (ucast (b ! 6)) + push_bit 48 (ucast (b ! 7)) :: 64 word))"

text \<open>
  The last part of \<open>fetch_string\<close>: the string has \<open>result_len\<close> bytes from \<open>result_begin\<close> on.
\<close>

definition fetch_body :: "bytes \<Rightarrow> nat \<Rightarrow> nat \<Rightarrow> TlParser \<Rightarrow> (bytes \<times> TlParser) option" where
  "fetch_body result_begin result_len result_aligned_len p = do {
     p \<leftarrow> check_len result_aligned_len p;
     if tl_error p \<noteq> None then Some ([], p)
     else do {
       s \<leftarrow> peek result_len result_begin;
       Some (s, advance result_aligned_len p)
     }
   }"

definition fetch_string :: "TlParser \<Rightarrow> (bytes \<times> TlParser) option" where
  "fetch_string p = do {
     p \<leftarrow> check_len 4 p;
     b \<leftarrow> peek 4 (data p);
     let result_len = unat (b ! 0);
     if result_len < 254 then
       fetch_body (drop 1 (data p)) result_len (result_len div 4 * 4) (advance 4 p)
     else if result_len = 254 then
       let result_len = unat (b ! 1) + unat (b ! 2) * 2 ^ 8 + unat (b ! 3) * 2 ^ 16
       in fetch_body (drop 4 (data p)) result_len ((result_len + 3) div 4 * 4) (advance 4 p)
     else do {
       p \<leftarrow> check_len 4 p;
       b \<leftarrow> peek 8 (data p);
       let result_len = long_length b;
       if 2 ^ 64 - 1 - 3 < result_len then do {
         p \<leftarrow> set_error ''Too big string found'' p;
         Some ([], p)
       } else fetch_body (drop 8 (data p)) result_len ((result_len + 3) div 4 * 4) (advance 8 p)
     }
   }"

fun fetch_strings :: "nat \<Rightarrow> TlParser \<Rightarrow> (bytes list \<times> TlParser) option" where
  "fetch_strings 0 p = Some ([], p)"
| "fetch_strings (Suc n) p = do {
     (x, p) \<leftarrow> fetch_string p;
     (xs, p) \<leftarrow> fetch_strings n p;
     Some (x # xs, p)
   }"

definition parse_vector :: "TlParser \<Rightarrow> (bytes list \<times> TlParser) option" where
  "parse_vector p = do {
     (size, p) \<leftarrow> fetch_int p;
     if left_len p < size then do {
       p \<leftarrow> set_error ''Wrong vector length'' p;
       Some ([], p)
     } else fetch_strings size p
   }"

definition fetch_end :: "TlParser \<Rightarrow> TlParser option" where
  "fetch_end p = (if left_len p \<noteq> 0 then set_error ''Too much data to fetch'' p else Some p)"

text \<open>\<open>unserialize\<close>: the object as far as it was parsed, and the error with its position, if any.\<close>

definition unserialize :: "bytes \<Rightarrow> (RawDecryptedKey \<times> (string \<times> nat) option) option" where
  "unserialize s = do {
     let p = TlParser_new s;
     (words, p) \<leftarrow> parse_vector p;
     (key, p) \<leftarrow> fetch_string p;
     p \<leftarrow> fetch_end p;
     Some (\<lparr>raw_mnemonic_words = words, raw_private_key = key\<rparr>,
           map_option (\<lambda>e. (e, error_pos p)) (tl_error p))
   }"

section \<open>Numbers and padding\<close>

lemma unat_byte_of [simp]: "unat (byte_of n) = n mod 256"
  by (simp add: byte_of_def unat_word_of_nat_mod)

lemma and_3: "(n :: nat) AND 3 = n mod 4"
  using take_bit_eq_mask [of 2 n] by (simp add: take_bit_eq_mod mask_eq_exp_minus_1)

lemma and_255: "(n :: nat) AND 255 = n mod 256"
  using take_bit_eq_mask [of 8 n] by (simp add: take_bit_eq_mod mask_eq_exp_minus_1)

lemma length_tl_padding: "length (tl_padding n) = (4 - n mod 4) mod 4"
proof -
  have "n mod 4 < 4" by simp
  then consider "n mod 4 = 0" | "n mod 4 = 1" | "n mod 4 = 2" | "n mod 4 = 3" by linarith
  then show ?thesis
    by cases (simp_all add: tl_padding_def and_3)
qed

lemma padded_length:
  "length (tl_padding (n + 1)) + n = n div 4 * 4 + 3" "length (tl_padding n) + n = (n + 3) div 4 * 4"
proof -
  define q r where "q = n div 4" and "r = n mod 4"
  have n: "n = 4 * q + r"
    by (simp add: q_def r_def)
  have dm: "(4 * q + k) mod 4 = k mod 4" "(4 * q + k) div 4 = q + k div 4" for k
    by simp_all
  have "r < 4"
    by (simp add: r_def)
  then have r: "r = 0 \<or> r = 1 \<or> r = 2 \<or> r = 3" by linarith
  show "length (tl_padding (n + 1)) + n = n div 4 * 4 + 3"
    unfolding length_tl_padding n add.assoc dm using r by (elim disjE) simp_all
  show "length (tl_padding n) + n = (n + 3) div 4 * 4"
    unfolding length_tl_padding n add.assoc dm using r by (elim disjE) simp_all
qed

lemma round_up_4: "n \<le> (n + 3) div 4 * 4" for n :: nat
proof -
  have "(n + 3) div 4 * 4 + (n + 3) mod 4 = n + 3"
    by (rule div_mult_mod_eq)
  moreover have "(n + 3) mod 4 < 4"
    by simp
  ultimately show ?thesis by linarith
qed

lemma round_up_shift: "(n + 4 * k + 3) div 4 * 4 = (n + 3) div 4 * 4 + 4 * k" for n :: nat
proof -
  have "(n + 4 * k + 3) div 4 = (n + 3 + k * 4) div 4"
    by (simp add: ac_simps)
  also have "\<dots> = (n + 3) div 4 + k"
    by (rule div_mult_self1 [OF zero_neq_numeral [symmetric], THEN trans]) (rule add.commute)
  finally show ?thesis
    by simp
qed

lemma nat_digits:
  fixes n :: nat
  shows "n mod 256 + (n div 2 ^ 8 mod 256) * 2 ^ 8 + (n div 2 ^ 16) * 2 ^ 16 = n"
    "n mod 256 + (n div 2 ^ 8 mod 256) * 2 ^ 8 + (n div 2 ^ 16 mod 256) * 2 ^ 16 + (n div 2 ^ 24) * 2 ^ 24 = n"
proof -
  define x y z where "x = n div 256" and "y = x div 256" and "z = y div 256"
  have eq: "n div 2 ^ 8 = x" "n div 2 ^ 16 = y" "n div 2 ^ 24 = z"
    by (simp_all add: x_def y_def z_def div_mult2_eq [symmetric])
  define a b c where "a = n mod 256" and "b = x mod 256" and "c = y mod 256"
  have split: "n = 256 * x + a" "x = 256 * y + b" "y = 256 * z + c"
    unfolding x_def y_def z_def a_def b_def c_def by (rule mult_div_mod_eq [symmetric])+
  have "a + b * 256 + y * 65536 = n" "a + b * 256 + c * 65536 + z * 16777216 = n"
    using split by linarith+
  then show "n mod 256 + (n div 2 ^ 8 mod 256) * 2 ^ 8 + (n div 2 ^ 16) * 2 ^ 16 = n"
    "n mod 256 + (n div 2 ^ 8 mod 256) * 2 ^ 8 + (n div 2 ^ 16 mod 256) * 2 ^ 16 + (n div 2 ^ 24) * 2 ^ 24 = n"
    unfolding eq by (simp_all add: a_def b_def c_def)
qed

definition long_header :: "nat \<Rightarrow> bytes" where
  "long_header n = [255, byte_of (n AND 255), byte_of ((n div 2 ^ 8) AND 255), byte_of ((n div 2 ^ 16) AND 255),
     byte_of ((n div 2 ^ 24) AND 255), 0, 0, 0]"

lemma length_long_header [simp]: "length (long_header n) = 8"
  by (simp add: long_header_def)

lemma ucast_byte_of: "(ucast (byte_of m) :: 'a::len word) = word_of_nat (m mod 256)"
  by (metis of_nat_unat unat_byte_of)

lemma push_byte_of: "push_bit k (ucast (byte_of m) :: 'a::len word) = word_of_nat (m mod 256 * 2 ^ k)"
  by (simp add: push_bit_eq_mult ucast_byte_of)

text \<open>Reading back the length: the top bit of the fourth byte is taken for a sign.\<close>

lemma long_length_header:
  assumes "n < 2 ^ 32"
  shows "long_length (long_header n) = (if n < 2 ^ 31 then n else 2 ^ 64 - 2 ^ 32 + n)"
proof -
  let ?m = "n mod 256 + (n div 2 ^ 8 mod 256) * 2 ^ 8 + (n div 2 ^ 16 mod 256) * 2 ^ 16 + (n div 2 ^ 24 mod 256) * 2 ^ 24"
  have "n div 2 ^ 24 < 256"
    using assms by (simp add: less_mult_imp_div_less)
  then have m: "?m = n"
    using nat_digits(2) [of n] by simp
  have "ucast (byte_of (n AND 255)) + push_bit 8 (ucast (byte_of ((n div 2 ^ 8) AND 255))) +
      push_bit 16 (ucast (byte_of ((n div 2 ^ 16) AND 255))) + push_bit 24 (ucast (byte_of ((n div 2 ^ 24) AND 255))) =
      (word_of_nat ?m :: 32 word)"
    unfolding push_byte_of unfolding ucast_byte_of by (simp only: and_255 of_nat_add mod_mod_trivial)
  then have "long_length (long_header n) = unat (scast (word_of_nat n :: 32 word) :: 64 word)"
    unfolding m by (simp add: long_length_def long_header_def Let_def)
  also have "\<dots> = (if n < 2 ^ 31 then n else 2 ^ 64 - 2 ^ 32 + n)"
  proof (cases "n < 2 ^ 31")
    case True
    then have "sint (word_of_nat n :: 32 word) = int n"
      by (simp add: signed_of_nat signed_take_bit_int_eq_self)
    then have "(scast (word_of_nat n :: 32 word) :: 64 word) = word_of_nat n"
      by (simp add: scast_eq)
    then show ?thesis
      using True by (simp add: unat_word_of_nat_mod)
  next
    case False
    have "(int n - 2147483648 + 4294967296) mod 4294967296 = int n - 2147483648"
      using assms False by (subst mod_add_self2) (simp add: mod_pos_pos_trivial)
    then have "(int n + 2147483648) mod 4294967296 = int n - 2147483648"
      by (simp add: add.commute)
    then have "sint (word_of_nat n :: 32 word) = int n - 2 ^ 32"
      using assms False by (simp add: signed_of_nat signed_take_bit_int_eq_self_iff signed_take_bit_eq_take_bit_shift take_bit_eq_mod)
    then have "(scast (word_of_nat n :: 32 word) :: 64 word) = word_of_int (int n - 2 ^ 32)"
      by (simp add: scast_eq)
    also have "\<dots> = word_of_int (int (2 ^ 64 - 2 ^ 32 + n))"
    proof -
      have "int (2 ^ 64 - 2 ^ 32 + n) = (int n - 2 ^ 32) + 2 ^ 64"
        by simp
      then have "int (2 ^ 64 - 2 ^ 32 + n) mod 2 ^ 64 = (int n - 2 ^ 32) mod 2 ^ 64"
        by (simp only: mod_add_self2)
      moreover have "LENGTH(64) = 64"
        by simp
      ultimately show ?thesis
        by (intro word_of_int_eq_iff [THEN iffD2]) (simp only: take_bit_eq_mod)
    qed
    also have "\<dots> = word_of_nat (2 ^ 64 - 2 ^ 32 + n)"
      by simp
    finally have e: "(scast (word_of_nat n :: 32 word) :: 64 word) = word_of_nat (2 ^ 64 - 2 ^ 32 + n)" .
    have "unat (word_of_nat (2 ^ 64 - 2 ^ 32 + n) :: 64 word) = 2 ^ 64 - 2 ^ 32 + n"
      by (subst unat_word_of_nat_mod) (use assms in simp)
    then show ?thesis
      unfolding e using False by (simp only: if_False)
  qed
  finally show ?thesis .
qed

section \<open>The parser stays in its buffer\<close>

text \<open>
  Before an error the pointer and the length that is left agree. After an error nothing is left, so
  that the check before the next read sets the pointer back to the 32 zero bytes.
\<close>

definition parser_ok :: "TlParser \<Rightarrow> bool" where
  "parser_ok p \<longleftrightarrow> data_len p < 2 ^ 64 - 1 \<and>
     (if tl_error p = None then left_len p = length (data p) \<and> left_len p \<le> data_len p
      else left_len p = 0 \<and> data_len p = 0 \<and> error_pos p \<noteq> 2 ^ 64 - 1)"

text \<open>After a check for \<open>n\<close> bytes: they are there, or the zero bytes are.\<close>

definition checked :: "nat \<Rightarrow> TlParser \<Rightarrow> bool" where
  "checked n p \<longleftrightarrow> data_len p < 2 ^ 64 - 1 \<and>
     (if tl_error p = None then left_len p + n = length (data p) \<and> left_len p + n \<le> data_len p
      else left_len p = 0 \<and> data_len p = 0 \<and> error_pos p \<noteq> 2 ^ 64 - 1 \<and> (0 < n \<longrightarrow> data p = empty_data))"

lemma set_error_ok:
  assumes "parser_ok p"
  obtains p' where "set_error msg p = Some p'" "parser_ok p'" "tl_error p' \<noteq> None" "data p' = empty_data"
  using assms by (cases "tl_error p") (fastforce simp: set_error_def parser_ok_def)+

lemma check_len_checked:
  assumes "parser_ok p"
  obtains p' where "check_len n p = Some p'" "checked n p'" "tl_error p' = None \<Longrightarrow> data p' = data p"
proof (cases "left_len p < n")
  case True
  obtain p' where "set_error ''Not enough data to read'' p = Some p'" "parser_ok p'" "tl_error p' \<noteq> None"
      "data p' = empty_data"
    by (rule set_error_ok [OF assms])
  then show thesis
    using True by (intro that [of p']) (auto simp: check_len_def checked_def parser_ok_def)
next
  case False
  then show thesis
    using assms by (intro that [of "p\<lparr>left_len := left_len p - n\<rparr>"])
      (auto simp: check_len_def checked_def parser_ok_def split: if_splits)
qed

lemma checked_advance: "checked n p \<Longrightarrow> parser_ok (advance n p)"
  by (auto simp: checked_def parser_ok_def advance_def split: if_splits)

lemma length_empty_data [simp]: "length empty_data = 32"
  by (simp add: empty_data_def)

lemma checked_peek:
  assumes "checked n p" "0 < n" "n \<le> 32"
  shows "peek n (data p) = Some (take n (data p))"
  using assms by (auto simp: checked_def peek_def split: if_splits)

lemma fetch_int_ok:
  assumes "parser_ok p"
  obtains x p' where "fetch_int p = Some (x, p')" "parser_ok p'"
proof -
  obtain p1 where p1: "check_len 4 p = Some p1" "checked 4 p1"
    by (rule check_len_checked [OF assms])
  then show thesis
    using checked_peek [OF p1(2)] checked_advance [OF p1(2)] by (intro that) (simp_all add: fetch_int_def)
qed

lemma fetch_body_ok:
  assumes "parser_ok p" "tl_error p = None \<Longrightarrow> al \<le> left_len p \<Longrightarrow> n \<le> length b"
  obtains x p' where "fetch_body b n al p = Some (x, p')" "parser_ok p'"
proof -
  obtain p1 where p1: "check_len al p = Some p1" "checked al p1" "tl_error p1 = None \<Longrightarrow> data p1 = data p"
    using check_len_checked [OF assms(1), of al] by blast
  show thesis
  proof (cases "tl_error p1 = None")
    case True
    then have "al \<le> left_len p" "tl_error p = None"
      using p1(1) by (auto simp: check_len_def set_error_def split: if_splits)
    then have "peek n b = Some (take n b)"
      using assms(2) by (simp add: peek_def)
    then show thesis
      using True p1 checked_advance [OF p1(2)] by (intro that) (simp_all add: fetch_body_def)
  next
    case False
    then have "parser_ok p1"
      using p1(2) by (auto simp: checked_def parser_ok_def)
    then show thesis
      using False p1 by (intro that [of "[]" p1]) (auto simp: fetch_body_def)
  qed
qed

lemma fetch_string_ok:
  assumes "parser_ok p"
  obtains x p' where "fetch_string p = Some (x, p')" "parser_ok p'"
proof -
  obtain p1 where p1: "check_len 4 p = Some p1" "checked 4 p1"
    by (rule check_len_checked [OF assms])
  have pk: "peek 4 (data p1) = Some (take 4 (data p1))"
    using checked_peek [OF p1(2)] by simp
  have adv: "parser_ok (advance 4 p1)"
    by (rule checked_advance [OF p1(2)])
  let ?b = "take 4 (data p1)"
  have left: "tl_error p1 = None \<Longrightarrow> length (data p1) = left_len p1 + 4"
    using p1(2) by (auto simp: checked_def)
  consider "unat (?b ! 0) < 254" | "unat (?b ! 0) = 254" | "254 < unat (?b ! 0)" by linarith
  then show thesis
  proof cases
    case 1
    have "tl_error (advance 4 p1) = None \<Longrightarrow> unat (?b ! 0) div 4 * 4 \<le> left_len (advance 4 p1) \<Longrightarrow>
        unat (?b ! 0) \<le> length (drop 1 (data p1))"
      using left by (simp add: advance_def)
    from fetch_body_ok [OF adv this] obtain x p' where
      "fetch_body (drop 1 (data p1)) (unat (?b ! 0)) (unat (?b ! 0) div 4 * 4) (advance 4 p1) = Some (x, p')" "parser_ok p'" .
    then show thesis
      using that 1 p1 pk by (simp add: fetch_string_def Let_def)
  next
    case 2
    let ?n = "unat (?b ! 1) + unat (?b ! 2) * 2 ^ 8 + unat (?b ! 3) * 2 ^ 16"
    have "tl_error (advance 4 p1) = None \<Longrightarrow> (?n + 3) div 4 * 4 \<le> left_len (advance 4 p1) \<Longrightarrow>
        ?n \<le> length (drop 4 (data p1))"
      using left by (simp add: advance_def)
    from fetch_body_ok [OF adv this] obtain x p' where
      "fetch_body (drop 4 (data p1)) ?n ((?n + 3) div 4 * 4) (advance 4 p1) = Some (x, p')" "parser_ok p'" .
    then show thesis
      using that 2 p1 pk by (simp add: fetch_string_def Let_def)
  next
    case 3
    \<comment> \<open>the second check of four bytes, with the pointer still at the start of the header\<close>
    obtain p2 where p2: "check_len 4 p1 = Some p2" "checked 8 p2"
    proof (cases "tl_error p1 = None \<and> 4 \<le> left_len p1")
      case True
      then show thesis
        using p1(2) by (intro that [of "p1\<lparr>left_len := left_len p1 - 4\<rparr>"])
          (auto simp: check_len_def checked_def)
    next
      case False
      then show thesis
        using p1(2) by (cases "tl_error p1")
          (fastforce simp: check_len_def checked_def set_error_def intro: that)+
    qed
    have pk2: "peek 8 (data p2) = Some (take 8 (data p2))"
      using checked_peek [OF p2(2)] by simp
    have adv2: "parser_ok (advance 8 p2)"
      by (rule checked_advance [OF p2(2)])
    let ?n = "long_length (take 8 (data p2))"
    show thesis
    proof (cases "2 ^ 64 - 1 - 3 < ?n")
      case big: True
      have "set_error ''Too big string found'' p2 \<noteq> None \<and> (\<forall>q. set_error ''Too big string found'' p2 = Some q \<longrightarrow> parser_ok q)"
        using p2(2) by (cases "tl_error p2") (auto simp: checked_def set_error_def parser_ok_def)
      then obtain q where "set_error ''Too big string found'' p2 = Some q" "parser_ok q"
        by blast
      then show thesis
        using that [of "[]" q] 3 p1 pk p2 pk2 big by (simp add: fetch_string_def Let_def)
    next
      case False
      have "?n \<le> length (drop 8 (data p2))"
        if "tl_error (advance 8 p2) = None" "(?n + 3) div 4 * 4 \<le> left_len (advance 8 p2)"
        using p2(2) that(1) order_trans [OF round_up_4 that(2)] by (auto simp: advance_def checked_def)
      from fetch_body_ok [OF adv2 this] obtain x p' where
        "fetch_body (drop 8 (data p2)) ?n ((?n + 3) div 4 * 4) (advance 8 p2) = Some (x, p')" "parser_ok p'" .
      then show thesis
        using that 3 p1 pk p2 pk2 False by (simp add: fetch_string_def Let_def)
    qed
  qed
qed

lemma fetch_strings_ok:
  assumes "parser_ok p"
  shows "\<exists>xs p'. fetch_strings n p = Some (xs, p') \<and> parser_ok p'"
  using assms
proof (induction n arbitrary: p)
  case (Suc n)
  obtain x p1 where p1: "fetch_string p = Some (x, p1)" "parser_ok p1"
    by (rule fetch_string_ok [OF Suc.prems])
  with Suc.IH [OF p1(2)] show ?case by auto
qed simp

lemma parse_vector_ok:
  assumes "parser_ok p"
  obtains xs p' where "parse_vector p = Some (xs, p')" "parser_ok p'"
proof -
  obtain n p1 where p1: "fetch_int p = Some (n, p1)" "parser_ok p1"
    by (rule fetch_int_ok [OF assms])
  obtain p2 where "set_error ''Wrong vector length'' p1 = Some p2" "parser_ok p2"
    by (rule set_error_ok [OF p1(2)])
  then show thesis
    using that p1 fetch_strings_ok [OF p1(2), of n] by (cases "left_len p1 < n") (auto simp: parse_vector_def)
qed

section \<open>Round trips\<close>

text \<open>A parser in front of \<open>d\<close>, with the rest of its buffer still to come.\<close>

definition at_data :: "bytes \<Rightarrow> TlParser \<Rightarrow> bool" where
  "at_data d p \<longleftrightarrow> tl_error p = None \<and> data p = d \<and> left_len p = length d"

lemma check_len_at_data:
  "at_data d p \<Longrightarrow> n \<le> length d \<Longrightarrow> check_len n p = Some (p\<lparr>left_len := length d - n\<rparr>)"
  by (auto simp: at_data_def check_len_def)

lemma fetch_body_at_data:
  assumes "tl_error p = None" "data p = d" "left_len p = length d" "al \<le> length d" "n \<le> length b"
  obtains p' where "fetch_body b n al p = Some (take n b, p')" "at_data (drop al d) p'"
  using assms by (intro that [of "advance al (p\<lparr>left_len := length d - al\<rparr>)"])
    (simp_all add: fetch_body_def check_len_def peek_def advance_def at_data_def)

lemma store_string_cases:
  assumes "length str < 2 ^ 32"
  obtains (short) "length str < 254" "store_string str = Some ([byte_of (length str)] @ str @ tl_padding (length str + 1))"
  | (medium) "254 \<le> length str" "length str < 2 ^ 24"
      "store_string str = Some ([254, byte_of (length str AND 255), byte_of ((length str div 2 ^ 8) AND 255),
         byte_of (length str div 2 ^ 16)] @ str @ tl_padding (length str))"
  | (long) "2 ^ 24 \<le> length str" "store_string str = Some (long_header (length str) @ str @ tl_padding (length str))"
proof (cases "length str < 254 \<or> length str < 2 ^ 24")
  case True
  then show thesis
    using short medium by (cases "length str < 254") (auto simp: store_string_def Let_def)
next
  case False
  then show thesis
    using assms by (intro long) (simp_all add: store_string_def Let_def long_header_def)
qed

lemma length_store_string:
  assumes "store_string str = Some s"
  shows "length s = calc_string str" "4 \<le> length s"
proof -
  have "length str < 2 ^ 32"
    using assms by (auto simp: store_string_def Let_def split: if_splits)
  then have "length s = calc_string str \<and> 4 \<le> length s"
  proof (cases rule: store_string_cases)
    case short
    have "(length str + 4) div 4 = length str div 4 + 1"
      by (rule div_add_self2) simp
    then have "(length str + 1 + 3) div 4 * 4 = length str div 4 * 4 + 4"
      by (simp only: add.assoc numeral_plus_one one_plus_numeral arith_simps) simp
    then show ?thesis
      using short assms padded_length(1) [of "length str"] by (simp add: calc_string_def)
  next
    case medium
    have "(length str + 4 + 3) div 4 * 4 = (length str + 3) div 4 * 4 + 4"
      using round_up_shift [of "length str" 1] by simp
    then show ?thesis
      using medium assms padded_length(2) [of "length str"] by (auto simp: calc_string_def)
  next
    case long
    have "(length str + 8 + 3) div 4 * 4 = (length str + 3) div 4 * 4 + 8"
      using round_up_shift [of "length str" 2] by simp
    then show ?thesis
      using long assms padded_length(2) [of "length str"] by (auto simp: calc_string_def)
  qed
  then show "length s = calc_string str" "4 \<le> length s" by auto
qed

text \<open>The three forms of a string, when the header can be read.\<close>

lemma fetch_string_forms:
  assumes "check_len 4 p = Some q" "peek 4 (data q) = Some b"
  shows "unat (b ! 0) < 254 \<Longrightarrow> n = unat (b ! 0) \<Longrightarrow>
      fetch_string p = fetch_body (drop 1 (data q)) n (n div 4 * 4) (advance 4 q)"
    "unat (b ! 0) = 254 \<Longrightarrow> n = unat (b ! 1) + unat (b ! 2) * 2 ^ 8 + unat (b ! 3) * 2 ^ 16 \<Longrightarrow>
      fetch_string p = fetch_body (drop 4 (data q)) n ((n + 3) div 4 * 4) (advance 4 q)"
    "254 < unat (b ! 0) \<Longrightarrow> check_len 4 q = Some q' \<Longrightarrow> peek 8 (data q') = Some b' \<Longrightarrow> n = long_length b' \<Longrightarrow>
      fetch_string p = (if 2 ^ 64 - 1 - 3 < n then
          do { p \<leftarrow> set_error ''Too big string found'' q'; Some ([], p) }
        else fetch_body (drop 8 (data q')) n ((n + 3) div 4 * 4) (advance 8 q'))"
  using assms by (simp_all add: fetch_string_def Let_def)

lemma fetch_string_stored:
  assumes "at_data (s @ rest) p" "store_string str = Some s" "length str < 2 ^ 31"
  obtains p' where "fetch_string p = Some (str, p')" "at_data rest p'"
proof -
  let ?n = "length str"
  let ?p = "p\<lparr>left_len := length (s @ rest) - 4\<rparr>"
  have p1: "check_len 4 p = Some ?p"
    using length_store_string(2) [OF assms(2)] by (intro check_len_at_data [OF assms(1)]) simp
  have d: "data p = s @ rest" "tl_error p = None"
    using assms(1) by (simp_all add: at_data_def)
  have "?n < 2 ^ 32" using assms(3) by simp
  then show thesis
  proof (cases rule: store_string_cases)
    case short
    then have s: "s = byte_of ?n # str @ tl_padding (?n + 1)"
      using assms(2) by simp
    have al: "length (str @ tl_padding (?n + 1)) = ?n div 4 * 4 + 3"
      using padded_length(1) [of ?n] by simp
    have pk: "peek 4 (data p) = Some (take 4 (s @ rest))" "unat (take 4 (s @ rest) ! 0) = ?n"
      using al short(1) d by (simp_all add: peek_def s)
    have drop: "drop (?n div 4 * 4) (drop 4 (s @ rest)) = rest"
      using al by (simp add: s add.commute)
    obtain p' where "fetch_body (drop 1 (data p)) ?n (?n div 4 * 4) (advance 4 ?p) = Some (take ?n (drop 1 (s @ rest)), p')"
        "at_data (drop (?n div 4 * 4) (drop 4 (s @ rest))) p'"
      by (rule fetch_body_at_data [of "advance 4 ?p" "drop 4 (s @ rest)" "?n div 4 * 4" ?n "drop 1 (data p)"])
        (use d al in \<open>auto simp: advance_def s\<close>)
    moreover have "take ?n (drop 1 (s @ rest)) = str"
      by (simp add: s)
    moreover have "data ?p = s @ rest"
      using d by simp
    ultimately show thesis
      using that [of p'] fetch_string_forms(1) [OF p1, of "take 4 (s @ rest)" ?n] pk short(1) drop d by simp
  next
    case medium
    let ?h = "[254, byte_of (?n AND 255), byte_of ((?n div 2 ^ 8) AND 255), byte_of (?n div 2 ^ 16)] :: bytes"
    have s: "s = ?h @ str @ tl_padding ?n"
      using medium assms(2) by simp
    have al: "length (str @ tl_padding ?n) = (?n + 3) div 4 * 4"
      using padded_length(2) [of ?n] by simp
    have pk: "peek 4 (data p) = Some ?h"
      using d by (simp add: peek_def s)
    have "?n div 2 ^ 16 < 256"
      using medium(2) by (simp add: less_mult_imp_div_less)
    then have len: "unat (?h ! 1) + unat (?h ! 2) * 2 ^ 8 + unat (?h ! 3) * 2 ^ 16 = ?n"
      using nat_digits(1) [of ?n] by (simp add: and_255)
    obtain p' where "fetch_body (drop 4 (data p)) ?n ((?n + 3) div 4 * 4) (advance 4 ?p) = Some (take ?n (drop 4 (s @ rest)), p')"
        "at_data (drop ((?n + 3) div 4 * 4) (drop 4 (s @ rest))) p'"
      by (rule fetch_body_at_data [of "advance 4 ?p" "drop 4 (s @ rest)" "(?n + 3) div 4 * 4" ?n "drop 4 (data p)"])
        (use d al in \<open>auto simp: advance_def s\<close>)
    moreover have "drop ((?n + 3) div 4 * 4) (drop 4 (s @ rest)) = rest" "take ?n (drop 4 (s @ rest)) = str"
      using al by (simp_all add: s)
    moreover have "unat (?h ! 0) = 254" "peek 4 (data ?p) = Some ?h" "data ?p = data p"
      using pk by simp_all
    ultimately show thesis
      using that [of p'] fetch_string_forms(2) [OF p1, of ?h ?n] len by (simp only:)
  next
    case long
    let ?h = "long_header ?n"
    have s: "s = ?h @ str @ tl_padding ?n"
      using long assms(2) by simp
    have al: "length (str @ tl_padding ?n) = (?n + 3) div 4 * 4"
      using padded_length(2) [of ?n] by simp
    have pk: "peek 4 (data p) = Some (take 4 ?h)" "peek 8 (data p) = Some ?h"
      using d by (simp_all add: peek_def s)
    have len: "long_length ?h = ?n" "unat (take 4 ?h ! 0) = 255"
      using long_length_header [of ?n] assms(3) by (simp_all add: long_header_def)
    let ?q = "?p\<lparr>left_len := length (s @ rest) - 8\<rparr>"
    have p2: "check_len 4 ?p = Some ?q"
      using d by (simp add: check_len_def s)
    obtain p' where "fetch_body (drop 8 (data p)) ?n ((?n + 3) div 4 * 4) (advance 8 ?q) = Some (take ?n (drop 8 (s @ rest)), p')"
        "at_data (drop ((?n + 3) div 4 * 4) (drop 8 (s @ rest))) p'"
      by (rule fetch_body_at_data [of "advance 8 ?q" "drop 8 (s @ rest)" "(?n + 3) div 4 * 4" ?n "drop 8 (data p)"])
        (use d al in \<open>auto simp: advance_def s\<close>)
    moreover have "drop ((?n + 3) div 4 * 4) (drop 8 (s @ rest)) = rest" "take ?n (drop 8 (s @ rest)) = str"
      using al by (simp_all add: s)
    moreover have "\<not> 2 ^ 64 - 1 - 3 < ?n" "254 < unat (take 4 ?h ! 0)"
      using assms(3) len(2) by simp_all
    moreover have "peek 4 (data ?p) = Some (take 4 ?h)" "peek 8 (data ?q) = Some ?h" "data ?q = data p"
      using pk by simp_all
    ultimately show thesis
      using that [of p'] fetch_string_forms(3) [OF p1, of "take 4 ?h" ?q ?h ?n] p2 len(1)
      by (simp only: if_False)
  qed
qed

lemma fetch_int_stored:
  assumes "at_data (store_int32 n @ rest) p" "n < 2 ^ 32"
  obtains p' where "fetch_int p = Some (n, p')" "at_data rest p'"
proof -
  let ?s = "store_int32 n @ rest"
  let ?p = "p\<lparr>left_len := length ?s - 4\<rparr>"
  have l: "length (store_int32 n) = 4"
    by (simp add: store_int32_def)
  have p1: "check_len 4 p = Some ?p"
    using l by (intro check_len_at_data [OF assms(1)]) simp
  have pk: "peek 4 (data ?p) = Some (store_int32 n)"
    using assms(1) l by (simp add: at_data_def peek_def)
  have "n div 2 ^ 24 < 256"
    using assms(2) by (simp add: less_mult_imp_div_less)
  then have d: "unat (store_int32 n ! 0) + unat (store_int32 n ! 1) * 2 ^ 8 +
      unat (store_int32 n ! 2) * 2 ^ 16 + unat (store_int32 n ! 3) * 2 ^ 24 = n"
    using nat_digits(2) [of n] by (simp add: store_int32_def)
  have "fetch_int p = Some (n, advance 4 ?p)"
    unfolding fetch_int_def p1 using pk d by simp
  moreover have "at_data rest (advance 4 ?p)"
    using assms(1) l by (simp add: at_data_def advance_def)
  ultimately show thesis
    by (rule that)
qed

lemma store_string_Some: "length w < 2 ^ 32 \<Longrightarrow> \<exists>s. store_string w = Some s"
  by (auto simp: store_string_def Let_def)

lemma store_strings_ok:
  assumes "list_all (\<lambda>w. length w < 2 ^ 32) ws"
  obtains s where "store_strings ws = Some s" "length s = sum_list (map calc_string ws)" "4 * length ws \<le> length s"
  using assms
proof (induction ws arbitrary: thesis)
  case (Cons w ws)
  obtain a where a: "store_string w = Some a"
    using Cons.prems(2) store_string_Some [of w] by auto
  obtain b where "store_strings ws = Some b" "length b = sum_list (map calc_string ws)" "4 * length ws \<le> length b"
    using Cons by auto
  then show ?case
    using Cons.prems(1) [of "a @ b"] a length_store_string [OF a] by simp
qed simp

lemma fetch_strings_stored:
  assumes "at_data (s @ rest) p" "store_strings ws = Some s" "list_all (\<lambda>w. length w < 2 ^ 31) ws"
  shows "\<exists>p'. fetch_strings (length ws) p = Some (ws, p') \<and> at_data rest p'"
  using assms
proof (induction ws arbitrary: p s)
  case (Cons w ws)
  obtain a b where ab: "store_string w = Some a" "store_strings ws = Some b" "s = a @ b"
    using Cons.prems(2) by (auto simp: bind_eq_Some_conv)
  have "at_data (a @ (b @ rest)) p" "length w < 2 ^ 31"
    using Cons.prems ab by simp_all
  then obtain p1 where p1: "fetch_string p = Some (w, p1)" "at_data (b @ rest) p1"
    using fetch_string_stored [OF _ ab(1)] by blast
  obtain p2 where "fetch_strings (length ws) p1 = Some (ws, p2)" "at_data rest p2"
    using Cons.IH [OF p1(2) ab(2)] Cons.prems(3) by auto
  then show ?case
    using p1 by simp
qed simp

lemma parse_vector_stored:
  assumes "at_data (s @ rest) p" "store_vector ws = Some s" "list_all (\<lambda>w. length w < 2 ^ 31) ws"
  obtains p' where "parse_vector p = Some (ws, p')" "at_data rest p'"
proof -
  obtain b where b: "length ws < 2 ^ 31" "store_strings ws = Some b" "s = store_int32 (length ws) @ b"
    using assms(2) by (auto simp: store_vector_def bind_eq_Some_conv split: if_splits)
  have "list_all (\<lambda>w. length w < 2 ^ 32) ws"
    using assms(3) by (auto simp: list_all_iff)
  then have "length ws \<le> length b"
    using store_strings_ok [of ws] b(2) by fastforce
  obtain p1 where p1: "fetch_int p = Some (length ws, p1)" "at_data (b @ rest) p1"
    using fetch_int_stored [of "length ws" "b @ rest" p] assms(1) b(1,3) by auto
  obtain p2 where "fetch_strings (length ws) p1 = Some (ws, p2)" "at_data rest p2"
    using fetch_strings_stored [OF p1(2) b(2) assms(3)] by blast
  moreover have "\<not> left_len p1 < length ws"
    using p1(2) \<open>length ws \<le> length b\<close> by (simp add: at_data_def)
  ultimately show thesis
    using that p1(1) by (simp add: parse_vector_def)
qed

definition key_fits :: "RawDecryptedKey \<Rightarrow> bool" where
  "key_fits x \<longleftrightarrow> length (raw_mnemonic_words x) < 2 ^ 31 \<and>
     list_all (\<lambda>w. length w < 2 ^ 31) (raw_mnemonic_words x) \<and> length (raw_private_key x) < 2 ^ 31"

lemma serialize_secure_result:
  assumes "key_fits x"
  obtains a b where "store_vector (raw_mnemonic_words x) = Some a" "store_string (raw_private_key x) = Some b"
    "serialize_secure x = Some (a @ b)"
proof -
  let ?ws = "raw_mnemonic_words x" and ?k = "raw_private_key x"
  have ws: "list_all (\<lambda>w. length w < 2 ^ 32) ?ws" and k: "length ?k < 2 ^ 32"
    using assms by (auto simp: key_fits_def list_all_iff)
  obtain s where s: "store_strings ?ws = Some s" "length s = sum_list (map calc_string ?ws)"
    by (rule store_strings_ok [OF ws])
  obtain b where b: "store_string ?k = Some b"
    using store_string_Some [OF k] by blast
  have n: "length ?ws < 2 ^ 31"
    using assms by (simp add: key_fits_def)
  show thesis
    using n s b length_store_string(1) [OF b]
    by (intro that [of "store_int32 (length ?ws) @ s" b])
      (simp_all add: store_vector_def serialize_secure_def store_key_def calc_vector_def store_int32_def)
qed

lemma unserialize_stored:
  assumes "store_vector (raw_mnemonic_words x) = Some a" "store_string (raw_private_key x) = Some b" "key_fits x"
  shows "unserialize (a @ b) = Some (x, None)"
proof -
  have p: "at_data (a @ b) (TlParser_new (a @ b))"
    by (simp add: at_data_def TlParser_new_def)
  obtain p1 where p1: "parse_vector (TlParser_new (a @ b)) = Some (raw_mnemonic_words x, p1)" "at_data b p1"
    using parse_vector_stored [OF p assms(1)] assms(3) by (auto simp: key_fits_def)
  obtain p2 where "fetch_string p1 = Some (raw_private_key x, p2)" "at_data [] p2"
    using fetch_string_stored [of b "[]" p1, OF _ assms(2)] p1(2) assms(3) by (auto simp: key_fits_def)
  then show ?thesis
    using p1(1) by (simp add: unserialize_def fetch_end_def at_data_def)
qed

section \<open>The size of what is parsed\<close>

definition small_data :: "nat \<Rightarrow> TlParser \<Rightarrow> bool" where
  "small_data N p \<longleftrightarrow> length (data p) \<le> N \<and> left_len p \<le> N"

lemma small_check_len:
  assumes "check_len n p = Some p'" "small_data N p" "32 \<le> N"
  shows "small_data N p'"
  using assms by (auto simp: check_len_def set_error_def small_data_def split: if_splits)

lemma small_advance: "small_data N p \<Longrightarrow> small_data N (advance n p)"
  by (auto simp: small_data_def advance_def)

lemma small_fetch_int:
  assumes "fetch_int p = Some (x, p')" "small_data N p" "32 \<le> N"
  shows "small_data N p'"
  using assms small_check_len [OF _ assms(2,3)]
  by (auto simp: fetch_int_def small_advance split: bind_splits)

lemma small_fetch_body:
  assumes "fetch_body b n al p = Some (x, p')" "length b \<le> N" "small_data N p" "32 \<le> N"
  shows "length x \<le> N" "small_data N p'"
  using assms small_check_len [OF _ assms(3,4)]
  by (auto simp: fetch_body_def peek_def small_advance split: bind_splits if_splits)

lemma small_fetch_string:
  assumes "fetch_string p = Some (x, p')" "small_data N p" "32 \<le> N"
  shows "length x \<le> N \<and> small_data N p'"
proof -
  obtain p1 b where p1: "check_len 4 p = Some p1" "peek 4 (data p1) = Some b" "small_data N p1"
    using assms small_check_len [OF _ assms(2,3)] by (auto simp: fetch_string_def split: bind_splits)
  have d: "length (drop k (data p1)) \<le> N" for k
    using p1(3) by (auto simp: small_data_def)
  consider "unat (b ! 0) < 254" | "unat (b ! 0) = 254" | "254 < unat (b ! 0)" by linarith
  then show ?thesis
  proof cases
    case 1
    then show ?thesis
      using assms(1) p1(1,2) small_fetch_body [OF _ d small_advance [OF p1(3)] assms(3)]
      by (simp add: fetch_string_def Let_def)
  next
    case 2
    then show ?thesis
      using assms(1) p1(1,2) small_fetch_body [OF _ d small_advance [OF p1(3)] assms(3)]
      by (simp add: fetch_string_def Let_def)
  next
    case 3
    then obtain p2 c where p2: "check_len 4 p1 = Some p2" "peek 8 (data p2) = Some c"
      using assms(1) p1(1,2) by (auto simp: fetch_string_def Let_def split: bind_splits)
    have s: "small_data N p2"
      by (rule small_check_len [OF p2(1) p1(3) assms(3)])
    then have d2: "length (drop k (data p2)) \<le> N" for k
      by (auto simp: small_data_def)
    show ?thesis
    proof (cases "2 ^ 64 - 1 - 3 < long_length c")
      case True
      then have "x = []" "set_error ''Too big string found'' p2 = Some p'"
        using assms(1) 3 p1(1,2) p2 by (auto simp: fetch_string_def Let_def split: bind_splits)
      then show ?thesis
        using s assms(3) by (auto simp: set_error_def small_data_def split: if_splits)
    next
      case False
      then show ?thesis
        using assms(1) 3 p1(1,2) p2 small_fetch_body [OF _ d2 small_advance [OF s] assms(3)]
        by (simp add: fetch_string_def Let_def)
    qed
  qed
qed

lemma small_fetch_strings:
  "fetch_strings n p = Some (xs, p') \<Longrightarrow> small_data N p \<Longrightarrow> 32 \<le> N \<Longrightarrow>
     length xs = n \<and> list_all (\<lambda>x. length x \<le> N) xs \<and> small_data N p'"
proof (induction n p arbitrary: xs p' rule: fetch_strings.induct)
  case (2 n p)
  then obtain x p1 ys where "fetch_string p = Some (x, p1)" "fetch_strings n p1 = Some (ys, p')" "xs = x # ys"
    by (auto split: bind_splits)
  moreover from this have "length x \<le> N \<and> small_data N p1"
    using small_fetch_string 2 by blast
  ultimately show ?case
    using 2 by auto
qed simp

lemma parse_vector_small:
  assumes "parse_vector p = Some (xs, p')" "small_data N p" "32 \<le> N"
  shows "length xs \<le> N \<and> list_all (\<lambda>x. length x \<le> N) xs \<and> small_data N p'"
proof -
  obtain n p1 where p1: "fetch_int p = Some (n, p1)" "small_data N p1"
    using assms small_fetch_int [OF _ assms(2,3)] by (auto simp: parse_vector_def split: bind_splits)
  then show ?thesis
    using assms(1,3) small_fetch_strings [OF _ p1(2) assms(3)]
    by (cases "left_len p1 < n")
      (fastforce simp: parse_vector_def small_data_def set_error_def split: bind_splits if_splits)+
qed

lemma unserialize_fits:
  assumes "unserialize s = Some (x, e)" "length s < 2 ^ 31"
  shows "key_fits x"
proof -
  let ?N = "max 32 (length s)"
  have s: "small_data ?N (TlParser_new s)"
    by (simp add: small_data_def TlParser_new_def)
  obtain ws p1 k p2 where p: "parse_vector (TlParser_new s) = Some (ws, p1)" "fetch_string p1 = Some (k, p2)"
      "x = \<lparr>raw_mnemonic_words = ws, raw_private_key = k\<rparr>"
    using assms(1) by (auto simp: unserialize_def split: bind_splits)
  have 1: "length ws \<le> ?N \<and> list_all (\<lambda>x. length x \<le> ?N) ws \<and> small_data ?N p1"
    using parse_vector_small [OF p(1) s] by simp
  then have "length k \<le> ?N"
    using small_fetch_string [OF p(2), of ?N] by simp
  then show ?thesis
    using 1 p(3) assms(2) by (auto simp: key_fits_def list_all_iff)
qed

lemma unserialize_total:
  assumes "length s < 2 ^ 64 - 1"
  shows "\<exists>x e. unserialize s = Some (x, e)"
proof -
  have p: "parser_ok (TlParser_new s)"
    using assms by (simp add: parser_ok_def TlParser_new_def)
  obtain ws p1 where p1: "parse_vector (TlParser_new s) = Some (ws, p1)" "parser_ok p1"
    by (rule parse_vector_ok [OF p])
  obtain k p2 where p2: "fetch_string p1 = Some (k, p2)" "parser_ok p2"
    by (rule fetch_string_ok [OF p1(2)])
  obtain p3 where "set_error ''Too much data to fetch'' p2 = Some p3"
    by (rule set_error_ok [OF p2(2)])
  then show ?thesis
    using p1(1) p2(1) by (cases "left_len p2 \<noteq> 0") (auto simp: unserialize_def fetch_end_def)
qed

section \<open>Properties\<close>

text \<open>
  C28: a key whose strings have less than 2^31 bytes is stored in exactly the number of bytes
  that \<open>TlStorerCalcLength\<close> found (so the check in \<open>serialize_secure\<close> does not fail), and parsing
  gives it back without an error and without a byte left over.
\<close>

theorem unserialize_serialize:
  assumes "length (raw_mnemonic_words x) < 2 ^ 31" "\<forall>w \<in> set (raw_mnemonic_words x). length w < 2 ^ 31"
    "length (raw_private_key x) < 2 ^ 31"
  shows "\<exists>d. serialize_secure x = Some d \<and> unserialize d = Some (x, None)"
proof -
  have fits: "key_fits x"
    using assms by (simp add: key_fits_def list_all_iff)
  then obtain a b where "store_vector (raw_mnemonic_words x) = Some a" "store_string (raw_private_key x) = Some b"
      "serialize_secure x = Some (a @ b)"
    by (rule serialize_secure_result)
  then show ?thesis
    using unserialize_stored [OF _ _ fits] by blast
qed

theorem unserialize_serialize_witness:
  "\<exists>d. serialize_secure \<lparr>raw_mnemonic_words = [[1, 2], [], replicate 300 7], raw_private_key = replicate 32 5\<rparr> = Some d \<and>
    unserialize d = Some (\<lparr>raw_mnemonic_words = [[1, 2], [], replicate 300 7], raw_private_key = replicate 32 5\<rparr>, None)"
  by (rule unserialize_serialize) simp_all

text \<open>
  C29: on any input the parser reads only inside the buffer, or inside the 32 zero bytes that take
  its place after an error, and no check of \<open>set_error\<close> fails: \<open>unserialize\<close> returns an object and an
  error or none, whatever lengths the input announces.
\<close>

theorem unserialize_in_bounds:
  assumes "length s < 2 ^ 64 - 1"
  shows "\<exists>x e. unserialize s = Some (x, e)"
  by (rule unserialize_total [OF assms])

theorem unserialize_in_bounds_witness:
  "\<exists>x e. unserialize [1, 0, 0, 0, 255, 255, 255, 255, 255, 255, 255, 255] = Some (x, e)"
  by (rule unserialize_in_bounds) simp

text \<open>
  C30: a string of 2^31 bytes or more is stored, with the mark 255, but is not parsed back: the
  top bit of its length is taken for a sign, and the parser ends in an error and the empty string.
\<close>

theorem long_strings_do_not_parse:
  assumes "2 ^ 31 \<le> length str" "length str < 2 ^ 32" "length rest < 2 ^ 63"
  shows "\<exists>s p'. store_string str = Some s \<and> fetch_string (TlParser_new (s @ rest)) = Some ([], p') \<and>
    tl_error p' \<noteq> None"
  using assms(2)
proof (cases rule: store_string_cases)
  case long
  let ?n = "length str"
  let ?h = "long_header ?n"
  let ?s = "?h @ str @ tl_padding ?n"
  let ?d = "?s @ rest"
  define q1 where "q1 = (TlParser_new ?d)\<lparr>left_len := length ?d - 4\<rparr>"
  define q2 where "q2 = q1\<lparr>left_len := length ?d - 8\<rparr>"
  have c: "check_len 4 (TlParser_new ?d) = Some q1" "check_len 4 q1 = Some q2"
    by (simp_all add: check_len_def TlParser_new_def q1_def q2_def)
  have d: "data q1 = ?d" "data q2 = ?d" "tl_error q2 = None" "left_len q2 = length ?d - 8"
    by (simp_all add: q1_def q2_def TlParser_new_def)
  have pk: "peek 4 (data q1) = Some (take 4 ?h)" "peek 8 (data q2) = Some ?h"
    unfolding d by (simp_all add: peek_def)
  have h: "254 < unat (take 4 ?h ! 0)"
    by (simp add: long_header_def)
  have n: "long_length ?h = 2 ^ 64 - 2 ^ 32 + ?n"
    using long_length_header [OF assms(2)] assms(1) by simp
  note form = fetch_string_forms(3) [OF c(1) pk(1) h c(2) pk(2) refl]
  have "length (tl_padding ?n) < 4"
    by (simp add: length_tl_padding)
  then have left: "left_len q2 < 2 ^ 64 - 2 ^ 32"
    using d(4) assms by simp
  show ?thesis
  proof (cases "2 ^ 64 - 1 - 3 < long_length ?h")
    case True
    then show ?thesis
      using form long(2) d(3) by (auto simp: set_error_def)
  next
    case False
    have "left_len q2 < (long_length ?h + 3) div 4 * 4"
      using order_less_le_trans [OF left order_trans [OF _ round_up_4 [of "long_length ?h"]]] n by simp
    then have "fetch_body (drop 8 (data q2)) (long_length ?h) ((long_length ?h + 3) div 4 * 4) (advance 8 q2) =
        Some ([], (advance 8 q2)\<lparr>tl_error := Some ''Not enough data to read'', error_pos := data_len q2 - left_len q2,
          data := empty_data, left_len := 0, data_len := 0\<rparr>)"
      using d(3) by (simp add: fetch_body_def check_len_def set_error_def advance_def)
    then show ?thesis
      using form long(2) False by auto
  qed
qed (use assms in simp_all)

theorem long_strings_do_not_parse_witness:
  "\<exists>s p'. store_string (replicate (2 ^ 31) 7) = Some s \<and> fetch_string (TlParser_new (s @ [])) = Some ([], p') \<and>
    tl_error p' \<noteq> None"
  by (rule long_strings_do_not_parse) (simp_all only: length_replicate list.size, simp_all)

end
