(* ===== verification/Local_Key.thy ===== *)
theory Local_Key
  imports Mnemonic TL_Storage
begin

text \<open>
  \<open>tonlib/keys/DecryptedKey.cpp\<close> and \<open>EncryptedKey.cpp\<close> under \<open>app/jni/ton\<close>: a private key with its
  mnemonic words, serialized and encrypted under a key that is derived from a secret and the local
  password. An older scheme, which xors the secret with the hash of the password, is still read. What
  a function reads and changes is a record: the answers of the allocator, the bytes of the random
  generator, and the state of the files.
\<close>

record 's world =
  w_heap :: heap
  w_rng :: rng
  w_files :: 's

section \<open>Keys\<close>

record DecryptedKey =
  key_words :: "bytes list"
  private_key :: bytes

record EncryptedKey =
  encrypted_data :: bytes
  ek_public_key :: bytes
  ek_secret :: bytes

text \<open>\<open>DecryptedKey::encrypt\<close>. \<open>move_as_ok\<close> of an error ends the process.\<close>

definition DecryptedKey_encrypt ::
  "cpu \<Rightarrow> ed25519 \<Rightarrow> 's world \<Rightarrow> DecryptedKey \<Rightarrow> bytes \<Rightarrow> bytes \<Rightarrow> (EncryptedKey \<times> 's world) option" where
  "DecryptedKey_encrypt c ed w k local_password old_secret = do {
     let (secret, r) = (if length old_secret = 32 then (old_secret, w_rng w) else secure_bytes (w_rng w) 32);
     (decrypted_secret, h) \<leftarrow> combine_secrets (w_heap w) secret local_password;
     (encryption_secret, h) \<leftarrow> kdf h decrypted_secret (ascii ''TON local key'') PBKDF_ITERATIONS;
     data \<leftarrow> serialize_secure \<lparr>raw_mnemonic_words = key_words k, raw_private_key = private_key k\<rparr>;
     (e, h, r) \<leftarrow> encrypt_data c h r data encryption_secret;
     case get_public_key ed (private_key k) of
       Inl _ \<Rightarrow> None
     | Inr public_key \<Rightarrow>
         Some (\<lparr>encrypted_data = e, ek_public_key = public_key, ek_secret = secret\<rparr>, w\<lparr>w_heap := h, w_rng := r\<rparr>)
   }"

text \<open>\<open>EncryptedKey::decrypt\<close>, with the key derivation in front.\<close>

definition decryption_secret :: "cpu \<Rightarrow> heap \<Rightarrow> bytes \<Rightarrow> bytes \<Rightarrow> bool \<Rightarrow> (bytes \<times> heap) option" where
  "decryption_secret c h secret local_password old =
     (if old then do {
        local_password_hash \<leftarrow> sha256_into c local_password (replicate 32 0);
        Some (map (\<lambda>i. secret ! i XOR local_password_hash ! i) [0..<32], h)
      } else combine_secrets h secret local_password)"

definition EncryptedKey_decrypt ::
  "cpu \<Rightarrow> ed25519 \<Rightarrow> 's world \<Rightarrow> EncryptedKey \<Rightarrow> bytes \<Rightarrow> bool \<Rightarrow> bool \<Rightarrow> (DecryptedKey td_result \<times> 's world) option" where
  "EncryptedKey_decrypt c ed w ek local_password check_public_key old =
     (if length (ek_secret ek) \<noteq> 32 then Some (Inl Invalid_secret_size, w)
      else do {
        (decrypted_secret, h) \<leftarrow> decryption_secret c (w_heap w) (ek_secret ek) local_password old;
        (encryption_secret, h) \<leftarrow> kdf h decrypted_secret (ascii ''TON local key'') PBKDF_ITERATIONS;
        (decrypted_data, h) \<leftarrow> decrypt_data c h (encrypted_data ek) encryption_secret;
        let w = w\<lparr>w_heap := h\<rparr>;
        case decrypted_data of
          Inl e \<Rightarrow> Some (Inl e, w)
        | Inr d \<Rightarrow> do {
            (raw, err) \<leftarrow> unserialize d;
            if err \<noteq> None then Some (Inl Parse_error, w)
            else
              let res = \<lparr>key_words = raw_mnemonic_words raw, private_key = raw_private_key raw\<rparr>
              in case get_public_key ed (private_key res) of
                   Inl e \<Rightarrow> Some (Inl e, w)
                 | Inr got_public_key \<Rightarrow>
                     if check_public_key \<and> got_public_key \<noteq> ek_public_key ek then Some (Inl Public_key_differs, w)
                     else Some (Inr res, w)
          }
      })"

section \<open>What the encryption of a key computes\<close>

definition raw_key :: "DecryptedKey \<Rightarrow> RawDecryptedKey" where
  "raw_key k = \<lparr>raw_mnemonic_words = key_words k, raw_private_key = private_key k\<rparr>"

lemma raw_key_simps [simp]:
  "raw_mnemonic_words (raw_key k) = key_words k" "raw_private_key (raw_key k) = private_key k"
  "raw_key k = raw_key k' \<longleftrightarrow> k = k'"
  by (auto simp: raw_key_def)

text \<open>The key under which a secret and a password protect the data, in the new and the old scheme.\<close>

definition local_key :: "bytes \<Rightarrow> bytes \<Rightarrow> bool \<Rightarrow> bytes" where
  "local_key sec pw old =
     rfc_pbkdf2 EVP_sha512 (if old then xor_bytes sec (fips_sha256 pw) else fips_hmac EVP_sha512 sec pw)
       (ascii ''TON local key'') 100000 64"

lemma length_local_key [simp]: "length (local_key sec pw old) = 64"
  by (simp add: local_key_def)

definition opened_key :: "ed25519 \<Rightarrow> EncryptedKey \<Rightarrow> bytes \<Rightarrow> bool \<Rightarrow> bool \<Rightarrow> DecryptedKey td_result" where
  "opened_key ed ek pw check old =
     (if length (ek_secret ek) \<noteq> 32 then Inl Invalid_secret_size
      else case v1_open (encrypted_data ek) (local_key (ek_secret ek) pw old) of
        Inl e \<Rightarrow> Inl e
      | Inr d \<Rightarrow>
          let (raw, err) = the (unserialize d)
          in if err \<noteq> None then Inl Parse_error
             else case get_public_key ed (raw_private_key raw) of
               Inl e \<Rightarrow> Inl e
             | Inr pub \<Rightarrow>
                 if check \<and> pub \<noteq> ek_public_key ek then Inl Public_key_differs
                 else Inr \<lparr>key_words = raw_mnemonic_words raw, private_key = raw_private_key raw\<rparr>)"

definition readable :: "EncryptedKey \<Rightarrow> bytes \<Rightarrow> bool \<Rightarrow> bool" where
  "readable ek pw old \<longleftrightarrow>
     (\<forall>d. v1_open (encrypted_data ek) (local_key (ek_secret ek) pw old) = Inr d \<longrightarrow> unserialize d \<noteq> None)"

lemma xor_by_index:
  "length a = 32 \<Longrightarrow> length b = 32 \<Longrightarrow> map (\<lambda>i. a ! i XOR b ! i) [0..<32] = xor_bytes a b"
  by (rule nth_equalityI) (simp_all add: xor_bytes_def)

lemma decryption_key_result:
  assumes "cpu_ok c" "no_oom h" "fits_int (length pw)" "length sec = 32"
  obtains s h' h'' where "decryption_secret c h sec pw old = Some (s, h')"
    "kdf h' s (ascii ''TON local key'') PBKDF_ITERATIONS = Some (local_key sec pw old, h'')" "no_oom h''"
proof -
  let ?s = "if old then xor_bytes sec (fips_sha256 pw) else fips_hmac EVP_sha512 sec pw"
  obtain h' where h': "decryption_secret c h sec pw old = Some (?s, h')" "no_oom h'"
  proof (cases old)
    case True
    have "sha256_into c pw (replicate 32 0) = Some (fips_sha256 pw)"
      using td_hashes(1) [OF assms(1)] by (simp add: td_sha256_def)
    then show thesis
      using True assms(2,4) by (intro that [of h]) (simp_all add: decryption_secret_def xor_by_index)
  next
    case False
    obtain h' where "combine_secrets h sec pw = Some (fips_hmac EVP_sha512 sec pw, h')" "no_oom h'"
      using combine_secrets_result [OF assms(2) _ assms(3), of sec] assms(4) by auto
    then show thesis
      using False by (intro that [of h']) (simp_all add: decryption_secret_def)
  qed
  have "fits_int (length ?s)" "fits_int (length (ascii ''TON local key''))"
    using assms(4) by (simp_all add: fits_int_def ascii_def)
  from kdf_result [OF h'(2) this, of PBKDF_ITERATIONS] obtain h'' where
    "kdf h' ?s (ascii ''TON local key'') PBKDF_ITERATIONS = Some (local_key sec pw old, h'')" "no_oom h''"
    by (auto simp: PBKDF_ITERATIONS_def local_key_def)
  then show thesis
    using h' that by blast
qed

lemma EncryptedKey_decrypt_result:
  assumes "cpu_ok c" "no_oom (w_heap w)" "fits_int (length pw)" "readable ek pw old"
  obtains h' where "EncryptedKey_decrypt c ed w ek pw check old = Some (opened_key ed ek pw check old, w\<lparr>w_heap := h'\<rparr>)"
    "no_oom h'"
proof (cases "length (ek_secret ek) = 32")
  case False
  then show thesis
    using assms(2) by (intro that [of "w_heap w"]) (simp_all add: EncryptedKey_decrypt_def opened_key_def)
next
  case True
  obtain s h1 h2 where k: "decryption_secret c (w_heap w) (ek_secret ek) pw old = Some (s, h1)"
    "kdf h1 s (ascii ''TON local key'') PBKDF_ITERATIONS = Some (local_key (ek_secret ek) pw old, h2)" "no_oom h2"
    by (rule decryption_key_result [OF assms(1-3) True])
  obtain h' where h': "decrypt_data c h2 (encrypted_data ek) (local_key (ek_secret ek) pw old) =
      Some (v1_open (encrypted_data ek) (local_key (ek_secret ek) pw old), h')" "no_oom h'"
    using decrypt_data_result [OF assms(1) k(3), of "local_key (ek_secret ek) pw old" "encrypted_data ek"] by auto
  show thesis
    using True k h' assms(4) by (intro that [of h'])
      (auto simp: EncryptedKey_decrypt_def opened_key_def readable_def Let_def
        split: sum.splits option.splits prod.splits)
qed

text \<open>What an encrypted key of the new scheme is.\<close>

definition protects :: "EncryptedKey \<Rightarrow> bytes \<Rightarrow> DecryptedKey \<Rightarrow> bool" where
  "protects ek pw k \<longleftrightarrow> length (ek_secret ek) = 32 \<and>
     (\<exists>p d. padding_ok 32 p d \<and> serialize_secure (raw_key k) = Some d \<and> unserialize d = Some (raw_key k, None) \<and>
        encrypted_data ek = v1_text (p @ d) (local_key (ek_secret ek) pw False))"

lemma protects_opened:
  assumes "protects ek pw k" "get_public_key ed (private_key k) = Inr pub" "check \<Longrightarrow> pub = ek_public_key ek"
  shows "opened_key ed ek pw check False = Inr k" "readable ek pw False"
  using assms v1_open_text by (auto simp: protects_def opened_key_def readable_def)

lemma DecryptedKey_encrypt_result:
  assumes "cpu_ok c" "no_oom (w_heap w)" "fits_int (length pw)" "key_fits (raw_key k)"
    "get_public_key ed (private_key k) = Inr pub"
  obtains ek h' r' where "DecryptedKey_encrypt c ed w k pw old_secret = Some (ek, w\<lparr>w_heap := h', w_rng := r'\<rparr>)"
    "no_oom h'" "protects ek pw k" "ek_public_key ek = pub" "length old_secret = 32 \<Longrightarrow> ek_secret ek = old_secret"
proof -
  define sr where "sr = (if length old_secret = 32 then (old_secret, w_rng w) else secure_bytes (w_rng w) 32)"
  obtain sec r where sr: "sr = (sec, r)"
    by fastforce
  have sec: "length sec = 32" "length old_secret = 32 \<Longrightarrow> sec = old_secret"
    using sr by (auto simp: sr_def secure_bytes_def split: if_splits)
  obtain s h1 h2 where k: "combine_secrets (w_heap w) sec pw = Some (s, h1)"
    "kdf h1 s (ascii ''TON local key'') PBKDF_ITERATIONS = Some (local_key sec pw False, h2)" "no_oom h2"
    using decryption_key_result [OF assms(1-3) sec(1), of False] by (auto simp: decryption_secret_def)
  obtain a b where ab: "store_vector (key_words k) = Some a" "store_string (private_key k) = Some b"
    "serialize_secure (raw_key k) = Some (a @ b)"
    using serialize_secure_result [OF assms(4)] by auto
  have u: "unserialize (a @ b) = Some (raw_key k, None)"
    using unserialize_stored [OF _ _ assms(4)] ab by simp
  obtain p h' r' where e: "encrypt_data c h2 r (a @ b) (local_key sec pw False) =
      Some (v1_text (p @ a @ b) (local_key sec pw False), h', r')" "padding_ok 32 p (a @ b)" "no_oom h'"
    using encrypt_data_result [OF assms(1) k(3), of "local_key sec pw False" r "a @ b"] by auto
  let ?ek = "\<lparr>encrypted_data = v1_text (p @ a @ b) (local_key sec pw False), ek_public_key = pub, ek_secret = sec\<rparr>"
  have "DecryptedKey_encrypt c ed w k pw old_secret = Some (?ek, w\<lparr>w_heap := h', w_rng := r'\<rparr>)"
    unfolding DecryptedKey_encrypt_def sr_def [symmetric] sr
    using k e ab(3) assms(5) by (simp add: raw_key_def)
  then show thesis
    using e u ab(3) sec by (intro that) (auto simp: protects_def)
qed

lemma opened_key_public:
  "opened_key ed ek pw True old = Inr k \<Longrightarrow> get_public_key ed (private_key k) = Inr (ek_public_key ek)"
  by (auto simp: opened_key_def split: if_splits sum.splits prod.splits)

section \<open>Sizes\<close>

text \<open>An encrypted key of less than 2^31 bytes is parsed without leaving the buffer, into a key that fits.\<close>

lemma length_v1_text: "16 dvd length d \<Longrightarrow> length (v1_text d s) = 32 + length d"
  by (simp add: v1_text_def sealed_opened)

lemma v1_open_length: "v1_open e s = Inr d \<Longrightarrow> length d \<le> length e"
  by (erule v1_open_InrD) (simp add: padding_ok_def length_v1_text)

lemma small_file:
  assumes "length (encrypted_data ek) < 2 ^ 31"
  shows "readable ek pw old" "opened_key ed ek pw check old = Inr k \<Longrightarrow> key_fits (raw_key k)"
proof -
  have "\<exists>x e. unserialize d = Some (x, e) \<and> key_fits x"
    if "v1_open (encrypted_data ek) s = Inr d" for d s
  proof -
    have d: "length d < 2 ^ 31"
      using v1_open_length [OF that] assms by simp
    then obtain x e where "unserialize d = Some (x, e)"
      using unserialize_total [of d] by auto
    with unserialize_fits [OF this d] show ?thesis
      by blast
  qed
  note * = this
  show "readable ek pw old"
    using * unfolding readable_def by blast
  show "key_fits (raw_key k)" if k: "opened_key ed ek pw check old = Inr k"
  proof -
    obtain d where d: "v1_open (encrypted_data ek) (local_key (ek_secret ek) pw old) = Inr d"
      using k by (cases "v1_open (encrypted_data ek) (local_key (ek_secret ek) pw old)")
        (auto simp: opened_key_def split: if_splits)
    then obtain x e where "unserialize d = Some (x, e)" "key_fits x"
      using * by blast
    then show ?thesis
      using k d by (auto simp: opened_key_def raw_key_def key_fits_def split: if_splits sum.splits)
  qed
qed

definition key_small :: "DecryptedKey \<Rightarrow> bool" where
  "key_small k \<longleftrightarrow> length (key_words k) < 2 ^ 10 \<and> list_all (\<lambda>w. length w < 2 ^ 10) (key_words k) \<and>
     length (private_key k) < 2 ^ 10"

lemma key_small_fits: "key_small k \<Longrightarrow> key_fits (raw_key k)"
  by (auto simp: key_small_def key_fits_def list_all_iff)

lemma calc_string_le: "calc_string s \<le> length s + 12"
  using div_times_less_eq_dividend [of "length s + 4 + 3" 4] div_times_less_eq_dividend [of "length s + 8 + 3" 4] div_times_less_eq_dividend [of "length s + 1 + 3" 4]
  by (simp add: calc_string_def Let_def ac_simps) linarith

lemma protects_small:
  assumes "protects ek pw k" "key_small k"
  shows "length (encrypted_data ek) < 2 ^ 31"
proof -
  obtain p d where pd: "padding_ok 32 p d" "serialize_secure (raw_key k) = Some d"
    "encrypted_data ek = v1_text (p @ d) (local_key (ek_secret ek) pw False)"
    using assms(1) by (auto simp: protects_def)
  have "sum_list (map calc_string ws) \<le> length ws * 1036" if "list_all (\<lambda>w. length w < 2 ^ 10) ws" for ws
    using that
  proof (induction ws)
    case (Cons w ws)
    then show ?case
      using calc_string_le [of w] by simp
  qed simp
  then have "sum_list (map calc_string (key_words k)) \<le> 1024 * 1036"
    using assms(2) by (fastforce simp: key_small_def)
  moreover have "calc_string (private_key k) \<le> 1036"
    using assms(2) calc_string_le [of "private_key k"] by (simp add: key_small_def)
  ultimately have "length d \<le> 2 ^ 22"
    using pd(2) by (auto simp: serialize_secure_def calc_vector_def raw_key_def split: bind_splits if_splits)
  moreover have "length p < 256"
    using pd(1) unsigned_less [of "p ! 0", where ?'a = nat] by (simp add: padding_ok_def)
  moreover have "length (encrypted_data ek) = 32 + (length p + length d)"
    using pd(1,3) by (simp add: padding_ok_def length_v1_text)
  ultimately show ?thesis
    by simp
qed

section \<open>Two schemes\<close>

text \<open>Two texts that are sealed in the same bytes: the first 32 bytes are the SHA-256 hash of both.\<close>

definition two_texts :: "bytes \<Rightarrow> bool" where
  "two_texts e \<longleftrightarrow> (\<exists>x y s t. x \<noteq> y \<and> 16 dvd length x \<and> 16 dvd length y \<and> e = v1_text x s \<and> e = v1_text y t)"

lemma two_texts_collision:
  assumes "two_texts e"
  shows "\<exists>x y. x \<noteq> y \<and> fips_sha256 x = take 32 e \<and> fips_sha256 y = take 32 e"
  using assms by (force simp: two_texts_def v1_text_def)

text \<open>A file that was written in the new scheme opens to another key in the old one only if it seals two texts.\<close>

lemma old_scheme_agrees:
  assumes "protects ek pw k" "opened_key ed ek pw check True = Inr k'" "\<not> two_texts (encrypted_data ek)"
  shows "k' = k"
proof -
  obtain p d where pd: "padding_ok 32 p d" "unserialize d = Some (raw_key k, None)"
    "encrypted_data ek = v1_text (p @ d) (local_key (ek_secret ek) pw False)"
    using assms(1) by (auto simp: protects_def)
  obtain d' where d': "v1_open (encrypted_data ek) (local_key (ek_secret ek) pw True) = Inr d'"
    using assms(2) by (cases "v1_open (encrypted_data ek) (local_key (ek_secret ek) pw True)")
      (auto simp: opened_key_def split: if_splits)
  then obtain p' where p': "padding_ok 32 p' d'" "encrypted_data ek = v1_text (p' @ d') (local_key (ek_secret ek) pw True)"
    by (rule v1_open_InrD)
  have "p @ d = p' @ d'"
    using assms(3) pd(1,3) p' unfolding two_texts_def padding_ok_def by metis
  moreover from this have "(p @ d) ! 0 = (p' @ d') ! 0"
    by simp
  then have "length p = length p'"
    using pd(1) p'(1) by (cases p; cases p') (auto simp: padding_ok_def)
  ultimately have "d = d'"
    by simp
  then show ?thesis
    using assms(2) d' pd(2) by (auto simp: opened_key_def split: if_splits sum.splits)
qed

end
