(* ===== verification/Key_Value.thy ===== *)
theory Key_Value
  imports Simple_Encryption "HOL-Library.AList" "HOL-Library.List_Lexorder"
begin

text \<open>
  The files of the key storage: the class \<open>KeyValue\<close> of \<open>tonlib/KeyValue.h\<close> under \<open>app/jni/ton\<close> as a record of
  operations, its implementation \<open>KeyValueInmemory\<close> of \<open>tonlib/KeyValue.cpp\<close>, and the laws a client
  relies on as locales, which \<open>KeyValueInmemory\<close> satisfies. \<open>KeyValueDir\<close>, which calls the file system,
  is not modelled.
\<close>

section \<open>Files\<close>

text \<open>The virtual functions of \<open>KeyValue\<close>, on a state \<open>'s\<close>.\<close>

record 's key_value =
  kv_add :: "bytes \<Rightarrow> bytes \<Rightarrow> 's \<Rightarrow> unit td_result \<times> 's"
  kv_set :: "bytes \<Rightarrow> bytes \<Rightarrow> 's \<Rightarrow> unit td_result \<times> 's"
  kv_get :: "bytes \<Rightarrow> 's \<Rightarrow> bytes td_result"
  kv_erase :: "bytes \<Rightarrow> 's \<Rightarrow> unit td_result \<times> 's"
  kv_foreach_key :: "'s \<Rightarrow> bytes list"

text \<open>\<open>KeyValueInmemory\<close>: a map, whose keys are visited in their order.\<close>

type_synonym inmemory = "(bytes \<times> bytes) list"

definition inmemory_add :: "bytes \<Rightarrow> bytes \<Rightarrow> inmemory \<Rightarrow> unit td_result \<times> inmemory" where
  "inmemory_add key value m =
     (if map_of m key \<noteq> None then (Inl Key_exists, m) else (Inr (), AList.update key value m))"

definition inmemory_set :: "bytes \<Rightarrow> bytes \<Rightarrow> inmemory \<Rightarrow> unit td_result \<times> inmemory" where
  "inmemory_set key value m = (Inr (), AList.update key value m)"

definition inmemory_get :: "bytes \<Rightarrow> inmemory \<Rightarrow> bytes td_result" where
  "inmemory_get key m = (case map_of m key of None \<Rightarrow> Inl Unknown_key | Some v \<Rightarrow> Inr v)"

definition inmemory_erase :: "bytes \<Rightarrow> inmemory \<Rightarrow> unit td_result \<times> inmemory" where
  "inmemory_erase key m =
     (if map_of m key = None then (Inl Unknown_key, m) else (Inr (), AList.delete key m))"

definition inmemory_foreach_key :: "inmemory \<Rightarrow> bytes list" where
  "inmemory_foreach_key m = sort (remdups (map fst m))"

definition KeyValueInmemory :: "inmemory key_value" where
  "KeyValueInmemory = \<lparr>kv_add = inmemory_add, kv_set = inmemory_set, kv_get = inmemory_get,
     kv_erase = inmemory_erase, kv_foreach_key = inmemory_foreach_key\<rparr>"

section \<open>What the storage relies on\<close>

definition lookup :: "'s key_value \<Rightarrow> 's \<Rightarrow> bytes \<rightharpoonup> bytes" where
  "lookup kv s k = (case kv_get kv k s of Inl _ \<Rightarrow> None | Inr v \<Rightarrow> Some v)"

text \<open>
  A store behaves as a map from names to data. Its operations may fail, and then change nothing;
  erasing a name that is there, and setting, succeed in a store that is \<open>reliable\<close>.
\<close>

locale key_value_store =
  fixes kv :: "'s key_value"
  assumes set_ok: "kv_set kv k v s = (Inr u, s') \<Longrightarrow> lookup kv s' = (lookup kv s)(k \<mapsto> v)"
    and set_failed: "kv_set kv k v s = (Inl e, s') \<Longrightarrow> lookup kv s' = lookup kv s"
    and erase_ok: "kv_erase kv k s = (Inr u, s') \<Longrightarrow> lookup kv s' = (lookup kv s)(k := None)"
    and erase_failed: "kv_erase kv k s = (Inl e, s') \<Longrightarrow> lookup kv s' = lookup kv s"
    and keys: "set (kv_foreach_key kv s) = dom (lookup kv s)" "distinct (kv_foreach_key kv s)"

locale reliable_store = key_value_store +
  assumes set_total: "fst (kv_set kv k v s) = Inr ()"
    and erase_total: "k \<in> dom (lookup kv s) \<Longrightarrow> fst (kv_erase kv k s) = Inr ()"

context key_value_store
begin

lemma lookup_Some: "lookup kv s k = Some e \<longleftrightarrow> kv_get kv k s = Inr e"
  by (simp add: lookup_def split: sum.splits)

lemma lookup_None: "lookup kv s k = None \<longleftrightarrow> (\<exists>e. kv_get kv k s = Inl e)"
  by (auto simp: lookup_def split: sum.splits)

end

context reliable_store
begin

lemma set_result:
  obtains s' where "kv_set kv k v s = (Inr (), s')" "lookup kv s' = (lookup kv s)(k \<mapsto> v)"
  using set_total [of k v s] set_ok [of k v s] by (cases "kv_set kv k v s") auto

lemma erase_result:
  assumes "k \<in> dom (lookup kv s)"
  obtains s' where "kv_erase kv k s = (Inr (), s')" "lookup kv s' = (lookup kv s)(k := None)"
  using erase_total [OF assms] erase_ok [of k s] by (cases "kv_erase kv k s") auto

end

text \<open>\<open>KeyValueInmemory\<close> is such a store.\<close>

lemma lookup_inmemory [simp]: "lookup KeyValueInmemory m = map_of m"
  by (rule ext) (simp add: lookup_def KeyValueInmemory_def inmemory_get_def split: option.splits)

lemmas inmemory_simps = KeyValueInmemory_def inmemory_set_def inmemory_get_def inmemory_erase_def
  inmemory_foreach_key_def

interpretation inmemory: reliable_store KeyValueInmemory
proof
  fix k v :: bytes and s s' :: inmemory and u :: unit and e :: td_error
  show "kv_set KeyValueInmemory k v s = (Inr u, s') \<Longrightarrow> lookup KeyValueInmemory s' = (lookup KeyValueInmemory s)(k \<mapsto> v)"
    unfolding lookup_inmemory by (auto simp: inmemory_simps update_conv')
  show "kv_set KeyValueInmemory k v s = (Inl e, s') \<Longrightarrow> lookup KeyValueInmemory s' = lookup KeyValueInmemory s"
    by (simp add: inmemory_simps)
  show "kv_erase KeyValueInmemory k s = (Inr u, s') \<Longrightarrow> lookup KeyValueInmemory s' = (lookup KeyValueInmemory s)(k := None)"
    unfolding lookup_inmemory by (auto simp: inmemory_simps delete_conv' split: if_splits)
  show "kv_erase KeyValueInmemory k s = (Inl e, s') \<Longrightarrow> lookup KeyValueInmemory s' = lookup KeyValueInmemory s"
    by (auto simp: inmemory_simps split: if_splits)
  show "set (kv_foreach_key KeyValueInmemory s) = dom (lookup KeyValueInmemory s)"
    "distinct (kv_foreach_key KeyValueInmemory s)"
    unfolding lookup_inmemory by (simp_all add: inmemory_simps dom_map_of_conv_image_fst)
  show "fst (kv_set KeyValueInmemory k v s) = Inr ()"
    by (simp add: inmemory_simps)
  show "k \<in> dom (lookup KeyValueInmemory s) \<Longrightarrow> fst (kv_erase KeyValueInmemory k s) = Inr ()"
    unfolding lookup_inmemory by (auto simp: inmemory_simps)
qed

end
