(* ===== verification/Mnemonic_Creation.thy ===== *)
theory Mnemonic_Creation
  imports Mnemonic
begin

text \<open>
  \<open>Mnemonic::create_new\<close> of \<open>app/jni/ton/tonlib/keys/Mnemonic.cpp\<close>: random words are drawn until they form
  a basic seed, at most 5120 times, or 256 times as often with a password. The word list, a literal
  of 2048 words in \<open>bip39.cpp\<close>, is an argument; the random bytes are the stream that the generator is
  going to give, and mixing in the entropy of the options comes before its first byte.
\<close>

section \<open>Drawing words\<close>

text \<open>The index of a word: eleven bits of the random bytes.\<close>

definition word_index :: "bytes \<Rightarrow> nat \<Rightarrow> nat" where
  "word_index rnd i =
     foldl (\<lambda>word_i j.
       let offset = i * 11 + j in
       if rnd ! (offset div 8) AND push_bit (offset AND 7) 1 \<noteq> 0 then word_i OR push_bit j 1 else word_i) 0 [0..<11]"

definition draw_words :: "bytes list \<Rightarrow> nat \<Rightarrow> bytes \<Rightarrow> bytes list" where
  "draw_words bip_words words_count rnd = map (\<lambda>i. bip_words ! word_index rnd i) [0..<words_count]"

text \<open>
  The body of the loop after the words are drawn: the mnemonic, or none when the loop continues.
  \<open>move_as_ok\<close> of an error ends the process.
\<close>

definition move_as_ok :: "'a td_result \<Rightarrow> 'a option" where
  "move_as_ok r = (case r of Inl _ \<Rightarrow> None | Inr x \<Rightarrow> Some x)"

definition accept_basic :: "heap \<Rightarrow> bytes list \<Rightarrow> bytes \<Rightarrow> Mnemonic option \<Rightarrow> (Mnemonic option \<times> heap) option" where
  "accept_basic h words password mnemonic_without_password = do {
     mnemonic \<leftarrow> move_as_ok (create_from_words words password);
     (basic, h) \<leftarrow> is_basic_seed h mnemonic;
     if \<not> basic then Some (None, h)
     else case mnemonic_without_password of
       None \<Rightarrow> Some (Some mnemonic, h)
     | Some m0 \<Rightarrow> do {
         (basic0, h) \<leftarrow> is_basic_seed h m0;
         Some (if basic0 then None else Some mnemonic, h)
       }
   }"

definition try_words :: "heap \<Rightarrow> bytes list \<Rightarrow> bytes \<Rightarrow> (Mnemonic option \<times> heap) option" where
  "try_words h words password =
     (if password = [] then accept_basic h words password None
      else do {
        m0 \<leftarrow> move_as_ok (create_from_words words []);
        (password_seed, h) \<leftarrow> is_password_seed h m0;
        if \<not> password_seed then Some (None, h) else accept_basic h words password (Some m0)
      })"

fun create_loop :: "bytes list \<Rightarrow> nat \<Rightarrow> bytes \<Rightarrow> nat \<Rightarrow> heap \<Rightarrow> rng \<Rightarrow> (Mnemonic td_result \<times> heap \<times> rng) option" where
  "create_loop bip_words words_count password 0 h r = Some (Inl Mnemonic_not_found, h, r)"
| "create_loop bip_words words_count password (Suc n) h r = do {
     let (rnd, r) = secure_bytes r ((words_count * 11 + 7) div 8);
     (res, h) \<leftarrow> try_words h (draw_words bip_words words_count rnd) password;
     case res of
       Some mnemonic \<Rightarrow> Some (Inr mnemonic, h, r)
     | None \<Rightarrow> create_loop bip_words words_count password n h r
   }"

definition create_new :: "bytes \<Rightarrow> heap \<Rightarrow> rng \<Rightarrow> int \<Rightarrow> bytes \<Rightarrow> (Mnemonic td_result \<times> heap \<times> rng) option" where
  "create_new bip39_english h r words_count password =
     (let words_count = (if words_count = 0 then 24 else words_count) in
      if words_count < 8 \<or> 48 < words_count then Some (Inl Invalid_words_count, h, r)
      else
        let max_iterations = 256 * 20 * (if password = [] then 1 else 256);
            bip_words = normalize_and_split bip39_english
        in if length bip_words \<noteq> 2048 then None
           else create_loop bip_words (nat words_count) password max_iterations h r)"

section \<open>Lemmas\<close>

text \<open>The index of a word is the number whose bits are the eleven bits from \<open>11 * i\<close> on.\<close>

definition rnd_bit :: "bytes \<Rightarrow> nat \<Rightarrow> bool" where
  "rnd_bit rnd k = bit (rnd ! (k div 8)) (k mod 8)"

lemma and_push_bit_1: "(w :: u8) AND push_bit n 1 \<noteq> 0 \<longleftrightarrow> bit w n"
  by (simp add: push_bit_eq_mult and_exp_eq_0_iff_not_bit)

lemma fold_bits:
  "foldl (\<lambda>(w :: nat) j. if P j then w OR push_bit j 1 else w) 0 [0..<n] = (\<Sum>j<n. if P j then 2 ^ j else 0)"
  "(\<Sum>j<n. if P j then 2 ^ j else 0) < (2 :: nat) ^ n"
proof -
  show *: "(\<Sum>j<n. if P j then 2 ^ j else 0) < (2 :: nat) ^ n" for n
    by (induction n) auto
  show "foldl (\<lambda>(w :: nat) j. if P j then w OR push_bit j 1 else w) 0 [0..<n] = (\<Sum>j<n. if P j then 2 ^ j else 0)"
  proof (induction n)
    case (Suc n)
    let ?s = "\<Sum>j<n. if P j then 2 ^ j else 0 :: nat"
    have "\<not> bit ?s n"
      using * [of n] by (simp add: bit_iff_odd)
    then have "?s OR push_bit n 1 = ?s + 2 ^ n"
      by (simp add: push_bit_eq_mult disjunctive_add_eq_or and_exp_eq_0_iff_not_bit)
    then show ?case
      using Suc by simp
  qed simp
qed

lemma word_index_bits:
  "word_index rnd i = (\<Sum>j<11. if rnd_bit rnd (i * 11 + j) then 2 ^ j else 0)" "word_index rnd i < 2048"
proof -
  have "(k AND 7) = k mod 8" for k :: nat
    using take_bit_eq_mask [of 3 k] by (simp add: take_bit_eq_mod mask_eq_exp_minus_1)
  then have "word_index rnd i =
      foldl (\<lambda>w j. if rnd_bit rnd (i * 11 + j) then w OR push_bit j 1 else w) 0 [0..<11]"
    unfolding word_index_def Let_def rnd_bit_def and_push_bit_1 by simp
  then show "word_index rnd i = (\<Sum>j<11. if rnd_bit rnd (i * 11 + j) then 2 ^ j else 0)"
    using fold_bits(1) [of "\<lambda>j. rnd_bit rnd (i * 11 + j)" 11] by simp
  with fold_bits(2) [of "\<lambda>j. rnd_bit rnd (i * 11 + j)" 11] show "word_index rnd i < 2048"
    by simp
qed

text \<open>The checks on a list of words as a predicate.\<close>

definition normal_mnemonic :: "bytes list \<Rightarrow> bytes \<Rightarrow> Mnemonic" where
  "normal_mnemonic words password =
     \<lparr>mnemonic_words = normalize_and_split (join words), mnemonic_password = password\<rparr>"

definition basic_seed :: "Mnemonic \<Rightarrow> bool" where
  "basic_seed m \<longleftrightarrow> mnemonic_seed ''TON seed version'' 390 m ! 0 = 0"

definition password_seed :: "Mnemonic \<Rightarrow> bool" where
  "password_seed m \<longleftrightarrow> mnemonic_seed ''TON fast seed version'' 1 m ! 0 = 1"

definition accepted :: "bytes list \<Rightarrow> bytes \<Rightarrow> bool" where
  "accepted words password \<longleftrightarrow> basic_seed (normal_mnemonic words password) \<and>
     (password \<noteq> [] \<longrightarrow> password_seed (normal_mnemonic words []) \<and> \<not> basic_seed (normal_mnemonic words []))"

lemma create_normal: "create_from_words words password = Inr (normal_mnemonic words password)"
  by (simp add: create_from_words_def mnemonic_create normal_mnemonic_def)

lemma is_basic_seed_run:
  assumes "no_oom h" "mnemonic_fits m"
  obtains h' where "is_basic_seed h m = Some (basic_seed m, h')" "no_oom h'"
  using is_basic_seed_result [OF assms] by (auto simp: basic_seed_def)

lemma is_password_seed_run:
  assumes "no_oom h" "mnemonic_fits m"
  obtains h' where "is_password_seed h m = Some (password_seed m, h')" "no_oom h'"
  using is_password_seed_result [OF assms] by (auto simp: password_seed_def)

lemma accept_basic_result:
  assumes "no_oom h" "mnemonic_fits (normal_mnemonic words password)" "\<And>m0. mw = Some m0 \<Longrightarrow> mnemonic_fits m0"
  obtains h' where "no_oom h'" "accept_basic h words password mw =
    Some (if basic_seed (normal_mnemonic words password) \<and> (\<forall>m0. mw = Some m0 \<longrightarrow> \<not> basic_seed m0)
          then Some (normal_mnemonic words password) else None, h')"
proof -
  obtain h1 where h1: "is_basic_seed h (normal_mnemonic words password) = Some (basic_seed (normal_mnemonic words password), h1)"
    "no_oom h1"
    by (rule is_basic_seed_run [OF assms(1,2)])
  show thesis
  proof (cases mw)
    case None
    then show thesis
      using h1 by (intro that [of h1]) (simp_all add: accept_basic_def move_as_ok_def create_normal)
  next
    case (Some m0)
    obtain h2 where "is_basic_seed h1 m0 = Some (basic_seed m0, h2)" "no_oom h2"
      by (rule is_basic_seed_run [OF h1(2) assms(3) [OF Some]])
    then show thesis
      using Some h1 that by (cases "basic_seed (normal_mnemonic words password)")
        (auto simp: accept_basic_def move_as_ok_def create_normal)
  qed
qed

lemma try_words_result:
  assumes "no_oom h" "mnemonic_fits (normal_mnemonic words password)"
  obtains h' where "no_oom h'"
    "try_words h words password = Some (if accepted words password then Some (normal_mnemonic words password) else None, h')"
proof (cases "password = []")
  case True
  obtain h' where "no_oom h'" "accept_basic h words password None =
      Some (if basic_seed (normal_mnemonic words password) then Some (normal_mnemonic words password) else None, h')"
    using accept_basic_result [OF assms, of None] by auto
  then show thesis
    using True by (intro that [of h']) (simp_all add: try_words_def accepted_def)
next
  case False
  have fits: "mnemonic_fits (normal_mnemonic words [])"
    using assms(2) by (simp add: mnemonic_fits_def normal_mnemonic_def fits_int_def)
  obtain h1 where h1: "is_password_seed h (normal_mnemonic words []) = Some (password_seed (normal_mnemonic words []), h1)" "no_oom h1"
    by (rule is_password_seed_run [OF assms(1) fits])
  obtain h2 where "no_oom h2" "accept_basic h1 words password (Some (normal_mnemonic words [])) =
      Some (if basic_seed (normal_mnemonic words password) \<and> \<not> basic_seed (normal_mnemonic words [])
            then Some (normal_mnemonic words password) else None, h2)"
    using accept_basic_result [OF h1(2) assms(2), of "Some (normal_mnemonic words [])"] fits by auto
  then show thesis
    using False h1 that by (cases "password_seed (normal_mnemonic words [])")
      (auto simp: try_words_def accepted_def move_as_ok_def create_normal)
qed

lemma length_join_le:
  "\<forall>w \<in> set ws. length w \<le> k \<Longrightarrow> length (join ws) \<le> length ws * (k + 1)"
  by (induction ws rule: induct_list012) (auto simp: join_simps)

text \<open>What every drawn list of words has, given a list of 2048 words that are not too long.\<close>

definition word_list :: "bytes list \<Rightarrow> bool" where
  "word_list bip_words \<longleftrightarrow> length bip_words = 2048 \<and> list_all word_ok bip_words \<and> (\<forall>w \<in> set bip_words. length w \<le> 32)"

lemma draw_words_ok:
  assumes "word_list bip_words"
  shows "length (draw_words bip_words n rnd) = n" "set (draw_words bip_words n rnd) \<subseteq> set bip_words"
    "normal_mnemonic (draw_words bip_words n rnd) password =
       \<lparr>mnemonic_words = draw_words bip_words n rnd, mnemonic_password = password\<rparr>"
    "n \<le> 48 \<Longrightarrow> fits_int (length password) \<Longrightarrow> mnemonic_fits (normal_mnemonic (draw_words bip_words n rnd) password)"
proof -
  show len: "length (draw_words bip_words n rnd) = n"
    by (simp add: draw_words_def)
  show sub: "set (draw_words bip_words n rnd) \<subseteq> set bip_words"
    using assms word_index_bits(2) by (fastforce simp: draw_words_def word_list_def)
  then have "list_all word_ok (draw_words bip_words n rnd)"
    using assms by (auto simp: word_list_def list_all_iff)
  then show nm: "normal_mnemonic (draw_words bip_words n rnd) password =
      \<lparr>mnemonic_words = draw_words bip_words n rnd, mnemonic_password = password\<rparr>" for password
    by (simp add: normal_mnemonic_def normalize_and_split_join)
  have "\<forall>w \<in> set (draw_words bip_words n rnd). length w \<le> 32"
    using sub assms by (auto simp: word_list_def)
  then have "length (join (draw_words bip_words n rnd)) \<le> n * 33"
    using length_join_le [of "draw_words bip_words n rnd" 32] len by simp
  then show "n \<le> 48 \<Longrightarrow> fits_int (length password) \<Longrightarrow> mnemonic_fits (normal_mnemonic (draw_words bip_words n rnd) password)"
    by (simp add: nm mnemonic_fits_def fits_int_def)
qed

lemma create_loop_result:
  assumes "word_list bip_words" "n \<le> 48" "fits_int (length password)"
  shows "no_oom h \<Longrightarrow> \<exists>res h' r'. create_loop bip_words n password k h r = Some (res, h', r') \<and> no_oom h' \<and>
    (res = Inl Mnemonic_not_found \<or> (\<exists>rnd. accepted (draw_words bip_words n rnd) password \<and>
       res = Inr (normal_mnemonic (draw_words bip_words n rnd) password)))"
proof (induction k arbitrary: h r)
  case (Suc k)
  define rnd where "rnd = fst (secure_bytes r ((n * 11 + 7) div 8))"
  obtain r1 where r1: "secure_bytes r ((n * 11 + 7) div 8) = (rnd, r1)"
    by (metis rnd_def prod.collapse)
  let ?ws = "draw_words bip_words n rnd"
  obtain h1 where h1: "no_oom h1" "try_words h ?ws password =
      Some (if accepted ?ws password then Some (normal_mnemonic ?ws password) else None, h1)"
    by (rule try_words_result [OF Suc.prems draw_words_ok(4) [OF assms]])
  show ?case
  proof (cases "accepted ?ws password")
    case True
    then show ?thesis
      using r1 h1 by auto
  next
    case False
    then show ?thesis
      using r1 h1 Suc.IH [OF h1(1)] by simp
  qed
qed simp

section \<open>Properties\<close>

text \<open>
  C33: with a list of 2048 words, \<open>create_new\<close> returns after at most the 5120 (with a password
  1310720) rounds of its loop, and reads no word outside the list. It refuses a count below 8 or
  above 48, and 0 stands for 24. A mnemonic it returns has that many words of the list, in normal
  form, so that entering them again gives the same mnemonic; it passes the checksum of a basic seed;
  and when there is a password, the words alone ask for one and are not a basic seed.
\<close>

theorem create_new_sound:
  assumes "no_oom h" "fits_int (length password)" "length (normalize_and_split bip39) = 2048"
    "\<forall>w \<in> set (normalize_and_split bip39). length w \<le> 32"
  shows "\<exists>res h' r'. create_new bip39 h r n password = Some (res, h', r') \<and>
    (res = Inl Invalid_words_count \<longleftrightarrow> n \<noteq> 0 \<and> (n < 8 \<or> 48 < n)) \<and>
    (\<forall>m. res = Inr m \<longrightarrow>
       length (mnemonic_words m) = nat (if n = 0 then 24 else n) \<and>
       set (mnemonic_words m) \<subseteq> set (normalize_and_split bip39) \<and>
       create_from_words (mnemonic_words m) password = Inr m \<and>
       (\<exists>h1. is_basic_seed h m = Some (True, h1)) \<and>
       (password \<noteq> [] \<longrightarrow> (\<exists>m0 h1 h2. create_from_words (mnemonic_words m) [] = Inr m0 \<and>
          is_password_seed h m0 = Some (True, h1) \<and> is_basic_seed h m0 = Some (False, h2))))"
proof (cases "n \<noteq> 0 \<and> (n < 8 \<or> 48 < n)")
  case True
  then show ?thesis
    by (auto simp: create_new_def)
next
  case False
  let ?bip = "normalize_and_split bip39" and ?n = "nat (if n = 0 then 24 else n)"
  have wl: "word_list ?bip"
    using assms(3,4) normalize_and_split_words by (auto simp: word_list_def list_all_iff)
  have n: "?n \<le> 48"
    using False by auto
  let ?k = "256 * 20 * (if password = [] then 1 else 256) :: nat"
  obtain res h' r' where run: "create_loop ?bip ?n password ?k h r = Some (res, h', r')"
    and res: "res = Inl Mnemonic_not_found \<or> (\<exists>rnd. accepted (draw_words ?bip ?n rnd) password \<and>
       res = Inr (normal_mnemonic (draw_words ?bip ?n rnd) password))"
    using create_loop_result [OF wl n assms(2,1)] by blast
  have new: "create_new bip39 h r n password = Some (res, h', r')"
    using False run assms(3) by (auto simp: create_new_def)
  have "length (mnemonic_words m) = ?n \<and> set (mnemonic_words m) \<subseteq> set ?bip \<and>
      create_from_words (mnemonic_words m) password = Inr m \<and> (\<exists>h1. is_basic_seed h m = Some (True, h1)) \<and>
      (password \<noteq> [] \<longrightarrow> (\<exists>m0 h1 h2. create_from_words (mnemonic_words m) [] = Inr m0 \<and>
          is_password_seed h m0 = Some (True, h1) \<and> is_basic_seed h m0 = Some (False, h2)))"
    if r: "res = Inr m" for m
  proof -
    obtain rnd where acc: "accepted (draw_words ?bip ?n rnd) password"
      and m: "m = normal_mnemonic (draw_words ?bip ?n rnd) password"
      using res r by auto
    let ?ws = "draw_words ?bip ?n rnd"
    have ws: "mnemonic_words m = ?ws"
      using draw_words_ok(3) [OF wl] m by simp
    have fits: "mnemonic_fits m" "mnemonic_fits (normal_mnemonic ?ws [])"
      using draw_words_ok(4) [OF wl n] assms(2) m by (simp_all add: fits_int_def)
    obtain h1 where h1: "is_basic_seed h m = Some (basic_seed m, h1)"
      by (rule is_basic_seed_run [OF assms(1) fits(1)])
    obtain h2 where h2: "is_basic_seed h (normal_mnemonic ?ws []) = Some (basic_seed (normal_mnemonic ?ws []), h2)"
      by (rule is_basic_seed_run [OF assms(1) fits(2)])
    obtain h3 where h3: "is_password_seed h (normal_mnemonic ?ws []) = Some (password_seed (normal_mnemonic ?ws []), h3)"
      by (rule is_password_seed_run [OF assms(1) fits(2)])
    have "\<exists>h1. is_basic_seed h m = Some (True, h1)"
      using h1 acc m by (simp add: accepted_def)
    moreover have "\<exists>h1 h2. is_password_seed h (normal_mnemonic ?ws []) = Some (True, h1) \<and>
        is_basic_seed h (normal_mnemonic ?ws []) = Some (False, h2)" if "password \<noteq> []"
      using h2 h3 acc that by (simp add: accepted_def)
    ultimately show ?thesis
      using draw_words_ok(1,2) [OF wl] ws m create_normal by simp
  qed
  moreover have "res \<noteq> Inl Invalid_words_count"
    using res by auto
  ultimately show ?thesis
    using new False by blast
qed

theorem create_new_sound_witness:
  "\<exists>res h' r'. create_new (join (replicate 2048 [0x61])) [] (\<lambda>i. word_of_nat i) 12 [1] = Some (res, h', r') \<and>
    res \<noteq> Inl Invalid_words_count"
proof -
  have "list_all word_ok (replicate 2048 [0x61 :: u8])"
    by (simp add: word_ok_def list_all_iff)
  then have n: "normalize_and_split (join (replicate 2048 [0x61 :: u8])) = replicate 2048 [0x61]"
    by (rule normalize_and_split_join)
  have "no_oom []" "fits_int (length [1 :: u8])" "length (normalize_and_split (join (replicate 2048 [0x61 :: u8]))) = 2048"
    "\<forall>w \<in> set (normalize_and_split (join (replicate 2048 [0x61 :: u8]))). length w \<le> 32"
    unfolding n by (simp_all add: fits_int_def)
  from create_new_sound [OF this, of "\<lambda>i. word_of_nat i" 12] show ?thesis
    by auto
qed

end
