(* ===== verification/Key_Storage.thy ===== *)
theory Key_Storage
  imports Local_Key Key_Value Mnemonic_Creation
begin

text \<open>
  The key storage of the TON client library, \<open>tonlib/KeyStorage.cpp\<close> under \<open>app/jni/ton\<close>. A key is
  stored under a name derived from its secret, encrypted under a key derived from the secret and the
  local password. Two older forms are still read: a file named after the public key, and the older
  scheme of encryption; both are brought into the new form when a key is exported. The storage talks
  to its files through \<open>KeyValue\<close>: its lemmas are proved in the locale \<open>reliable_store\<close>, and the
  properties use them for \<open>KeyValueInmemory\<close>. The forms in PEM are not modelled.
\<close>

section \<open>The storage\<close>

record Key =
  public_key :: bytes
  secret :: bytes

record InputKey =
  ik_key :: Key
  ik_local_password :: bytes

definition to_file_name_old :: "Key \<Rightarrow> bytes" where
  "to_file_name_old key = buffer_to_hex (public_key key)"

definition to_file_name :: "cpu \<Rightarrow> Key \<Rightarrow> bytes option" where
  "to_file_name c key = do {
     hash \<leftarrow> td_sha512 c (secret key);
     Some (buffer_to_hex (take 32 hash))
   }"

definition save_key ::
  "cpu \<Rightarrow> ed25519 \<Rightarrow> 's key_value \<Rightarrow> 's world \<Rightarrow> DecryptedKey \<Rightarrow> bytes \<Rightarrow> (Key td_result \<times> 's world) option" where
  "save_key c ed kv w decrypted_key local_password = do {
     (encrypted_key, w) \<leftarrow> DecryptedKey_encrypt c ed w decrypted_key local_password [];
     let res = \<lparr>public_key = ek_public_key encrypted_key, secret = ek_secret encrypted_key\<rparr>;
     name \<leftarrow> to_file_name c res;
     let (st, files) = kv_set kv name (encrypted_data encrypted_key) (w_files w);
     let w = w\<lparr>w_files := files\<rparr>;
     case st of Inl _ \<Rightarrow> Some (Inl Internal_error, w) | Inr _ \<Rightarrow> Some (Inr res, w)
   }"

text \<open>
  The first part of \<open>export_decrypted_key\<close>: the encrypted data, from the file of the old name when
  there is none of the new name; it is then moved.
\<close>

definition load_encrypted ::
  "'s key_value \<Rightarrow> 's world \<Rightarrow> bytes \<Rightarrow> bytes \<Rightarrow> bytes td_result \<times> 's world" where
  "load_encrypted kv w name old_name =
     (case kv_get kv name (w_files w) of
        Inr e \<Rightarrow> (Inr e, w)
      | Inl _ \<Rightarrow>
          (case kv_get kv old_name (w_files w) of
             Inl _ \<Rightarrow> (Inl KeyUnknown_error, w)
           | Inr e \<Rightarrow>
               let (st, files) = kv_set kv name e (w_files w);
                   w = w\<lparr>w_files := files\<rparr>
               in case st of
                    Inl _ \<Rightarrow> (Inl Internal_error, w)
                  | Inr _ \<Rightarrow> (Inr e, w\<lparr>w_files := snd (kv_erase kv old_name (w_files w))\<rparr>)))"

text \<open>The block that brings a key of the old encryption into the new one; three checks guard it.\<close>

definition reencrypt ::
  "cpu \<Rightarrow> ed25519 \<Rightarrow> 's key_value \<Rightarrow> 's world \<Rightarrow> EncryptedKey \<Rightarrow> DecryptedKey \<Rightarrow> bytes \<Rightarrow> 's world option" where
  "reencrypt c ed kv w encrypted_key decrypted_key local_password = do {
     let key = \<lparr>public_key = ek_public_key encrypted_key, secret = ek_secret encrypted_key\<rparr>;
     (new_encrypted_key, w) \<leftarrow> DecryptedKey_encrypt c ed w decrypted_key local_password (ek_secret encrypted_key);
     if ek_public_key new_encrypted_key \<noteq> ek_public_key encrypted_key then None
     else if ek_secret new_encrypted_key \<noteq> ek_secret encrypted_key then None
     else do {
       (r, w) \<leftarrow> EncryptedKey_decrypt c ed w new_encrypted_key local_password True False;
       case r of
         Inl _ \<Rightarrow> None
       | Inr k \<Rightarrow>
           if private_key k \<noteq> private_key decrypted_key then None
           else do {
             name \<leftarrow> to_file_name c key;
             Some (w\<lparr>w_files := snd (kv_set kv name (encrypted_data new_encrypted_key) (w_files w))\<rparr>)
           }
     }
   }"

definition export_decrypted_key ::
  "cpu \<Rightarrow> ed25519 \<Rightarrow> 's key_value \<Rightarrow> 's world \<Rightarrow> InputKey \<Rightarrow> (DecryptedKey td_result \<times> 's world) option" where
  "export_decrypted_key c ed kv w input_key = do {
     name \<leftarrow> to_file_name c (ik_key input_key);
     let (r_encrypted_data, w) = load_encrypted kv w name (to_file_name_old (ik_key input_key));
     case r_encrypted_data of
       Inl e \<Rightarrow> Some (Inl e, w)
     | Inr e \<Rightarrow> do {
         let encrypted_key = \<lparr>encrypted_data = e, ek_public_key = public_key (ik_key input_key),
                ek_secret = secret (ik_key input_key)\<rparr>;
         (r_decrypted_key, w) \<leftarrow> EncryptedKey_decrypt c ed w encrypted_key (ik_local_password input_key) True True;
         case r_decrypted_key of
           Inr decrypted_key \<Rightarrow> do {
             w \<leftarrow> reencrypt c ed kv w encrypted_key decrypted_key (ik_local_password input_key);
             Some (Inr decrypted_key, w)
           }
         | Inl _ \<Rightarrow> do {
             (r, w) \<leftarrow> EncryptedKey_decrypt c ed w encrypted_key (ik_local_password input_key) True False;
             case r of Inl _ \<Rightarrow> Some (Inl KeyDecrypt_error, w) | Inr k \<Rightarrow> Some (Inr k, w)
           }
       }
   }"

text \<open>The operations of the class on top of these.\<close>

definition export_key ::
  "cpu \<Rightarrow> ed25519 \<Rightarrow> 's key_value \<Rightarrow> 's world \<Rightarrow> InputKey \<Rightarrow> (bytes list td_result \<times> 's world) option" where
  "export_key c ed kv w input_key = do {
     (r, w) \<leftarrow> export_decrypted_key c ed kv w input_key;
     Some (map_sum id key_words r, w)
   }"

definition fake_private_key :: bytes where
  "fake_private_key = replicate 32 0"

definition fake_input_key :: InputKey where
  "fake_input_key = \<lparr>ik_key = \<lparr>public_key = replicate 32 0, secret = replicate 32 0\<rparr>, ik_local_password = []\<rparr>"

definition is_fake_input_key :: "InputKey \<Rightarrow> bool" where
  "is_fake_input_key input_key =
     (let is_zero = (\<lambda>s n. length s = n \<and> list_all (\<lambda>c. c = 0) s)
      in is_zero (ik_local_password input_key) 0 \<and> is_zero (secret (ik_key input_key)) 32 \<and>
         is_zero (public_key (ik_key input_key)) (32 :: nat))"

definition load_private_key ::
  "cpu \<Rightarrow> ed25519 \<Rightarrow> 's key_value \<Rightarrow> 's world \<Rightarrow> InputKey \<Rightarrow> (bytes td_result \<times> 's world) option" where
  "load_private_key c ed kv w input_key =
     (if is_fake_input_key input_key then Some (Inr fake_private_key, w)
      else do {
        (r, w) \<leftarrow> export_decrypted_key c ed kv w input_key;
        Some (map_sum id private_key r, w)
      })"

definition delete_key :: "cpu \<Rightarrow> 's key_value \<Rightarrow> 's world \<Rightarrow> Key \<Rightarrow> (unit td_result \<times> 's world) option" where
  "delete_key c kv w key = do {
     name \<leftarrow> to_file_name c key;
     let (st, files) = kv_erase kv name (w_files w);
     Some (st, w\<lparr>w_files := files\<rparr>)
   }"

text \<open>
  \<open>delete_all_keys\<close>: the names without an extension; \<open>PathView\<close> finds an extension behind a dot that
  is not the first character of the last component. The first error is returned.
\<close>

definition last_slash_end :: "bytes \<Rightarrow> nat" where
  "last_slash_end path = length path - length (takeWhile (\<lambda>c. c \<noteq> 0x2f \<and> c \<noteq> 0x5c) (rev path))"

definition last_dot :: "bytes \<Rightarrow> nat" where
  "last_dot path =
     (let dots = filter (\<lambda>i. path ! i = 0x2e) [last_slash_end path + 1..<length path]
      in if dots = [] then length path else last dots)"

definition path_extension :: "bytes \<Rightarrow> bytes" where
  "path_extension path = (if last_dot path = length path then [] else drop (last_dot path + 1) path)"

fun delete_all :: "'s key_value \<Rightarrow> 's \<Rightarrow> bytes list \<Rightarrow> unit td_result \<Rightarrow> unit td_result \<times> 's" where
  "delete_all kv files [] status = (status, files)"
| "delete_all kv files (key # keys) status =
     (let (err, files) = kv_erase kv key files;
          status = (case (err, status) of (Inl e, Inr _) \<Rightarrow> Inl e | _ \<Rightarrow> status)
      in delete_all kv files keys status)"

definition delete_all_keys :: "'s key_value \<Rightarrow> 's world \<Rightarrow> unit td_result \<times> 's world" where
  "delete_all_keys kv w =
     (let keys = filter (\<lambda>key. path_extension key = []) (kv_foreach_key kv (w_files w));
          (st, files) = delete_all kv (w_files w) keys (Inr ())
      in (st, w\<lparr>w_files := files\<rparr>))"

definition create_new_key ::
  "bytes \<Rightarrow> cpu \<Rightarrow> ed25519 \<Rightarrow> 's key_value \<Rightarrow> 's world \<Rightarrow> bytes \<Rightarrow> bytes \<Rightarrow> (Key td_result \<times> 's world) option" where
  "create_new_key bip39_english c ed kv w local_password seed_password = do {
     (r, h, rng) \<leftarrow> create_new bip39_english (w_heap w) (w_rng w) 24 seed_password;
     let w = w\<lparr>w_heap := h, w_rng := rng\<rparr>;
     case r of
       Inl e \<Rightarrow> Some (Inl e, w)
     | Inr mnemonic \<Rightarrow> do {
         (key, h) \<leftarrow> to_private_key (w_heap w) mnemonic;
         save_key c ed kv (w\<lparr>w_heap := h\<rparr>) \<lparr>key_words = mnemonic_words mnemonic, private_key = key\<rparr> local_password
       }
   }"

definition import_key ::
  "cpu \<Rightarrow> ed25519 \<Rightarrow> 's key_value \<Rightarrow> 's world \<Rightarrow> bytes \<Rightarrow> bytes \<Rightarrow> bytes list \<Rightarrow> (Key td_result \<times> 's world) option" where
  "import_key c ed kv w local_password seed_password exported_key =
     (case create_from_words exported_key seed_password of
        Inl e \<Rightarrow> Some (Inl e, w)
      | Inr mnemonic \<Rightarrow> do {
          (basic, h) \<leftarrow> is_basic_seed (w_heap w) mnemonic;
          let w = w\<lparr>w_heap := h\<rparr>;
          if \<not> basic then
            (if seed_password = [] then do {
               (pw, h) \<leftarrow> is_password_seed (w_heap w) mnemonic;
               Some (Inl (if pw then Need_mnemonic_password else Invalid_mnemonic), w\<lparr>w_heap := h\<rparr>)
             } else Some (Inl Invalid_mnemonic, w))
          else do {
            (key, h) \<leftarrow> to_private_key (w_heap w) mnemonic;
            save_key c ed kv (w\<lparr>w_heap := h\<rparr>) \<lparr>key_words = mnemonic_words mnemonic, private_key = key\<rparr> local_password
          }
        })"

definition change_local_password ::
  "cpu \<Rightarrow> ed25519 \<Rightarrow> 's key_value \<Rightarrow> 's world \<Rightarrow> InputKey \<Rightarrow> bytes \<Rightarrow> (Key td_result \<times> 's world) option" where
  "change_local_password c ed kv w input_key new_local_password = do {
     old_name \<leftarrow> to_file_name c (ik_key input_key);
     (r, w) \<leftarrow> export_decrypted_key c ed kv w input_key;
     case r of Inl e \<Rightarrow> Some (Inl e, w) | Inr k \<Rightarrow> save_key c ed kv w k new_local_password
   }"

definition get_dummy_secret :: bytes where
  "get_dummy_secret = ascii ''dummy secret of 32 bytes length!''"

definition export_encrypted_key ::
  "cpu \<Rightarrow> ed25519 \<Rightarrow> 's key_value \<Rightarrow> 's world \<Rightarrow> InputKey \<Rightarrow> bytes \<Rightarrow> (bytes td_result \<times> 's world) option" where
  "export_encrypted_key c ed kv w input_key key_password = do {
     (r, w) \<leftarrow> export_decrypted_key c ed kv w input_key;
     case r of
       Inl e \<Rightarrow> Some (Inl e, w)
     | Inr k \<Rightarrow> do {
         (res, w) \<leftarrow> DecryptedKey_encrypt c ed w k key_password get_dummy_secret;
         Some (Inr (encrypted_data res), w)
       }
   }"

definition export_unencrypted_key ::
  "cpu \<Rightarrow> ed25519 \<Rightarrow> 's key_value \<Rightarrow> 's world \<Rightarrow> InputKey \<Rightarrow> (bytes td_result \<times> 's world) option" where
  "export_unencrypted_key c ed kv w input_key = do {
     (r, w) \<leftarrow> export_decrypted_key c ed kv w input_key;
     Some (map_sum id private_key r, w)
   }"

definition import_encrypted_key ::
  "cpu \<Rightarrow> ed25519 \<Rightarrow> 's key_value \<Rightarrow> 's world \<Rightarrow> bytes \<Rightarrow> bytes \<Rightarrow> bytes \<Rightarrow> (Key td_result \<times> 's world) option" where
  "import_encrypted_key c ed kv w local_password key_password exported_key = do {
     let encrypted_key = \<lparr>encrypted_data = exported_key, ek_public_key = [], ek_secret = get_dummy_secret\<rparr>;
     (r, w) \<leftarrow> EncryptedKey_decrypt c ed w encrypted_key key_password False False;
     case r of Inl _ \<Rightarrow> Some (Inl KeyDecrypt_error, w) | Inr k \<Rightarrow> save_key c ed kv w k local_password
   }"

definition import_unencrypted_key ::
  "cpu \<Rightarrow> ed25519 \<Rightarrow> 's key_value \<Rightarrow> 's world \<Rightarrow> bytes \<Rightarrow> bytes \<Rightarrow> (Key td_result \<times> 's world) option" where
  "import_unencrypted_key c ed kv w local_password exported_key =
     save_key c ed kv w \<lparr>key_words = [], private_key = exported_key\<rparr> local_password"

text \<open>The name of a key's file.\<close>

definition file_name :: "Key \<Rightarrow> bytes" where
  "file_name key = buffer_to_hex (take 32 (fips_sha512 (secret key)))"

lemma to_file_name_result: "cpu_ok c \<Longrightarrow> to_file_name c key = Some (file_name key)"
  by (simp add: to_file_name_def file_name_def td_hashes)

text \<open>The files after the first part of \<open>export_decrypted_key\<close>, and what it then returns.\<close>

definition migrated :: "Key \<Rightarrow> (bytes \<rightharpoonup> bytes) \<Rightarrow> bytes \<rightharpoonup> bytes" where
  "migrated key m =
     (case (m (file_name key), m (to_file_name_old key)) of
        (None, Some e) \<Rightarrow> (m(file_name key \<mapsto> e))(to_file_name_old key := None)
      | _ \<Rightarrow> m)"

definition stored_key :: "Key \<Rightarrow> bytes \<Rightarrow> EncryptedKey" where
  "stored_key key e = \<lparr>encrypted_data = e, ek_public_key = public_key key, ek_secret = secret key\<rparr>"

lemma stored_key_simps [simp]:
  "encrypted_data (stored_key key e) = e" "ek_public_key (stored_key key e) = public_key key"
  "ek_secret (stored_key key e) = secret key"
  by (simp_all add: stored_key_def)

definition exported :: "ed25519 \<Rightarrow> (bytes \<rightharpoonup> bytes) \<Rightarrow> InputKey \<Rightarrow> DecryptedKey td_result" where
  "exported ed m ik =
     (case migrated (ik_key ik) m (file_name (ik_key ik)) of
        None \<Rightarrow> Inl KeyUnknown_error
      | Some e \<Rightarrow>
          (case opened_key ed (stored_key (ik_key ik) e) (ik_local_password ik) True True of
             Inr k \<Rightarrow> Inr k
           | Inl _ \<Rightarrow>
               (case opened_key ed (stored_key (ik_key ik) e) (ik_local_password ik) True False of
                  Inl _ \<Rightarrow> Inl KeyDecrypt_error
                | Inr k \<Rightarrow> Inr k)))"

lemma exported_public:
  "exported ed m ik = Inr k \<Longrightarrow> get_public_key ed (private_key k) = Inr (public_key (ik_key ik))"
  by (auto simp: exported_def dest: opened_key_public split: option.splits sum.splits)

context reliable_store
begin

lemma load_encrypted_result:
  assumes "name = file_name key" "old = to_file_name_old key"
  obtains s' where "lookup kv s' = migrated key (lookup kv (w_files w))"
    "load_encrypted kv w name old =
       ((case lookup kv s' name of None \<Rightarrow> Inl KeyUnknown_error | Some e \<Rightarrow> Inr e), w\<lparr>w_files := s'\<rparr>)"
proof -
  let ?m = "lookup kv (w_files w)"
  consider e where "?m name = Some e" | "?m name = None" "?m old = None"
    | e where "?m name = None" "?m old = Some e"
    by fastforce
  then show thesis
  proof cases
    case 1
    moreover from this have "kv_get kv name (w_files w) = Inr e"
      by (simp add: lookup_Some)
    ultimately show thesis
      using assms by (intro that [of "w_files w"])
        (auto simp: load_encrypted_def migrated_def split: option.splits)
  next
    case 2
    moreover from this obtain e f where "kv_get kv name (w_files w) = Inl e" "kv_get kv old (w_files w) = Inl f"
      by (auto simp: lookup_None)
    ultimately show thesis
      using assms by (intro that [of "w_files w"]) (auto simp: load_encrypted_def migrated_def)
  next
    case (3 e)
    obtain s1 where s1: "kv_set kv name e (w_files w) = (Inr (), s1)" "lookup kv s1 = ?m(name \<mapsto> e)"
      by (rule set_result)
    have ne: "name \<noteq> old"
      using 3 by auto
    then have "old \<in> dom (lookup kv s1)"
      using s1(2) 3 by auto
    then obtain s2 where s2: "kv_erase kv old s1 = (Inr (), s2)" "lookup kv s2 = (lookup kv s1)(old := None)"
      by (rule erase_result)
    obtain f where "kv_get kv name (w_files w) = Inl f" "kv_get kv old (w_files w) = Inr e"
      using 3 by (auto simp: lookup_None lookup_Some)
    then show thesis
      using assms 3 ne s1 s2 by (intro that [of s2]) (auto simp: load_encrypted_def migrated_def)
  qed
qed

lemma save_key_result:
  assumes "cpu_ok c" "no_oom (w_heap w)" "fits_int (length pw)" "key_fits (raw_key k)"
    "get_public_key ed (private_key k) = Inr pub"
  obtains key e w' where "save_key c ed kv w k pw = Some (Inr key, w')" "no_oom (w_heap w')"
    "public_key key = pub" "protects (stored_key key e) pw k"
    "lookup kv (w_files w') = (lookup kv (w_files w))(file_name key \<mapsto> e)"
proof -
  obtain ek h' r' where ek: "DecryptedKey_encrypt c ed w k pw [] = Some (ek, w\<lparr>w_heap := h', w_rng := r'\<rparr>)"
    "no_oom h'" "protects ek pw k" "ek_public_key ek = pub"
    using DecryptedKey_encrypt_result [OF assms, of "[]"] by metis
  let ?key = "\<lparr>public_key = pub, secret = ek_secret ek\<rparr>"
  obtain s' where s': "kv_set kv (file_name ?key) (encrypted_data ek) (w_files w) = (Inr (), s')"
    "lookup kv s' = (lookup kv (w_files w))(file_name ?key \<mapsto> encrypted_data ek)"
    by (rule set_result)
  have "save_key c ed kv w k pw = Some (Inr ?key, w\<lparr>w_heap := h', w_rng := r', w_files := s'\<rparr>)"
    using ek(1,4) s'(1) to_file_name_result [OF assms(1)] by (simp add: save_key_def)
  moreover have "stored_key ?key (encrypted_data ek) = ek"
    using ek(4) by (simp add: stored_key_def)
  ultimately show thesis
    using ek(2,3) s'(2) by (intro that [of ?key "w\<lparr>w_heap := h', w_rng := r', w_files := s'\<rparr>" "encrypted_data ek"]) simp_all
qed

lemma reencrypt_result:
  assumes "cpu_ok c" "no_oom (w_heap w)" "fits_int (length pw)" "key_fits (raw_key k)"
    "length (secret key) = 32" "get_public_key ed (private_key k) = Inr (public_key key)"
  obtains e' w' where "reencrypt c ed kv w (stored_key key e) k pw = Some w'" "no_oom (w_heap w')"
    "protects (stored_key key e') pw k" "lookup kv (w_files w') = (lookup kv (w_files w))(file_name key \<mapsto> e')"
proof -
  obtain ek h1 r1 where ek: "DecryptedKey_encrypt c ed w k pw (secret key) = Some (ek, w\<lparr>w_heap := h1, w_rng := r1\<rparr>)"
    "no_oom h1" "protects ek pw k" "ek_public_key ek = public_key key" "ek_secret ek = secret key"
    using DecryptedKey_encrypt_result [OF assms(1-4,6), of "secret key"] assms(5) by metis
  let ?w1 = "w\<lparr>w_heap := h1, w_rng := r1\<rparr>"
  have "opened_key ed ek pw True False = Inr k" "readable ek pw False"
    using protects_opened [OF ek(3) assms(6)] ek(4) by simp_all
  then obtain h2 where h2: "EncryptedKey_decrypt c ed ?w1 ek pw True False = Some (Inr k, ?w1\<lparr>w_heap := h2\<rparr>)" "no_oom h2"
    using EncryptedKey_decrypt_result [OF assms(1), of ?w1 pw ek False ed True] ek(2) assms(3) by auto
  obtain s' where s': "kv_set kv (file_name key) (encrypted_data ek) (w_files w) = (Inr (), s')"
    "lookup kv s' = (lookup kv (w_files w))(file_name key \<mapsto> encrypted_data ek)"
    by (rule set_result)
  have key: "\<lparr>public_key = public_key key, secret = secret key\<rparr> = key"
    by simp
  have "reencrypt c ed kv w (stored_key key e) k pw = Some (?w1\<lparr>w_heap := h2, w_files := s'\<rparr>)"
    using ek(1,4,5) h2(1) s'(1) to_file_name_result [OF assms(1)] unfolding reencrypt_def
    by (simp add: Let_def key)
  moreover have "stored_key key (encrypted_data ek) = ek"
    using ek(4,5) by (simp add: stored_key_def)
  ultimately show thesis
    using ek(3) h2(2) s'(2) by (intro that [of "?w1\<lparr>w_heap := h2, w_files := s'\<rparr>" "encrypted_data ek"]) simp_all
qed

text \<open>The function \<open>export_decrypted_key\<close> in full: none of its checks fails.\<close>

lemma export_decrypted_key_result:
  assumes "cpu_ok c" "no_oom (w_heap w)" "fits_int (length (ik_local_password ik))"
    "\<forall>e \<in> ran (lookup kv (w_files w)). length e < 2 ^ 31"
  obtains w' where "export_decrypted_key c ed kv w ik = Some (exported ed (lookup kv (w_files w)) ik, w')"
    "no_oom (w_heap w')"
    "lookup kv (w_files w') = migrated (ik_key ik) (lookup kv (w_files w)) \<or>
     (\<exists>k e'. exported ed (lookup kv (w_files w)) ik = Inr k \<and> protects (stored_key (ik_key ik) e') (ik_local_password ik) k \<and>
        lookup kv (w_files w') = (migrated (ik_key ik) (lookup kv (w_files w)))(file_name (ik_key ik) \<mapsto> e'))"
proof -
  let ?key = "ik_key ik" and ?pw = "ik_local_password ik" and ?m = "lookup kv (w_files w)"
  let ?name = "file_name ?key"
  obtain s where s: "lookup kv s = migrated ?key ?m"
    "load_encrypted kv w ?name (to_file_name_old ?key) =
       ((case lookup kv s ?name of None \<Rightarrow> Inl KeyUnknown_error | Some e \<Rightarrow> Inr e), w\<lparr>w_files := s\<rparr>)"
    using load_encrypted_result [OF refl refl] by blast
  have name: "to_file_name c ?key = Some ?name"
    by (rule to_file_name_result [OF assms(1)])
  show thesis
  proof (cases "lookup kv s ?name")
    case None
    then show thesis
      using s name assms(2) by (intro that [of "w\<lparr>w_files := s\<rparr>"])
        (auto simp: export_decrypted_key_def exported_def)
  next
    case (Some e)
    let ?ek = "stored_key ?key e"
    have "e \<in> ran ?m"
      using Some s(1) by (auto simp: migrated_def ran_def split: option.splits if_splits)
    then have small: "length (encrypted_data ?ek) < 2 ^ 31"
      using assms(4) by simp
    note rd = small_file(1) [OF small]
    obtain h1 where h1: "EncryptedKey_decrypt c ed (w\<lparr>w_files := s\<rparr>) ?ek ?pw True True =
        Some (opened_key ed ?ek ?pw True True, w\<lparr>w_files := s, w_heap := h1\<rparr>)" "no_oom h1"
      using EncryptedKey_decrypt_result [where w = "w\<lparr>w_files := s\<rparr>" and ed = ed and check = True,
          OF assms(1) _ assms(3) rd] assms(2) by auto
    let ?w1 = "w\<lparr>w_files := s, w_heap := h1\<rparr>"
    show thesis
    proof (cases "opened_key ed ?ek ?pw True True")
      case (Inr k)
      have sec: "length (secret ?key) = 32"
        using Inr by (auto simp: opened_key_def split: if_splits)
      have pub: "get_public_key ed (private_key k) = Inr (public_key ?key)"
        using opened_key_public [OF Inr] by simp
      have h: "no_oom (w_heap ?w1)"
        using h1(2) by simp
      obtain e' w' where w': "reencrypt c ed kv ?w1 ?ek k ?pw = Some w'" "no_oom (w_heap w')"
        "protects (stored_key ?key e') ?pw k" "lookup kv (w_files w') = (lookup kv (w_files ?w1))(?name \<mapsto> e')"
        by (rule reencrypt_result [OF assms(1) h assms(3) small_file(2) [OF small Inr] sec pub, of e])
      have "exported ed ?m ik = Inr k"
        using Some Inr s(1) by (simp add: exported_def)
      then show thesis
        using s name Some h1 Inr w' by (intro that [of w'])
          (auto simp: export_decrypted_key_def Let_def stored_key_def)
    next
      case (Inl x)
      obtain h2 where h2: "EncryptedKey_decrypt c ed ?w1 ?ek ?pw True False =
          Some (opened_key ed ?ek ?pw True False, ?w1\<lparr>w_heap := h2\<rparr>)" "no_oom h2"
        using EncryptedKey_decrypt_result [where w = ?w1 and ed = ed and check = True, OF assms(1) _ assms(3) rd]
          h1(2) by auto
      have "exported ed ?m ik =
          (case opened_key ed ?ek ?pw True False of Inl _ \<Rightarrow> Inl KeyDecrypt_error | Inr k \<Rightarrow> Inr k)"
        using Some Inl s(1) by (simp add: exported_def)
      then show thesis
        using s name Some h1 Inl h2 by (intro that [of "?w1\<lparr>w_heap := h2\<rparr>"])
          (auto simp: export_decrypted_key_def Let_def stored_key_def split: sum.splits)
    qed
  qed
qed

end

section \<open>Operations on top of export and save\<close>

lemma exported_protected:
  assumes "m (file_name (ik_key ik)) = Some e" "protects (stored_key (ik_key ik) e) (ik_local_password ik) k"
    "get_public_key ed (private_key k) = Inr (public_key (ik_key ik))"
  shows "\<exists>k'. exported ed m ik = Inr k' \<and> (k' = k \<or> two_texts e)"
proof -
  let ?ek = "stored_key (ik_key ik) e"
  have new: "opened_key ed ?ek (ik_local_password ik) True False = Inr k"
    using protects_opened(1) [OF assms(2,3)] by simp
  have m: "migrated (ik_key ik) m (file_name (ik_key ik)) = Some e"
    using assms(1) by (simp add: migrated_def)
  show ?thesis
  proof (cases "opened_key ed ?ek (ik_local_password ik) True True")
    case (Inl x)
    then show ?thesis
      using new m by (simp add: exported_def)
  next
    case (Inr k')
    then show ?thesis
      using old_scheme_agrees [OF assms(2) Inr] m by (auto simp: exported_def)
  qed
qed

text \<open>The names of the files have no dot, so that \<open>delete_all_keys\<close> finds them.\<close>

lemma hex_digits: "hex_digit (c AND 15) \<noteq> 0x2e \<and> hex_digit (drop_bit 4 c) \<noteq> 0x2e" for c :: u8
proof -
  have "0x2e \<notin> set (ascii ''0123456789ABCDEF'')" "length (ascii ''0123456789ABCDEF'') = 16"
    by code_simp+
  then have "unat n < 16 \<Longrightarrow> hex_digit n \<noteq> 0x2e" for n
    unfolding hex_digit_def by (metis nth_mem)
  moreover have "unat (c AND 15) < 16"
    using word_and_le1 [of c 15] by (simp add: word_le_nat_alt)
  moreover have "unat (drop_bit 4 c) < 16"
    using unsigned_less [of c, where ?'a = nat] unfolding unat_drop_bit_eq
    by (auto simp: drop_bit_eq_div intro: less_mult_imp_div_less)
  ultimately show ?thesis
    by blast
qed

lemma path_extension_no_dot: "0x2e \<notin> set name \<Longrightarrow> path_extension name = []"
proof -
  assume *: "0x2e \<notin> set name"
  have "filter (\<lambda>i. name ! i = 0x2e) [last_slash_end name + 1..<length name] = []"
    unfolding filter_empty_conv using * by (metis atLeastLessThan_iff nth_mem set_upt)
  then show ?thesis
    by (simp add: path_extension_def last_dot_def)
qed

lemma file_name_extension: "path_extension (file_name key) = []" "path_extension (to_file_name_old key) = []"
proof -
  have "0x2e \<notin> set (buffer_to_hex b)" for b
    unfolding buffer_to_hex_def using hex_digits by fastforce
  then show "path_extension (file_name key) = []" "path_extension (to_file_name_old key) = []"
    unfolding file_name_def to_file_name_old_def by (blast intro: path_extension_no_dot)+
qed

context reliable_store
begin

lemma delete_all_result:
  "set ks \<subseteq> dom (lookup kv s) \<Longrightarrow> distinct ks \<Longrightarrow>
     \<exists>s'. delete_all kv s ks (Inr ()) = (Inr (), s') \<and> lookup kv s' = (lookup kv s) |` (- set ks)"
proof (induction ks arbitrary: s)
  case (Cons k ks)
  obtain s1 where s1: "kv_erase kv k s = (Inr (), s1)" "lookup kv s1 = (lookup kv s)(k := None)"
    using erase_result [of k s] Cons.prems by auto
  then have "set ks \<subseteq> dom (lookup kv s1)" "distinct ks"
    using Cons.prems by auto
  from Cons.IH [OF this] s1 show ?case
    by (fastforce simp: restrict_map_def)
qed (simp add: restrict_map_def)

lemma delete_all_keys_result:
  obtains w' where "delete_all_keys kv w = (Inr (), w')"
    "lookup kv (w_files w') = (lookup kv (w_files w)) |` {k. path_extension k \<noteq> []}"
proof -
  let ?ks = "filter (\<lambda>key. path_extension key = []) (kv_foreach_key kv (w_files w))"
  obtain s' where s': "delete_all kv (w_files w) ?ks (Inr ()) = (Inr (), s')"
    "lookup kv s' = (lookup kv (w_files w)) |` (- set ?ks)"
    using delete_all_result [of ?ks "w_files w"] keys [of "w_files w"] by auto
  have "lookup kv s' = (lookup kv (w_files w)) |` {k. path_extension k \<noteq> []}"
    using keys(1) [of "w_files w"] unfolding s'(2) by (auto simp: restrict_map_def fun_eq_iff domIff)
  then show thesis
    using s'(1) by (intro that [of "w\<lparr>w_files := s'\<rparr>"]) (simp_all add: delete_all_keys_def Let_def)
qed

lemma saved_key_exports:
  assumes "cpu_ok c" "no_oom (w_heap w)" "fits_int (length pw)" "key_fits (raw_key k)"
    "get_public_key ed (private_key k) = Inr pub" 
  obtains key e w' where "save_key c ed kv w k pw = Some (Inr key, w')" "no_oom (w_heap w')" "public_key key = pub"
    "length (secret key) = 32" "lookup kv (w_files w') = (lookup kv (w_files w))(file_name key \<mapsto> e)"
    "\<And>m. m (file_name key) = Some e \<Longrightarrow> \<exists>k'. exported ed m \<lparr>ik_key = key, ik_local_password = pw\<rparr> = Inr k' \<and> (k' = k \<or> two_texts e)"
proof -
  obtain key e w' where s: "save_key c ed kv w k pw = Some (Inr key, w')" "no_oom (w_heap w')" "public_key key = pub"
    "protects (stored_key key e) pw k" "lookup kv (w_files w') = (lookup kv (w_files w))(file_name key \<mapsto> e)"
    by (rule save_key_result [OF assms])
  have "\<exists>k'. exported ed m \<lparr>ik_key = key, ik_local_password = pw\<rparr> = Inr k' \<and> (k' = k \<or> two_texts e)"
    if "m (file_name key) = Some e" for m
    using exported_protected [of m "\<lparr>ik_key = key, ik_local_password = pw\<rparr>" e k ed] that s(3,4) assms(5) by simp
  moreover have "length (secret key) = 32"
    using s(4) by (simp add: protects_def)
  ultimately show thesis
    using s that by blast
qed

end

lemmas inmemory_export = inmemory.export_decrypted_key_result [unfolded lookup_inmemory]
lemmas inmemory_save_key = inmemory.save_key_result [unfolded lookup_inmemory]
lemmas inmemory_save = inmemory.saved_key_exports [unfolded lookup_inmemory]
lemmas inmemory_delete_all = inmemory.delete_all_keys_result [unfolded lookup_inmemory]

section \<open>Sizes\<close>

lemma exported_fits:
  assumes "exported ed m ik = Inr k" "\<forall>e \<in> ran m. length e < 2 ^ 31"
  shows "key_fits (raw_key k)"
proof -
  obtain e where e: "migrated (ik_key ik) m (file_name (ik_key ik)) = Some e"
    using assms(1) by (auto simp: exported_def split: option.splits)
  then have "e \<in> ran m"
    by (auto simp: migrated_def ran_def split: option.splits if_splits)
  then have small: "length (encrypted_data (stored_key (ik_key ik) e)) < 2 ^ 31"
    using assms(2) by simp
  show ?thesis
    using assms(1) e small_file(2) [OF small] by (auto simp: exported_def split: sum.splits)
qed

lemma length_join: "list_all word_ok ws \<Longrightarrow> length ws \<le> length (join ws) \<and> (\<forall>w \<in> set ws. length w \<le> length (join ws))"
  by (induction ws rule: induct_list012) (auto simp: join_simps word_ok_def Suc_le_eq)

text \<open>\<open>import_key\<close> and the saving of a mnemonic.\<close>

lemma import_key_result:
  assumes "cpu_ok c" "no_oom (w_heap w)" "fits_int (length pw)" "mnemonic_fits (normal_mnemonic words seed_password)"
    "get_public_key ed (take 32 (mnemonic_seed ''TON default seed'' 100000 (normal_mnemonic words seed_password))) = Inr pub"
  shows "\<exists>r w'. import_key c ed KeyValueInmemory w pw seed_password words = Some (r, w') \<and>
    (if mnemonic_seed ''TON seed version'' 390 (normal_mnemonic words seed_password) ! 0 = 0 then
       \<exists>key name e. r = Inr key \<and> public_key key = pub \<and> to_file_name c key = Some name \<and>
         map_of (w_files w') = (map_of (w_files w))(name \<mapsto> e)
     else
       w_files w' = w_files w \<and>
       r = Inl (if seed_password = [] \<and> mnemonic_seed ''TON fast seed version'' 1 (normal_mnemonic words seed_password) ! 0 = 1
                then Need_mnemonic_password else Invalid_mnemonic))"
proof -
  let ?m = "normal_mnemonic words seed_password"
  have create: "create_from_words words seed_password = Inr ?m"
    by (simp add: create_from_words_def mnemonic_create normal_mnemonic_def)
  obtain h1 where h1: "is_basic_seed (w_heap w) ?m = Some (mnemonic_seed ''TON seed version'' 390 ?m ! 0 = 0, h1)" "no_oom h1"
    by (rule is_basic_seed_result [OF assms(2,4)])
  show ?thesis
  proof (cases "mnemonic_seed ''TON seed version'' 390 ?m ! 0 = 0")
    case True
    obtain h2 where h2: "to_private_key h1 ?m = Some (take 32 (mnemonic_seed ''TON default seed'' 100000 ?m), h2)" "no_oom h2"
      by (rule to_private_key_result [OF h1(2) assms(4)])
    let ?k = "\<lparr>key_words = mnemonic_words ?m, private_key = take 32 (mnemonic_seed ''TON default seed'' 100000 ?m)\<rparr>"
    have "list_all word_ok (mnemonic_words ?m)"
      using normalize_and_split_words by (auto simp: normal_mnemonic_def list_all_iff)
    then have fits: "key_fits (raw_key ?k)"
      using length_join assms(4) by (fastforce simp: key_fits_def mnemonic_fits_def fits_int_def list_all_iff)
    have no: "no_oom (w_heap (w\<lparr>w_heap := h2\<rparr>))" and pub: "get_public_key ed (private_key ?k) = Inr pub"
      using h2(2) assms(5) by simp_all
    obtain key e w' where s: "save_key c ed KeyValueInmemory (w\<lparr>w_heap := h2\<rparr>) ?k pw = Some (Inr key, w')" "public_key key = pub"
      "map_of (w_files w') = (map_of (w_files (w\<lparr>w_heap := h2\<rparr>)))(file_name key \<mapsto> e)"
      by (rule inmemory_save_key [OF assms(1) no assms(3) fits pub])
    have "import_key c ed KeyValueInmemory w pw seed_password words = Some (Inr key, w')"
      using True create h1(1) h2(1) s(1) by (simp add: import_key_def)
    moreover have "map_of (w_files w') = (map_of (w_files w))(file_name key \<mapsto> e)"
      using s(3) by simp
    ultimately show ?thesis
      using True s(2) to_file_name_result [OF assms(1), of key] by auto
  next
    case False
    obtain h2 where "is_password_seed h1 ?m = Some (mnemonic_seed ''TON fast seed version'' 1 ?m ! 0 = 1, h2)"
      by (rule is_password_seed_result [OF h1(2) assms(4)])
    then show ?thesis
      using False create h1(1) by (cases "seed_password = []") (simp_all add: import_key_def)
  qed
qed

section \<open>Properties\<close>

text \<open>
  C35: a key that is saved under a password can be exported with the public key and the secret
  that \<open>save_key\<close> returns, and this password. The exported key is the saved one; it could be another
  one only if the file, read in the old encryption scheme that is tried first, happened to seal a
  second text, which means a collision of SHA-256.
\<close>

theorem saved_key_is_exported:
  assumes "cpu_ok c" "no_oom (w_heap w)" "no_oom h" "fits_int (length pw)" "key_small k"
    "get_public_key ed (private_key k) = Inr pub" "\<forall>e \<in> ran (map_of (w_files w)). length e < 2 ^ 31"
  shows "\<exists>key w1 name e k' w2. save_key c ed KeyValueInmemory w k pw = Some (Inr key, w1) \<and>
    public_key key = pub \<and> length (secret key) = 32 \<and>
    to_file_name c key = Some name \<and> inmemory_get name (w_files w1) = Inr e \<and>
    export_decrypted_key c ed KeyValueInmemory (w1\<lparr>w_heap := h\<rparr>) \<lparr>ik_key = key, ik_local_password = pw\<rparr> =
      Some (Inr k', w2) \<and>
    (k' = k \<or> (\<exists>x y. x \<noteq> y \<and> td_sha256 c x = td_sha256 c y \<and> td_sha256 c x = Some (take 32 e)))"
proof -
  obtain key e w1 where s: "save_key c ed KeyValueInmemory w k pw = Some (Inr key, w1)" "public_key key = pub"
    "protects (stored_key key e) pw k" "map_of (w_files w1) = (map_of (w_files w))(file_name key \<mapsto> e)"
    by (rule inmemory_save_key [OF assms(1,2,4) key_small_fits [OF assms(5)] assms(6)])
  have "length (secret key) = 32"
    using s(3) by (simp add: protects_def)
  let ?ik = "\<lparr>ik_key = key, ik_local_password = pw\<rparr>" and ?w = "w1\<lparr>w_heap := h\<rparr>"
  obtain k' where k': "exported ed (map_of (w_files w1)) ?ik = Inr k'" "k' = k \<or> two_texts e"
    using exported_protected [of "map_of (w_files w1)" ?ik e k ed] s(2,3,4) assms(6) by auto
  have "length e < 2 ^ 31"
    using protects_small [OF s(3) assms(5)] by simp
  then have "\<forall>e \<in> ran (map_of (w_files ?w)). length e < 2 ^ 31"
    using assms(7) s(4) by (auto simp: ran_def)
  then obtain w2 where "export_decrypted_key c ed KeyValueInmemory ?w ?ik = Some (Inr k', w2)"
    using inmemory_export [OF assms(1), of ?w ?ik ed] assms(3,4) k'(1) by auto
  moreover have "k' = k \<or> (\<exists>x y. x \<noteq> y \<and> td_sha256 c x = td_sha256 c y \<and> td_sha256 c x = Some (take 32 e))"
    using k'(2) two_texts_collision td_hashes(1) [OF assms(1)] by metis
  ultimately show ?thesis
    using s(1,2,4) \<open>length (secret key) = 32\<close> to_file_name_result [OF assms(1), of key] by (fastforce simp: inmemory_get_def)
qed


text \<open>A world to run the definitions on: plenty of memory, some random bytes, no files.\<close>

definition demo_world :: "inmemory world" where
  "demo_world = \<lparr>w_heap = [], w_rng = \<lambda>i. word_of_nat i, w_files = []\<rparr>"

definition demo_key :: DecryptedKey where
  "demo_key = \<lparr>key_words = [ascii ''abandon'', ascii ''ability''], private_key = replicate 32 7\<rparr>"

lemma demo_simps [simp]:
  "w_heap demo_world = []" "w_files demo_world = []" "w_rng demo_world = (\<lambda>i. word_of_nat i)"
  by (simp_all add: demo_world_def)

lemma demo_key_ok: "key_small demo_key" "get_public_key demo_ed25519 (private_key demo_key) = Inr (replicate 32 7)"
  by (code_simp, simp add: demo_key_def demo_ed25519_def demo_public_def)

lemma demo_saved:
  obtains w :: "inmemory world" and ik k where "no_oom (w_heap w)" "ik_local_password ik = [1]"
    "\<forall>e \<in> ran (map_of (w_files w)). length e < 2 ^ 31" "exported demo_ed25519 (map_of (w_files w)) ik = Inr k"
proof -
  have h: "no_oom (w_heap demo_world)" "fits_int (length [1 :: u8])"
    by (simp_all add: fits_int_def)
  obtain key e and w :: "inmemory world" where s: "no_oom (w_heap w)" "public_key key = replicate 32 7" "protects (stored_key key e) [1] demo_key"
    "map_of (w_files w) = (map_of (w_files demo_world))(file_name key \<mapsto> e)"
    by (rule inmemory_save_key [OF soft_cpu_ok h key_small_fits [OF demo_key_ok(1)] demo_key_ok(2)])
  then obtain k where "exported demo_ed25519 (map_of (w_files w)) \<lparr>ik_key = key, ik_local_password = [1]\<rparr> = Inr k"
    using exported_protected [of "map_of (w_files w)" "\<lparr>ik_key = key, ik_local_password = [1]\<rparr>" e demo_key demo_ed25519]
      demo_key_ok(2) by auto
  moreover have "\<forall>e \<in> ran (map_of (w_files w)). length e < 2 ^ 31"
    using protects_small [OF s(3) demo_key_ok(1)] s(4) by (auto simp: ran_def)
  ultimately show thesis
    using s(1) by (intro that) simp_all
qed

theorem saved_key_is_exported_witness:
  "\<exists>key w1 k' w2. save_key soft_cpu demo_ed25519 KeyValueInmemory demo_world demo_key [1] = Some (Inr key, w1) \<and>
    public_key key = replicate 32 7 \<and>
    export_decrypted_key soft_cpu demo_ed25519 KeyValueInmemory (w1\<lparr>w_heap := []\<rparr>) \<lparr>ik_key = key, ik_local_password = [1]\<rparr> =
      Some (Inr k', w2)"
  using saved_key_is_exported [OF soft_cpu_ok, of demo_world "[]" "[1]" demo_key demo_ed25519 "replicate 32 7"] demo_key_ok
  by (fastforce simp: fits_int_def)


text \<open>
  C39: \<open>delete_all_keys\<close> succeeds and removes exactly the files without an extension. The files
  of keys, of the new and of the old name, are among them, so that afterwards no key can be exported.
\<close>

theorem delete_all_keys_forgets:
  assumes "cpu_ok c"
  shows "\<exists>w'. delete_all_keys KeyValueInmemory w = (Inr (), w') \<and>
    map_of (w_files w') = map_of (w_files w) |` {n. path_extension n \<noteq> []} \<and>
    (\<forall>ik. \<exists>w''. export_decrypted_key c ed KeyValueInmemory w' ik = Some (Inl KeyUnknown_error, w''))"
proof -
  obtain w' where w': "delete_all_keys KeyValueInmemory w = (Inr (), w')"
    "map_of (w_files w') = map_of (w_files w) |` {n. path_extension n \<noteq> []}"
    by (rule inmemory_delete_all)
  have "\<exists>w''. export_decrypted_key c ed KeyValueInmemory w' ik = Some (Inl KeyUnknown_error, w'')" for ik
  proof -
    have "map_of (w_files w') (file_name (ik_key ik)) = None" "map_of (w_files w') (to_file_name_old (ik_key ik)) = None"
      using file_name_extension by (simp_all add: w'(2) restrict_map_def)
    then have "migrated (ik_key ik) (map_of (w_files w')) (file_name (ik_key ik)) = None"
      by (simp add: migrated_def)
    moreover obtain s where "map_of s = migrated (ik_key ik) (map_of (w_files w'))"
      "load_encrypted KeyValueInmemory w' (file_name (ik_key ik)) (to_file_name_old (ik_key ik)) =
        ((case map_of s (file_name (ik_key ik)) of None \<Rightarrow> Inl KeyUnknown_error | Some e \<Rightarrow> Inr e), w'\<lparr>w_files := s\<rparr>)"
      using inmemory.load_encrypted_result [OF refl refl, unfolded lookup_inmemory, of "ik_key ik" w'] by blast
    ultimately show ?thesis
      by (simp add: export_decrypted_key_def to_file_name_result [OF assms])
  qed
  with w' show ?thesis
    by blast
qed

theorem delete_all_keys_forgets_witness:
  "\<exists>w'. delete_all_keys KeyValueInmemory (demo_world\<lparr>w_files := [(ascii ''A1'', [1]), (ascii ''config.json'', [2])]\<rparr>) =
      (Inr (), w') \<and>
    map_of (w_files w') (ascii ''A1'') = None \<and> map_of (w_files w') (ascii ''config.json'') = Some [2]"
proof -
  have "path_extension (ascii ''A1'') = []" "path_extension (ascii ''config.json'') \<noteq> []"
    "ascii ''config.json'' \<noteq> ascii ''A1''"
    by code_simp+
  then show ?thesis
    using delete_all_keys_forgets [OF soft_cpu_ok,
      of "demo_world\<lparr>w_files := [(ascii ''A1'', [1]), (ascii ''config.json'', [2])]\<rparr>" demo_ed25519]
    by (auto simp: restrict_map_def)
qed



text \<open>
  C40: after \<open>change_local_password\<close> the key is saved under the new password, in a file of its own
  (unless the two names coincide), but the file of the old secret is still there, as \<open>export_decrypted_key\<close> left it: its name
  is computed, and never used. Whoever knows the old secret and the old password can still export the
  key (here, when its file has less than 2^31 bytes).
\<close>

theorem change_local_password_keeps_old_file:
  assumes "cpu_ok c" "no_oom (w_heap w)" "no_oom h" "fits_int (length (ik_local_password ik))" "fits_int (length new_password)"
    "\<forall>e \<in> ran (map_of (w_files w)). length e < 2 ^ 31"
  shows "\<exists>r w1. change_local_password c ed KeyValueInmemory w ik new_password = Some (r, w1) \<and>
    (\<forall>key. r = Inr key \<longrightarrow> to_file_name c key \<noteq> to_file_name c (ik_key ik) \<longrightarrow>
       (\<exists>name e. public_key key = public_key (ik_key ik) \<and>
          to_file_name c (ik_key ik) = Some name \<and> map_of (w_files w1) name = Some e \<and>
          ((\<forall>e \<in> ran (map_of (w_files w1)). length e < 2 ^ 31) \<longrightarrow>
             (\<exists>k w2. export_decrypted_key c ed KeyValueInmemory (w1\<lparr>w_heap := h\<rparr>) ik = Some (Inr k, w2) \<and>
                get_public_key ed (private_key k) = Inr (public_key (ik_key ik))))))"
proof -
  let ?m = "map_of (w_files w)" and ?key = "ik_key ik"
  obtain w' where w': "export_decrypted_key c ed KeyValueInmemory w ik = Some (exported ed ?m ik, w')" "no_oom (w_heap w')"
    and files: "map_of (w_files w') = migrated ?key ?m \<or> (\<exists>k e'. exported ed ?m ik = Inr k \<and>
      protects (stored_key ?key e') (ik_local_password ik) k \<and> map_of (w_files w') = (migrated ?key ?m)(file_name ?key \<mapsto> e'))"
    by (rule inmemory_export [OF assms(1,2,4,6)])
  show ?thesis
  proof (cases "exported ed ?m ik")
    case (Inl x)
    then show ?thesis
      using w' by (simp add: change_local_password_def to_file_name_result [OF assms(1)])
  next
    case (Inr k)
    note pub = exported_public [OF Inr]
    obtain key e w1 where s: "save_key c ed KeyValueInmemory w' k new_password = Some (Inr key, w1)" "public_key key = public_key ?key"
      "map_of (w_files w1) = (map_of (w_files w'))(file_name key \<mapsto> e)"
      by (rule inmemory_save [OF assms(1) w'(2) assms(5) exported_fits [OF Inr assms(6)] pub])
    have old: "\<exists>e' k'. map_of (w_files w1) (file_name ?key) = Some e' \<and> exported ed (map_of (w_files w1)) ik = Inr k'"
      if "file_name key \<noteq> file_name ?key"
      using files
    proof (elim disjE exE conjE)
      assume m: "map_of (w_files w') = migrated ?key ?m"
      obtain e' where "migrated ?key ?m (file_name ?key) = Some e'"
        using Inr by (auto simp: exported_def split: option.splits)
      then show ?thesis
        using Inr that s(3) m by (auto simp: exported_def migrated_def)
    next
      fix k' e' assume m: "exported ed ?m ik = Inr k'" "protects (stored_key ?key e') (ik_local_password ik) k'"
        "map_of (w_files w') = (migrated ?key ?m)(file_name ?key \<mapsto> e')"
      then have "map_of (w_files w1) (file_name ?key) = Some e'"
        using that s(3) by simp
      with exported_protected [of "map_of (w_files w1)" ik e' k' ed] m(1,2) Inr pub show ?thesis
        by auto
    qed
    have "\<exists>e'. map_of (w_files w1) (file_name ?key) = Some e' \<and>
        ((\<forall>e \<in> ran (map_of (w_files w1)). length e < 2 ^ 31) \<longrightarrow>
          (\<exists>k w2. export_decrypted_key c ed KeyValueInmemory (w1\<lparr>w_heap := h\<rparr>) ik = Some (Inr k, w2) \<and>
             get_public_key ed (private_key k) = Inr (public_key ?key)))"
      if ne: "file_name key \<noteq> file_name ?key"
    proof -
      obtain e' k' where k': "map_of (w_files w1) (file_name ?key) = Some e'" "exported ed (map_of (w_files w1)) ik = Inr k'"
        using old [OF ne] by blast
      have h: "no_oom (w_heap (w1\<lparr>w_heap := h\<rparr>))"
        using assms(3) by simp
      have "\<exists>w2. export_decrypted_key c ed KeyValueInmemory (w1\<lparr>w_heap := h\<rparr>) ik = Some (Inr k', w2)"
        if "\<forall>e \<in> ran (map_of (w_files (w1\<lparr>w_heap := h\<rparr>))). length e < 2 ^ 31"
        by (rule inmemory_export [OF assms(1) h assms(4) that, of ed]) (use k'(2) in auto)
      then show ?thesis
        using k'(1) exported_public [OF k'(2)] by auto
    qed
    then show ?thesis
      using Inr w' s(1,2) by (auto simp: change_local_password_def to_file_name_result [OF assms(1)])
  qed
qed

theorem change_local_password_keeps_old_file_witness:
  "\<exists>w ik key w1. change_local_password soft_cpu demo_ed25519 KeyValueInmemory w ik [2] = Some (Inr key, w1) \<and>
    (to_file_name soft_cpu key \<noteq> to_file_name soft_cpu (ik_key ik) \<longrightarrow>
      (\<exists>name. to_file_name soft_cpu (ik_key ik) = Some name \<and> map_of (w_files w1) name \<noteq> None))"
proof -
  obtain w :: "inmemory world" and ik k where w: "no_oom (w_heap w)" "ik_local_password ik = [1]"
    "\<forall>e \<in> ran (map_of (w_files w)). length e < 2 ^ 31" "exported demo_ed25519 (map_of (w_files w)) ik = Inr k"
    by (rule demo_saved)
  have h: "no_oom []" "fits_int (length (ik_local_password ik))" "fits_int (length [2 :: u8])"
    using w(2) by (simp_all add: fits_int_def)
  obtain w' where w': "export_decrypted_key soft_cpu demo_ed25519 KeyValueInmemory w ik = Some (Inr k, w')" "no_oom (w_heap w')"
    using inmemory_export [OF soft_cpu_ok w(1) h(2) w(3), of demo_ed25519] w(4) by metis
  obtain key w1 where "save_key soft_cpu demo_ed25519 KeyValueInmemory w' k [2] = Some (Inr key, w1)"
    by (rule inmemory_save [OF soft_cpu_ok w'(2) h(3) exported_fits [OF w(4,3)] exported_public [OF w(4)]])
  then have change: "change_local_password soft_cpu demo_ed25519 KeyValueInmemory w ik [2] = Some (Inr key, w1)"
    using w'(1) by (simp add: change_local_password_def to_file_name_result [OF soft_cpu_ok])
  then have "to_file_name soft_cpu key \<noteq> to_file_name soft_cpu (ik_key ik) \<longrightarrow>
      (\<exists>name. to_file_name soft_cpu (ik_key ik) = Some name \<and> map_of (w_files w1) name \<noteq> None)"
    using change_local_password_keeps_old_file [OF soft_cpu_ok w(1) h(1,2,3) w(3), of demo_ed25519] by auto
  with change show ?thesis
    by blast
qed





end
