(* ===== verification/Base64.thy ===== *)
theory Base64
  imports Text
begin

text \<open>
  \<open>td/utils/base64.cpp\<close>: the codes of binary data as text, in base 32, in base 64 and in the base 64 of
  URLs. The variables \<open>c\<close> have 32 bits; those of type \<open>int\<close> stay below \<open>2^24\<close>. A locale states what the
  proofs need of an alphabet of 64 characters; it is interpreted with both alphabets of the file.
\<close>

section \<open>Base 32\<close>

definition symbols32_lc :: bytes where
  "symbols32_lc = ascii ''abcdefghijklmnopqrstuvwxyz234567''"

definition symbols32_uc :: bytes where
  "symbols32_uc = ascii ''ABCDEFGHIJKLMNOPQRSTUVWXYZ234567''"

text \<open>The inner loop writes a character as long as five bits are left.\<close>

fun base32_emit :: "bytes \<Rightarrow> u32 \<Rightarrow> nat \<Rightarrow> bytes \<times> nat" where
  "base32_emit symbols32 c len =
     (if len \<ge> 5 then
        let (out, rest) = base32_emit symbols32 c (len - 5)
        in (symbols32 ! unat (drop_bit (len - 5) c AND 31) # out, rest)
      else ([], len))"

declare base32_emit.simps [simp del]

primrec base32_encode_loop :: "bytes \<Rightarrow> bytes \<Rightarrow> u32 \<Rightarrow> nat \<Rightarrow> bytes" where
  "base32_encode_loop symbols32 [] c len =
     (if len \<noteq> 0 then [symbols32 ! unat (push_bit (5 - len) c AND 31)] else [])"
| "base32_encode_loop symbols32 (x # input) c len =
     (let c = push_bit 8 c OR ucast x;
          (out, len) = base32_emit symbols32 c (len + 8)
      in out @ base32_encode_loop symbols32 input c len)"

definition base32_encode :: "bytes \<Rightarrow> bool \<Rightarrow> bytes" where
  "base32_encode input upper_case =
     base32_encode_loop (if upper_case then symbols32_uc else symbols32_lc) input 0 0"

definition b32_char_to_value :: "nat list" where
  "b32_char_to_value =
     fold (\<lambda>i t. t [unat (symbols32_lc ! i) := i, unat (symbols32_uc ! i) := i]) [0..<32] (replicate 256 32)"

fun base32_take :: "u32 \<Rightarrow> nat \<Rightarrow> bytes \<times> nat" where
  "base32_take c len =
     (if len \<ge> 8 then
        let (out, rest) = base32_take c (len - 8)
        in (ucast (drop_bit (len - 8) c AND 255) # out, rest)
      else ([], len))"

declare base32_take.simps [simp del]

primrec base32_decode_loop :: "bytes \<Rightarrow> u32 \<Rightarrow> nat \<Rightarrow> bytes text_result" where
  "base32_decode_loop [] c len =
     (if c AND (push_bit len 1 - 1) \<noteq> 0 then Inl Nonzero_padding else Inr [])"
| "base32_decode_loop (x # base32) c len =
     (let value = b32_char_to_value ! unat x in
      if value = 32 then Inl Wrong_character
      else let c = push_bit 5 c OR word_of_nat value;
               (out, len) = base32_take c (len + 5)
           in case base32_decode_loop base32 c len of Inl e \<Rightarrow> Inl e | Inr res \<Rightarrow> Inr (out @ res))"

definition base32_decode :: "bytes \<Rightarrow> bytes text_result" where
  "base32_decode base32 = base32_decode_loop base32 0 0"

section \<open>Base 64\<close>

definition symbols64 :: bytes where
  "symbols64 = ascii ''ABCDEFGHIJKLMNOPQRSTUVWXYZabcdefghijklmnopqrstuvwxyz0123456789+/''"

definition url_symbols64 :: bytes where
  "url_symbols64 = ascii ''ABCDEFGHIJKLMNOPQRSTUVWXYZabcdefghijklmnopqrstuvwxyz0123456789-_''"

text \<open>
  One round of the loops of \<open>base64_encode\<close> and \<open>base64url_encode\<close>, for the one to three bytes that
  are left; the second function differs in its alphabet and in that it writes no padding.
\<close>

definition base64_encode_round :: "bytes \<Rightarrow> bool \<Rightarrow> bytes \<Rightarrow> bytes" where
  "base64_encode_round symbols pad input =
     (let left = min (length input) 3;
          c = push_bit 16 (ucast (input ! 0)) :: u32;
          s0 = [symbols ! unat (drop_bit 18 c)];
          c = (if left \<noteq> 1 then c OR push_bit 8 (ucast (input ! 1)) else c);
          s1 = [symbols ! unat (drop_bit 12 c AND 63)];
          c = (if left = 3 then c OR ucast (input ! 2) else c);
          s2 = (if left \<noteq> 1 then [symbols ! unat (drop_bit 6 c AND 63)] else if pad then [0x3d] else []);
          s3 = (if left = 3 then [symbols ! unat (c AND 63)] else if pad then [0x3d] else [])
      in s0 @ s1 @ s2 @ s3)"

function base64_encode_loop :: "bytes \<Rightarrow> bool \<Rightarrow> bytes \<Rightarrow> bytes" where
  "base64_encode_loop symbols pad input =
     (if input = [] then []
      else base64_encode_round symbols pad input @ base64_encode_loop symbols pad (drop (min (length input) 3) input))"
  by pat_completeness auto
termination
  by (relation "measure (\<lambda>(_, _, input). length input)") auto

declare base64_encode_loop.simps [simp del]

definition base64_encode :: "bytes \<Rightarrow> bytes" where
  "base64_encode input = base64_encode_loop symbols64 True input"

definition base64url_encode :: "bytes \<Rightarrow> bytes" where
  "base64url_encode input = base64_encode_loop url_symbols64 False input"

definition init_base64_table :: "bytes \<Rightarrow> nat list" where
  "init_base64_table symbols = fold (\<lambda>i t. t [unat (symbols ! i) := i]) [0..<64] (replicate 256 64)"

text \<open>Dropping the padding: the bytes before the \<open>=\<close> at the end, and the number of them.\<close>

definition drop_equals :: "bytes \<Rightarrow> bytes \<times> nat" where
  "drop_equals base64 =
     (let padding_length = length (takeWhile (\<lambda>c. c = 0x3d) (rev base64))
      in (take (length base64 - padding_length) base64, padding_length))"

definition base64_drop_padding :: "bytes \<Rightarrow> bytes text_result" where
  "base64_drop_padding base64 =
     (if length base64 mod 4 \<noteq> 0 then Inl Wrong_string_length
      else let (base64, padding_length) = drop_equals base64
           in if padding_length \<ge> 3 then Inl Wrong_string_padding else Inr base64)"

text \<open>The loop over the at most four characters of a round; \<open>t\<close> is its counter.\<close>

primrec round_value :: "nat list \<Rightarrow> bytes \<Rightarrow> nat \<Rightarrow> u32 \<Rightarrow> u32 option" where
  "round_value table [] t c = Some c"
| "round_value table (x # chars) t c =
     (let value = table ! unat x in
      if value = 64 then None
      else round_value table chars (t + 1) (c OR push_bit ((3 - t) * 6) (word_of_nat value)))"

function base64_do_decode :: "nat list \<Rightarrow> bytes \<Rightarrow> bytes text_result" where
  "base64_do_decode table base64 =
     (if base64 = [] then Inr []
      else let left = min (length base64) 4 in
        case round_value table (take left base64) 0 0 of
          None \<Rightarrow> Inl Wrong_character
        | Some c \<Rightarrow>
            if left = 2 \<and> c AND (push_bit 16 1 - 1) \<noteq> 0 then Inl Wrong_string_padding
            else if left = 3 \<and> c AND (push_bit 8 1 - 1) \<noteq> 0 then Inl Wrong_string_padding
            else let out = [ucast (drop_bit 16 c)] @
                   (if left = 2 then [] else [ucast (drop_bit 8 c)] @ (if left = 3 then [] else [ucast c]))
                 in case base64_do_decode table (drop left base64) of Inl e \<Rightarrow> Inl e | Inr res \<Rightarrow> Inr (out @ res))"
  by pat_completeness auto
termination
  by (relation "measure (\<lambda>(_, base64). length base64)") auto

declare base64_do_decode.simps [simp del]

definition base64_decode :: "bytes \<Rightarrow> bytes text_result" where
  "base64_decode base64 =
     (case base64_drop_padding base64 of
        Inl e \<Rightarrow> Inl e
      | Inr base64 \<Rightarrow> base64_do_decode (init_base64_table symbols64) base64)"

text \<open>
  The secure version writes through a pointer into a buffer of \<open>(n + 3) / 4 * 3\<close> bytes and then keeps
  what was written.
\<close>

definition base64_decode_secure :: "bytes \<Rightarrow> bytes text_result" where
  "base64_decode_secure base64 =
     (case base64_drop_padding base64 of
        Inl e \<Rightarrow> Inl e
      | Inr base64 \<Rightarrow>
          let output = replicate (((length base64 + 3) div 4) * 3) 0 in
          case base64_do_decode (init_base64_table symbols64) base64 of
            Inl e \<Rightarrow> Inl e
          | Inr written \<Rightarrow> Inr (take (length written) (memcpy_at output 0 written)))"

definition base64url_decode :: "bytes \<Rightarrow> bytes text_result" where
  "base64url_decode base64 =
     (let (base64, padding_length) = drop_equals base64 in
      if padding_length \<ge> 3 \<or> (padding_length > 0 \<and> (length base64 + padding_length) mod 4 \<noteq> 0)
      then Inl Wrong_string_padding
      else if length base64 mod 4 = 1 then Inl Wrong_string_length
      else base64_do_decode (init_base64_table url_symbols64) base64)"

definition is_base64_impl :: "bool \<Rightarrow> bytes \<Rightarrow> bool" where
  "is_base64_impl is_url input =
     (let (input, padding_length) = drop_equals input;
          table = init_base64_table (if is_url then url_symbols64 else symbols64)
      in if padding_length \<ge> 3 then False
         else if (\<not> is_url \<or> padding_length > 0) \<and> (length input + padding_length) mod 4 \<noteq> 0 then False
         else if is_url \<and> length input mod 4 = 1 then False
         else if \<not> list_all (\<lambda>c. table ! unat c \<noteq> 64) input then False
         else if length input mod 4 = 2 \<and> table ! unat (last input) AND 15 \<noteq> 0 then False
         else if length input mod 4 = 3 \<and> table ! unat (last input) AND 3 \<noteq> 0 then False
         else True)"

definition is_base64 :: "bytes \<Rightarrow> bool" where
  "is_base64 input = is_base64_impl False input"

definition is_base64url :: "bytes \<Rightarrow> bool" where
  "is_base64url input = is_base64_impl True input"

definition base64_filter :: "bytes \<Rightarrow> bytes" where
  "base64_filter input = filter (\<lambda>c. init_base64_table symbols64 ! unat c \<noteq> 64 \<or> c = 0x3d) input"

section \<open>The words of a round\<close>

text \<open>Four values of six bits and three bytes are the same 24 bits.\<close>

definition join_values :: "u32 \<Rightarrow> u32 \<Rightarrow> u32 \<Rightarrow> u32 \<Rightarrow> u32" where
  "join_values v0 v1 v2 v3 = push_bit 18 v0 OR push_bit 12 v1 OR push_bit 6 v2 OR v3"

definition join_bytes :: "u8 \<Rightarrow> u8 \<Rightarrow> u8 \<Rightarrow> u32" where
  "join_bytes a b d = push_bit 16 (ucast a) OR push_bit 8 (ucast b) OR ucast d"

lemma and_63: "x AND 63 = take_bit 6 x" for x :: u32
  by (simp add: take_bit_eq_mask mask_eq_exp_minus_1)

lemma six_bits: "v < 64 \<longleftrightarrow> take_bit 6 v = v" for v :: u32
proof
  assume "v < 64"
  then show "take_bit 6 v = v"
    by (intro unsigned_word_eqI [where 'a = nat]) (simp add: unsigned_take_bit_eq take_bit_nat_eq_self word_less_nat_alt)
next
  assume "take_bit 6 v = v"
  then have "unat v = take_bit 6 (unat v)"
    by (metis unsigned_take_bit_eq)
  then show "v < 64"
    using take_bit_nat_less_exp [of 6 "unat v"] by (simp add: word_less_nat_alt)
qed

lemma split_values:
  assumes "v0 < 64" "v1 < 64" "v2 < 64" "v3 < 64"
  shows "drop_bit 18 (join_values v0 v1 v2 v3) = v0"
    "drop_bit 12 (join_values v0 v1 v2 v3) AND 63 = v1"
    "drop_bit 6 (join_values v0 v1 v2 v3) AND 63 = v2"
    "join_values v0 v1 v2 v3 AND 63 = v3"
    "take_bit 24 (join_values v0 v1 v2 v3) = join_values v0 v1 v2 v3"
proof -
  have "drop_bit 18 (join_values (take_bit 6 v0) (take_bit 6 v1) (take_bit 6 v2) (take_bit 6 v3)) = take_bit 6 v0"
    by (rule bit_word_eqI) (auto simp: join_values_def bit_simps)
  moreover have "drop_bit 12 (join_values (take_bit 6 v0) (take_bit 6 v1) (take_bit 6 v2) (take_bit 6 v3)) AND 63 = take_bit 6 v1"
    by (rule bit_word_eqI) (auto simp: join_values_def and_63 bit_simps)
  moreover have "drop_bit 6 (join_values (take_bit 6 v0) (take_bit 6 v1) (take_bit 6 v2) (take_bit 6 v3)) AND 63 = take_bit 6 v2"
    by (rule bit_word_eqI) (auto simp: join_values_def and_63 bit_simps)
  moreover have "join_values (take_bit 6 v0) (take_bit 6 v1) (take_bit 6 v2) (take_bit 6 v3) AND 63 = take_bit 6 v3"
    by (rule bit_word_eqI) (auto simp: join_values_def and_63 bit_simps)
  moreover have "take_bit 24 (join_values (take_bit 6 v0) (take_bit 6 v1) (take_bit 6 v2) (take_bit 6 v3)) =
      join_values (take_bit 6 v0) (take_bit 6 v1) (take_bit 6 v2) (take_bit 6 v3)"
    by (rule bit_word_eqI) (auto simp: join_values_def bit_simps)
  ultimately show "drop_bit 18 (join_values v0 v1 v2 v3) = v0"
    "drop_bit 12 (join_values v0 v1 v2 v3) AND 63 = v1"
    "drop_bit 6 (join_values v0 v1 v2 v3) AND 63 = v2"
    "join_values v0 v1 v2 v3 AND 63 = v3"
    "take_bit 24 (join_values v0 v1 v2 v3) = join_values v0 v1 v2 v3"
    using assms by (simp_all add: six_bits)
qed

lemma values_of:
  assumes "take_bit 24 c = c"
  shows "join_values (drop_bit 18 c) (drop_bit 12 c AND 63) (drop_bit 6 c AND 63) (c AND 63) = c"
    and "drop_bit 18 c < 64" "drop_bit 12 c AND 63 < 64" "drop_bit 6 c AND 63 < 64" "c AND 63 < 64"
proof -
  have "join_values (drop_bit 18 (take_bit 24 c)) (drop_bit 12 c AND 63) (drop_bit 6 c AND 63) (c AND 63) = take_bit 24 c"
  proof (rule bit_word_eqI)
    fix n :: nat
    consider "n < 6" | "6 \<le> n" "n < 12" | "12 \<le> n" "n < 18" | "18 \<le> n" by linarith
    then show "bit (join_values (drop_bit 18 (take_bit 24 c)) (drop_bit 12 c AND 63) (drop_bit 6 c AND 63) (c AND 63)) n =
        bit (take_bit 24 c) n"
      by cases (auto simp: join_values_def and_63 bit_simps)
  qed
  moreover have "take_bit 6 (drop_bit 18 (take_bit 24 c)) = drop_bit 18 (take_bit 24 c)"
    by (rule bit_word_eqI) (auto simp: bit_simps)
  ultimately show "join_values (drop_bit 18 c) (drop_bit 12 c AND 63) (drop_bit 6 c AND 63) (c AND 63) = c"
      "drop_bit 18 c < 64" "drop_bit 12 c AND 63 < 64" "drop_bit 6 c AND 63 < 64" "c AND 63 < 64"
    by (simp_all add: assms six_bits and_63)
qed

lemma split_bytes:
  "ucast (drop_bit 16 (join_bytes a b d)) = a" "ucast (drop_bit 8 (join_bytes a b d)) = b"
  "ucast (join_bytes a b d) = d" "take_bit 24 (join_bytes a b d) = join_bytes a b d"
  by (auto simp: join_bytes_def bit_simps intro!: bit_word_eqI dest: bit_u8_less)

lemma bytes_of:
  assumes "take_bit 24 c = c"
  shows "join_bytes (ucast (drop_bit 16 c)) (ucast (drop_bit 8 c)) (ucast c) = c"
proof -
  have "join_bytes (ucast (drop_bit 16 (take_bit 24 c))) (ucast (drop_bit 8 c)) (ucast c) = take_bit 24 c"
  proof (rule bit_word_eqI)
    fix n :: nat
    consider "n < 8" | "8 \<le> n" "n < 16" | "16 \<le> n" by linarith
    then show "bit (join_bytes (ucast (drop_bit 16 (take_bit 24 c))) (ucast (drop_bit 8 c)) (ucast c)) n = bit (take_bit 24 c) n"
      by cases (auto simp: join_bytes_def bit_simps)
  qed
  then show ?thesis
    by (simp add: assms)
qed

section \<open>An alphabet\<close>

lemma join_values_0: "join_values v0 v1 0 0 = push_bit 18 v0 OR push_bit 12 v1" "join_values v0 v1 v2 0 = push_bit 18 v0 OR push_bit 12 v1 OR push_bit 6 v2"
  by (simp_all add: join_values_def)

lemma unat_numeral_64: "unat (64 :: u32) = 64"
  by simp

lemma low_bits: "c AND 255 = take_bit 8 c" "c AND 65535 = take_bit 16 c" for c :: u32
  by (simp_all add: take_bit_eq_mask mask_eq_exp_minus_1)

locale alphabet =
  fixes symbols :: bytes
  assumes length_symbols: "length symbols = 64"
    and distinct_symbols: "distinct symbols"
    and no_equals: "0x3d \<notin> set symbols"
begin

abbreviation "table \<equiv> init_base64_table symbols"

lemma table_prefix:
  "n \<le> 64 \<Longrightarrow> let t = fold (\<lambda>i t. t [unat (symbols ! i) := i]) [0..<n] (replicate 256 64) in
    length t = 256 \<and> (\<forall>i<n. t ! unat (symbols ! i) = i) \<and> (\<forall>c. c \<notin> set (take n symbols) \<longrightarrow> t ! unat c = 64)"
proof (induction n)
  case (Suc n)
  define t where "t = fold (\<lambda>i t. t [unat (symbols ! i) := i]) [0..<n] (replicate 256 64)"
  have t: "length t = 256" "\<And>i. i < n \<Longrightarrow> t ! unat (symbols ! i) = i" "\<And>c. c \<notin> set (take n symbols) \<Longrightarrow> t ! unat c = 64"
    using Suc by (simp_all add: t_def Let_def)
  have "symbols ! n \<noteq> symbols ! i" if "i < n" for i
    using that Suc.prems distinct_symbols length_symbols by (simp add: nth_eq_iff_index_eq)
  moreover have "take (Suc n) symbols = take n symbols @ [symbols ! n]"
    using Suc.prems length_symbols by (simp add: take_Suc_conv_app_nth)
  ultimately show ?case
    using t by (auto simp: Let_def t_def [symmetric] nth_list_update less_Suc_eq simp flip: word_unat_eq_iff)
qed simp

lemma table_symbol [simp]: "i < 64 \<Longrightarrow> table ! unat (symbols ! i) = i"
  using table_prefix [of 64] by (simp add: init_base64_table_def Let_def)

lemma table_other [simp]: "c \<notin> set symbols \<Longrightarrow> table ! unat c = 64"
  using table_prefix [of 64] length_symbols by (simp add: init_base64_table_def Let_def)

text \<open>A character of the alphabet and its value.\<close>

definition char_of :: "u32 \<Rightarrow> u8" where
  "char_of v = symbols ! unat v"

lemma char_of_cases:
  assumes "table ! unat x \<noteq> 64"
  obtains v where "x = char_of v" "v < 64" "word_of_nat (table ! unat x) = v"
proof -
  have "x \<in> set symbols"
    using assms table_other by blast
  then obtain i where i: "i < 64" "x = symbols ! i"
    using length_symbols by (auto simp: in_set_conv_nth)
  then have "unat (word_of_nat i :: u32) = i"
    by (simp add: unat_of_nat)
  with i show ?thesis
    by (intro that [of "word_of_nat i"]) (simp_all add: char_of_def word_less_nat_alt)
qed

lemma char_of_value [simp]: "v < 64 \<Longrightarrow> table ! unat (char_of v) = unat v"
  by (simp add: char_of_def word_less_nat_alt)

lemma char_of_not_64 [simp]: "v < 64 \<Longrightarrow> unat v \<noteq> 64" for v :: u32
  by (auto simp: word_less_nat_alt)

lemma char_of_not_equals: "v < 64 \<Longrightarrow> char_of v \<noteq> 0x3d"
  using no_equals length_symbols nth_mem [of "unat v" symbols] by (metis char_of_def word_less_nat_alt unat_numeral_64)

lemma round_value_chars:
  assumes "v0 < 64" "v1 < 64" "v2 < 64" "v3 < 64"
  shows "round_value table [char_of v0, char_of v1, char_of v2, char_of v3] 0 0 = Some (join_values v0 v1 v2 v3)"
    "round_value table [char_of v0, char_of v1, char_of v2] 0 0 = Some (join_values v0 v1 v2 0)"
    "round_value table [char_of v0, char_of v1] 0 0 = Some (join_values v0 v1 0 0)"
  using assms by (simp_all add: join_values_def Let_def or.assoc)

text \<open>One round of the encoder, by the number of bytes left.\<close>

lemma encode_round:
  fixes a b d :: u8
  defines "c1 \<equiv> join_bytes a 0 0" and "c2 \<equiv> join_bytes a b 0" and "c3 \<equiv> join_bytes a b d"
  shows "base64_encode_round symbols False [a] = [char_of (drop_bit 18 c1), char_of (drop_bit 12 c1 AND 63)]"
    "base64_encode_round symbols False [a, b] =
      [char_of (drop_bit 18 c2), char_of (drop_bit 12 c2 AND 63), char_of (drop_bit 6 c2 AND 63)]"
    "base64_encode_round symbols False (a # b # d # r) =
      [char_of (drop_bit 18 c3), char_of (drop_bit 12 c3 AND 63), char_of (drop_bit 6 c3 AND 63), char_of (c3 AND 63)]"
proof -
  have a: "drop_bit 18 (push_bit 16 (ucast a)) = drop_bit 18 (join_bytes a e f)" for e f
    by (rule bit_word_eqI) (auto simp: join_bytes_def bit_simps dest: bit_u8_less)
  have b: "drop_bit 12 (push_bit 16 (ucast a) OR push_bit 8 (ucast b)) AND 63 = drop_bit 12 (join_bytes a b f) AND 63" for f
    by (rule bit_word_eqI) (auto simp: join_bytes_def bit_simps dest: bit_u8_less)
  show "base64_encode_round symbols False [a] = [char_of (drop_bit 18 c1), char_of (drop_bit 12 c1 AND 63)]"
    "base64_encode_round symbols False [a, b] =
      [char_of (drop_bit 18 c2), char_of (drop_bit 12 c2 AND 63), char_of (drop_bit 6 c2 AND 63)]"
    "base64_encode_round symbols False (a # b # d # r) =
      [char_of (drop_bit 18 c3), char_of (drop_bit 12 c3 AND 63), char_of (drop_bit 6 c3 AND 63), char_of (c3 AND 63)]"
    using a b unfolding c1_def c2_def c3_def
    by (simp_all add: base64_encode_round_def char_of_def Let_def) (simp_all add: join_bytes_def or.assoc)
qed

text \<open>What the last values are when the low bits are zero.\<close>

lemma low_zero:
  assumes "take_bit 24 c = c"
  shows "take_bit 8 c = 0 \<Longrightarrow> join_values (drop_bit 18 c) (drop_bit 12 c AND 63) (drop_bit 6 c AND 63) 0 = c"
    and "take_bit 16 c = 0 \<Longrightarrow> join_values (drop_bit 18 c) (drop_bit 12 c AND 63) 0 0 = c"
proof -
  have "c AND 63 = take_bit 6 (take_bit 8 c)"
    by (simp add: and_63 take_bit_take_bit)
  then have 8: "c AND 63 = 0" if "take_bit 8 c = 0"
    using that by simp
  then show "take_bit 8 c = 0 \<Longrightarrow> join_values (drop_bit 18 c) (drop_bit 12 c AND 63) (drop_bit 6 c AND 63) 0 = c"
    using values_of(1) [OF assms] by simp
  show "join_values (drop_bit 18 c) (drop_bit 12 c AND 63) 0 0 = c" if "take_bit 16 c = 0"
  proof -
    have "take_bit 8 c = take_bit 8 (take_bit 16 c)"
      by (simp add: take_bit_take_bit)
    moreover have "drop_bit 6 c AND 63 = drop_bit 6 (take_bit 16 c) AND 63"
      by (rule bit_word_eqI) (auto simp: and_63 bit_simps)
    ultimately show ?thesis
      using 8 values_of(1) [OF assms] that by simp
  qed
qed

lemma high_bytes:
  fixes c :: u32
  shows "take_bit 8 c = 0 \<Longrightarrow> (ucast c :: u8) = 0"
    and "take_bit 16 c = 0 \<Longrightarrow> (ucast c :: u8) = 0" "take_bit 16 c = 0 \<Longrightarrow> (ucast (drop_bit 8 c) :: u8) = 0"
proof -
  have "(ucast c :: u8) = ucast (take_bit 8 c)" "(ucast c :: u8) = ucast (take_bit 16 c)"
      "(ucast (drop_bit 8 c) :: u8) = ucast (drop_bit 8 (take_bit 16 c))"
    by (auto simp: bit_simps intro!: bit_word_eqI)
  then show "take_bit 8 c = 0 \<Longrightarrow> (ucast c :: u8) = 0" "take_bit 16 c = 0 \<Longrightarrow> (ucast c :: u8) = 0"
      "take_bit 16 c = 0 \<Longrightarrow> (ucast (drop_bit 8 c) :: u8) = 0"
    by simp_all
qed

lemma zero_bytes: "take_bit 16 (join_bytes a 0 0) = 0" "take_bit 8 (join_bytes a b 0) = 0"
  by (auto simp: join_bytes_def bit_simps intro!: bit_word_eqI)

text \<open>A round of the decoder on four, three, two and one characters.\<close>

lemma decode_round:
  assumes "v0 < 64" "v1 < 64" "v2 < 64" "v3 < 64"
  shows "base64_do_decode table (char_of v0 # char_of v1 # char_of v2 # char_of v3 # r) =
      (case base64_do_decode table r of Inl e \<Rightarrow> Inl e
       | Inr res \<Rightarrow> let c = join_values v0 v1 v2 v3 in Inr (ucast (drop_bit 16 c) # ucast (drop_bit 8 c) # ucast c # res))"
    "base64_do_decode table [char_of v0, char_of v1, char_of v2] =
      (let c = join_values v0 v1 v2 0 in
       if take_bit 8 c \<noteq> 0 then Inl Wrong_string_padding else Inr [ucast (drop_bit 16 c), ucast (drop_bit 8 c)])"
    "base64_do_decode table [char_of v0, char_of v1] =
      (let c = join_values v0 v1 0 0 in
       if take_bit 16 c \<noteq> 0 then Inl Wrong_string_padding else Inr [ucast (drop_bit 16 c)])"
proof -
  note r = round_value_chars [OF assms]
  show "base64_do_decode table (char_of v0 # char_of v1 # char_of v2 # char_of v3 # r) =
      (case base64_do_decode table r of Inl e \<Rightarrow> Inl e
       | Inr res \<Rightarrow> let c = join_values v0 v1 v2 v3 in Inr (ucast (drop_bit 16 c) # ucast (drop_bit 8 c) # ucast c # res))"
    by (subst base64_do_decode.simps) (simp add: r(1) Let_def del: round_value.simps split: sum.split)
  show "base64_do_decode table [char_of v0, char_of v1, char_of v2] =
      (let c = join_values v0 v1 v2 0 in
       if take_bit 8 c \<noteq> 0 then Inl Wrong_string_padding else Inr [ucast (drop_bit 16 c), ucast (drop_bit 8 c)])"
    by (subst base64_do_decode.simps) (simp add: r(2) Let_def low_bits base64_do_decode.simps [of _ "[]"] del: round_value.simps)
  show "base64_do_decode table [char_of v0, char_of v1] =
      (let c = join_values v0 v1 0 0 in
       if take_bit 16 c \<noteq> 0 then Inl Wrong_string_padding else Inr [ucast (drop_bit 16 c)])"
    by (subst base64_do_decode.simps) (simp add: r(3) Let_def low_bits base64_do_decode.simps [of _ "[]"] del: round_value.simps)
qed

lemma encode_steps:
  "base64_encode_loop symbols False [] = []"
  "base64_encode_loop symbols False [a] = base64_encode_round symbols False [a]"
  "base64_encode_loop symbols False [a, b] = base64_encode_round symbols False [a, b]"
  "base64_encode_loop symbols False (a # b # d # r) =
    base64_encode_round symbols False (a # b # d # r) @ base64_encode_loop symbols False r"
  by (simp_all add: base64_encode_loop.simps [of _ _ "[]"] base64_encode_loop.simps [of _ _ "_ # _"])

lemma decode_encode: "base64_do_decode table (base64_encode_loop symbols False input) = Inr input"
proof (induction "length input" arbitrary: input rule: less_induct)
  case less
  consider "input = []" | a where "input = [a]" | a b where "input = [a, b]" | a b d r where "input = a # b # d # r"
    by (metis list.exhaust)
  then show ?case
  proof cases
    case 1
    then show ?thesis
      by (simp add: encode_steps base64_do_decode.simps)
  next
    case (2 a)
    have c: "take_bit 24 (join_bytes a 0 0) = join_bytes a 0 0"
      by (simp add: split_bytes)
    show ?thesis
      using 2 by (simp add: encode_steps encode_round decode_round(3) [OF values_of(2,3,2,2) [OF c]]
        low_zero [OF c] zero_bytes split_bytes)
  next
    case (3 a b)
    have c: "take_bit 24 (join_bytes a b 0) = join_bytes a b 0"
      by (simp add: split_bytes)
    show ?thesis
      using 3 by (simp add: encode_steps encode_round decode_round(2) [OF values_of(2,3,4,2) [OF c]]
        low_zero [OF c] zero_bytes split_bytes)
  next
    case (4 a b d r)
    have c: "take_bit 24 (join_bytes a b d) = join_bytes a b d"
      by (simp add: split_bytes)
    show ?thesis
      using less [of r] 4
      by (simp add: encode_steps encode_round decode_round(1) [OF values_of(2-5) [OF c]] values_of(1) [OF c] split_bytes)
  qed
qed

lemma round_value_Some: "round_value table chars t c = Some d \<Longrightarrow> x \<in> set chars \<Longrightarrow> table ! unat x \<noteq> 64"
  by (induction chars arbitrary: t c) (auto simp: Let_def split: if_splits)

lemma decode_chars: "base64_do_decode table s = Inr x \<Longrightarrow> y \<in> set s \<Longrightarrow> table ! unat y \<noteq> 64"
proof (induction "length s" arbitrary: s x rule: less_induct)
  case less
  define left where "left = min (length s) 4"
  have "s \<noteq> []"
    using less.prems(2) by auto
  then obtain c where c: "round_value table (take left s) 0 0 = Some c"
    using less.prems(1) by (subst (asm) base64_do_decode.simps) (auto simp: left_def Let_def split: option.splits)
  have "\<exists>x. base64_do_decode table (drop left s) = Inr x"
    using less.prems(1) \<open>s \<noteq> []\<close> c
    by (subst (asm) base64_do_decode.simps) (auto simp: left_def [symmetric] Let_def split: sum.splits if_splits)
  moreover have "length (drop left s) < length s"
    using \<open>s \<noteq> []\<close> by (simp add: left_def)
  ultimately have "y \<in> set (drop left s) \<Longrightarrow> table ! unat y \<noteq> 64"
    using less.hyps by blast
  moreover have "y \<in> set (take left s) \<or> y \<in> set (drop left s)"
    using less.prems(2) by (metis Un_iff append_take_drop_id set_append)
  ultimately show ?case
    using round_value_Some [OF c] by blast
qed

lemma encode_decode:
  "base64_do_decode table s = Inr x \<Longrightarrow> length s mod 4 \<noteq> 1 \<Longrightarrow> base64_encode_loop symbols False x = s"
proof (induction "length s" arbitrary: s x rule: less_induct)
  case less
  have chars: "\<exists>v. y = char_of v \<and> v < 64" if "y \<in> set s" for y
    using decode_chars [OF less.prems(1) that] by (metis char_of_cases)
  consider "s = []" | p where "s = [p]" | p q where "s = [p, q]" | p q u where "s = [p, q, u]"
    | p q u w r where "s = p # q # u # w # r"
    by (metis list.exhaust)
  then show ?case
  proof cases
    case 1
    then show ?thesis
      using less.prems(1) by (simp add: base64_do_decode.simps encode_steps)
  next
    case 2
    with less.prems(2) show ?thesis by simp
  next
    case (3 p q)
    obtain v0 v1 where v: "p = char_of v0" "q = char_of v1" "v0 < 64" "v1 < 64"
      using chars [of p] chars [of q] 3 by auto
    define c where "c = join_values v0 v1 0 0"
    have c: "take_bit 24 c = c" "drop_bit 18 c = v0" "drop_bit 12 c AND 63 = v1"
      using v by (simp_all add: c_def split_values)
    have x: "take_bit 16 c = 0" "x = [ucast (drop_bit 16 c)]"
      using less.prems(1) by (simp_all add: 3 v decode_round(3) [OF v(3,4,3,3)] c_def [symmetric] Let_def split: if_splits)
    have "join_bytes (ucast (drop_bit 16 c)) 0 0 = c"
      using bytes_of [OF c(1)] by (simp add: high_bytes(2,3) [OF x(1)])
    then show ?thesis
      by (simp add: x(2) encode_steps encode_round c 3 v)
  next
    case (4 p q u)
    obtain v0 v1 v2 where v: "p = char_of v0" "q = char_of v1" "u = char_of v2" "v0 < 64" "v1 < 64" "v2 < 64"
      using chars [of p] chars [of q] chars [of u] 4 by auto
    define c where "c = join_values v0 v1 v2 0"
    have c: "take_bit 24 c = c" "drop_bit 18 c = v0" "drop_bit 12 c AND 63 = v1" "drop_bit 6 c AND 63 = v2"
      using v by (simp_all add: c_def split_values)
    have x: "take_bit 8 c = 0" "x = [ucast (drop_bit 16 c), ucast (drop_bit 8 c)]"
      using less.prems(1) by (simp_all add: 4 v decode_round(2) [OF v(4-6,4)] c_def [symmetric] Let_def split: if_splits)
    have "join_bytes (ucast (drop_bit 16 c)) (ucast (drop_bit 8 c)) 0 = c"
      using bytes_of [OF c(1)] by (simp add: high_bytes(1) [OF x(1)])
    then show ?thesis
      by (simp add: x(2) encode_steps encode_round c 4 v)
  next
    case (5 p q u w r)
    obtain v0 v1 v2 v3 where v: "p = char_of v0" "q = char_of v1" "u = char_of v2" "w = char_of v3"
        "v0 < 64" "v1 < 64" "v2 < 64" "v3 < 64"
      using chars [of p] chars [of q] chars [of u] chars [of w] 5 by auto
    define c where "c = join_values v0 v1 v2 v3"
    have c: "take_bit 24 c = c" "drop_bit 18 c = v0" "drop_bit 12 c AND 63 = v1" "drop_bit 6 c AND 63 = v2" "c AND 63 = v3"
      using v by (simp_all add: c_def split_values)
    obtain y where y: "base64_do_decode table r = Inr y" "x = ucast (drop_bit 16 c) # ucast (drop_bit 8 c) # ucast c # y"
      using less.prems(1) by (auto simp: 5 v decode_round(1) [OF v(5-8)] c_def Let_def split: sum.splits)
    have "base64_encode_loop symbols False y = r"
      using less.hyps [OF _ y(1)] less.prems(2) 5 by simp
    then show ?thesis
      by (simp add: y(2) encode_steps encode_round bytes_of [OF c(1)] c 5 v)
  qed
qed

text \<open>The padded form.\<close>

lemma encode_padded:
  "base64_encode_loop symbols True x =
   base64_encode_loop symbols False x @ replicate ((3 - length x mod 3) mod 3) 0x3d"
proof (induction "length x" arbitrary: x rule: less_induct)
  case less
  consider "x = []" | a where "x = [a]" | a b where "x = [a, b]" | a b d r where "x = a # b # d # r"
    by (metis list.exhaust)
  then show ?case
  proof cases
    case (4 a b d r)
    then show ?thesis
      using less [of r]
      by (simp add: base64_encode_loop.simps [of _ _ "_ # _"] base64_encode_round_def Let_def mod_Suc numeral_3_eq_3 [symmetric])
  qed (simp_all add: base64_encode_loop.simps [of _ _ "[]"] base64_encode_loop.simps [of _ _ "_ # _"]
      base64_encode_round_def Let_def numeral_2_eq_2)
qed

lemma encode_length:
  "length (base64_encode_loop symbols False x) mod 4 = (if length x mod 3 = 0 then 0 else length x mod 3 + 1)"
proof (induction "length x" arbitrary: x rule: less_induct)
  case less
  consider "x = []" | a where "x = [a]" | a b where "x = [a, b]" | a b d r where "x = a # b # d # r"
    by (metis list.exhaust)
  then show ?case
  proof cases
    case (4 a b d r)
    then have "length (base64_encode_loop symbols False x) = 4 + length (base64_encode_loop symbols False r)"
      by (simp add: encode_steps encode_round)
    moreover have "length x mod 3 = length r mod 3"
      using 4 by (simp add: numeral_3_eq_3 [symmetric])
    ultimately show ?thesis
      using less [of r] 4 by simp
  qed (simp_all add: encode_steps encode_round)
qed

lemma encode_no_equals: "0x3d \<notin> set (base64_encode_loop symbols False x)"
  using decode_chars [OF decode_encode] table_other [OF no_equals] by blast

text \<open>What can be decoded, without decoding it.\<close>

lemma last_value:
  assumes "v0 < 64" "v1 < 64" "v2 < 64"
  shows "take_bit 16 (join_values v0 v1 0 0) = 0 \<longleftrightarrow> table ! unat (char_of v1) AND 15 = 0"
    and "take_bit 8 (join_values v0 v1 v2 0) = 0 \<longleftrightarrow> table ! unat (char_of v2) AND 3 = 0"
proof -
  have *: "take_bit k (unat v) = 0 \<longleftrightarrow> take_bit k v = 0" for k and v :: u32
    by (metis unsigned_0 unsigned_take_bit_eq unsigned_eq_0_iff)
  have "take_bit 16 (join_values (take_bit 6 v0) (take_bit 6 v1) 0 0) = push_bit 12 (take_bit 4 v1)"
      "drop_bit 12 (push_bit 12 (take_bit 4 v1)) = take_bit 4 v1"
      "take_bit 8 (join_values (take_bit 6 v0) (take_bit 6 v1) (take_bit 6 v2) 0) = push_bit 6 (take_bit 2 v2)"
      "drop_bit 6 (push_bit 6 (take_bit 2 v2)) = take_bit 2 v2"
    by (auto simp: join_values_def bit_simps intro!: bit_word_eqI)
  moreover have "unat v1 AND 15 = take_bit 4 (unat v1)" "unat v2 AND 3 = take_bit 2 (unat v2)"
    by (simp_all add: take_bit_eq_mask mask_eq_exp_minus_1)
  ultimately show "take_bit 16 (join_values v0 v1 0 0) = 0 \<longleftrightarrow> table ! unat (char_of v1) AND 15 = 0"
    "take_bit 8 (join_values v0 v1 v2 0) = 0 \<longleftrightarrow> table ! unat (char_of v2) AND 3 = 0"
    using assms by (metis * char_of_value drop_bit_of_0 push_bit_of_0 six_bits)+
qed

lemma decodable:
  "length s mod 4 \<noteq> 1 \<Longrightarrow>
   (\<exists>x. base64_do_decode table s = Inr x) \<longleftrightarrow>
     (\<forall>c\<in>set s. table ! unat c \<noteq> 64) \<and>
     (length s mod 4 = 2 \<longrightarrow> table ! unat (last s) AND 15 = 0) \<and>
     (length s mod 4 = 3 \<longrightarrow> table ! unat (last s) AND 3 = 0)"
proof (induction "length s" arbitrary: s rule: less_induct)
  case less
  show ?case
  proof (cases "\<forall>c\<in>set s. table ! unat c \<noteq> 64")
    case False
    then show ?thesis
      using decode_chars by blast
  next
    case True
    then have chars: "\<exists>v. y = char_of v \<and> v < 64" if "y \<in> set s" for y
      using that by (metis char_of_cases)
    consider "s = []" | p where "s = [p]" | p q where "s = [p, q]" | p q u where "s = [p, q, u]"
      | p q u w r where "s = p # q # u # w # r"
      by (metis list.exhaust)
    then show ?thesis
    proof cases
      case 1
      then show ?thesis by (simp add: base64_do_decode.simps)
    next
      case 2
      with less.prems show ?thesis by simp
    next
      case (3 p q)
      obtain v0 v1 where v: "p = char_of v0" "q = char_of v1" "v0 < 64" "v1 < 64"
        using chars [of p] chars [of q] 3 by auto
      then show ?thesis
        using True last_value(1) [OF v(3,4,3)] by (simp add: 3 decode_round(3) [OF v(3,4,3,3)] Let_def)
    next
      case (4 p q u)
      obtain v0 v1 v2 where v: "p = char_of v0" "q = char_of v1" "u = char_of v2" "v0 < 64" "v1 < 64" "v2 < 64"
        using chars [of p] chars [of q] chars [of u] 4 by auto
      then show ?thesis
        using True last_value(2) [OF v(4-6)] by (simp add: 4 decode_round(2) [OF v(4-6,4)] Let_def)
    next
      case (5 p q u w r)
      obtain v0 v1 v2 v3 where v: "p = char_of v0" "q = char_of v1" "u = char_of v2" "w = char_of v3"
          "v0 < 64" "v1 < 64" "v2 < 64" "v3 < 64"
        using chars [of p] chars [of q] chars [of u] chars [of w] 5 by auto
      have "(\<exists>x. base64_do_decode table s = Inr x) \<longleftrightarrow> (\<exists>x. base64_do_decode table r = Inr x)"
        by (auto simp: 5 v decode_round(1) [OF v(5-8)] Let_def split: sum.splits)
      moreover have "length r mod 4 \<noteq> 0 \<Longrightarrow> last s = last r"
        using 5 by auto
      ultimately show ?thesis
        using less.hyps [of r] less.prems True 5 by auto
    qed
  qed
qed

end

section \<open>The padding\<close>

lemma takeWhile_replicate_append:
  "x \<notin> set t \<Longrightarrow> takeWhile (\<lambda>c. c = x) (replicate k x @ rev t) = replicate k x"
  by (induction k) (auto simp: takeWhile_eq_Nil_iff hd_rev last_in_set)

lemma drop_equals_append: "0x3d \<notin> set t \<Longrightarrow> drop_equals (t @ replicate k 0x3d) = (t, k)"
  by (simp add: drop_equals_def takeWhile_replicate_append)

lemma drop_equals_split:
  assumes "drop_equals s = (t, k)"
  shows "s = t @ replicate k 0x3d"
proof -
  have k: "k = length (takeWhile (\<lambda>c. c = 0x3d) (rev s))" and t: "t = take (length s - k) s"
    using assms by (auto simp: drop_equals_def Let_def)
  define d where "d = dropWhile (\<lambda>c. c = 0x3d) (rev s)"
  have "takeWhile (\<lambda>c. c = 0x3d) (rev s) = replicate k 0x3d"
    unfolding k by (metis (mono_tags, lifting) replicate_length_same set_takeWhileD)
  then have "rev s = replicate k 0x3d @ d"
    by (metis d_def takeWhile_dropWhile_id)
  then have "s = rev d @ replicate k 0x3d"
    by (metis rev_append rev_replicate rev_rev_ident)
  then show ?thesis
    by (simp add: t)
qed

interpretation std: alphabet symbols64
  by unfold_locales (simp_all add: symbols64_def ascii_def)

interpretation url: alphabet url_symbols64
  by unfold_locales (simp_all add: url_symbols64_def ascii_def)

lemma padding_length:
  fixes a k r :: nat
  assumes "a mod 4 = (if r = 0 then 0 else r + 1)" "r < 3" "k < 3" "(a + k) mod 4 = 0"
  shows "k = (3 - r) mod 3"
proof -
  have *: "(a mod 4 + k) mod 4 = 0"
    using assms(4) by (simp add: mod_simps)
  have "r = 0 \<or> r = 1 \<or> r = 2"
    using assms(2) by linarith
  moreover have "k = 0 \<or> k = 1 \<or> k = 2"
    using assms(3) by linarith
  ultimately show ?thesis
    using * unfolding assms(1) by (elim disjE) simp_all
qed

lemma padding_fills:
  fixes a r :: nat
  assumes "a mod 4 = (if r = 0 then 0 else r + 1)" "r < 3"
  shows "(a + (3 - r) mod 3) mod 4 = 0" "a mod 4 \<noteq> 1"
proof -
  have r: "r = 0 \<or> r = 1 \<or> r = 2"
    using assms(2) by linarith
  then have "(a mod 4 + (3 - r) mod 3) mod 4 = 0"
    unfolding assms(1) by (elim disjE) simp_all
  then show "(a + (3 - r) mod 3) mod 4 = 0"
    by (simp only: mod_add_left_eq)
  show "a mod 4 \<noteq> 1"
    using r unfolding assms(1) by (elim disjE) simp_all
qed

lemma padded_mod_4: "k < 3 \<Longrightarrow> (a + k) mod 4 = 0 \<Longrightarrow> a mod 4 \<noteq> 1" for a k :: nat
proof
  assume "k < 3" "(a + k) mod 4 = 0" "a mod 4 = 1"
  then have "(1 + k) mod 4 = 0"
    by (metis mod_add_left_eq)
  with \<open>k < 3\<close> show False by simp
qed

lemma base64_drop_padding_iff:
  assumes "drop_equals s = (t, k)"
  shows "base64_drop_padding s = (if (length t + k) mod 4 \<noteq> 0 then Inl Wrong_string_length
    else if k \<ge> 3 then Inl Wrong_string_padding else Inr t)"
  using drop_equals_split [OF assms] assms by (simp add: base64_drop_padding_def)

lemma base64_decode_iff: "base64_decode s = Inr x \<longleftrightarrow> s = base64_encode x"
proof
  assume d: "base64_decode s = Inr x"
  obtain t k where k: "drop_equals s = (t, k)"
    by (cases "drop_equals s")
  have t: "(length t + k) mod 4 = 0" "k < 3" "base64_do_decode (init_base64_table symbols64) t = Inr x"
    using d by (auto simp: base64_decode_def base64_drop_padding_iff [OF k] split: if_splits)
  have t': "t = base64_encode_loop symbols64 False x"
    using std.encode_decode [OF t(3) padded_mod_4 [OF t(2,1)]] by simp
  have "k = (3 - length x mod 3) mod 3"
    by (rule padding_length [OF _ _ t(2,1)]) (simp_all add: t' std.encode_length)
  then show "s = base64_encode x"
    using drop_equals_split [OF k] by (simp add: base64_encode_def std.encode_padded t')
next
  assume s: "s = base64_encode x"
  define t where "t = base64_encode_loop symbols64 False x"
  have "drop_equals s = (t, (3 - length x mod 3) mod 3)"
    by (simp add: s t_def base64_encode_def std.encode_padded drop_equals_append std.encode_no_equals)
  moreover have "(length t + (3 - length x mod 3) mod 3) mod 4 = 0"
    by (rule padding_fills) (simp_all add: t_def std.encode_length)
  ultimately have "base64_drop_padding s = Inr t"
    by (subst base64_drop_padding_iff) auto
  then show "base64_decode s = Inr x"
    by (simp add: base64_decode_def t_def std.decode_encode)
qed

lemma base64url_decode_iff:
  "base64url_decode s = Inr x \<longleftrightarrow>
     s = base64url_encode x \<or> s = base64url_encode x @ replicate ((3 - length x mod 3) mod 3) 0x3d"
proof
  assume d: "base64url_decode s = Inr x"
  obtain t k where k: "drop_equals s = (t, k)"
    by (cases "drop_equals s")
  with d have t: "k < 3" "k > 0 \<Longrightarrow> (length t + k) mod 4 = 0" "length t mod 4 \<noteq> 1"
      "base64_do_decode (init_base64_table url_symbols64) t = Inr x"
    by (auto simp: base64url_decode_def split: if_splits)
  have t': "t = base64url_encode x"
    using url.encode_decode [OF t(4,3)] by (simp add: base64url_encode_def)
  have "k > 0 \<Longrightarrow> k = (3 - length x mod 3) mod 3"
    by (rule padding_length [OF _ _ t(1,2)]) (simp_all add: t' base64url_encode_def url.encode_length)
  then show "s = base64url_encode x \<or> s = base64url_encode x @ replicate ((3 - length x mod 3) mod 3) 0x3d"
    using drop_equals_split [OF k] t' by (cases "k > 0") auto
next
  define t where "t = base64url_encode x"
  have eq: "0x3d \<notin> set t" and dec: "base64_do_decode (init_base64_table url_symbols64) t = Inr x"
    by (simp_all add: t_def base64url_encode_def url.encode_no_equals url.decode_encode)
  have "length t mod 4 = (if length x mod 3 = 0 then 0 else length x mod 3 + 1)"
    by (simp add: t_def base64url_encode_def url.encode_length)
  note k = padding_fills [OF this mod_less_divisor [OF zero_less_numeral]]
  assume "s = base64url_encode x \<or> s = base64url_encode x @ replicate ((3 - length x mod 3) mod 3) 0x3d"
  then have "drop_equals s = (t, 0) \<or> drop_equals s = (t, (3 - length x mod 3) mod 3)"
    using drop_equals_append [OF eq, of 0] drop_equals_append [OF eq, of "(3 - length x mod 3) mod 3"]
    by (auto simp: t_def)
  then show "base64url_decode s = Inr x"
    using k dec by (elim disjE) (simp_all add: base64url_decode_def)
qed

text \<open>The tests accept what the decoders accept.\<close>

lemma is_base64_iff: "is_base64 s \<longleftrightarrow> (\<exists>x. base64_decode s = Inr x)"
proof -
  obtain t k where k: "drop_equals s = (t, k)"
    by (cases "drop_equals s")
  have "is_base64 s \<longleftrightarrow> k < 3 \<and> (length t + k) mod 4 = 0 \<and> (\<exists>x. base64_do_decode (init_base64_table symbols64) t = Inr x)"
    using std.decodable [OF padded_mod_4 [of k "length t"]]
    by (auto simp: is_base64_def is_base64_impl_def k Let_def list_all_iff)
  then show ?thesis
    by (auto simp: base64_decode_def base64_drop_padding_iff [OF k])
qed

lemma is_base64url_iff: "is_base64url s \<longleftrightarrow> (\<exists>x. base64url_decode s = Inr x)"
proof -
  obtain t k where k: "drop_equals s = (t, k)"
    by (cases "drop_equals s")
  have "length t mod 4 \<noteq> 1 \<Longrightarrow> is_base64url s \<longleftrightarrow>
      \<not> (k \<ge> 3 \<or> (k > 0 \<and> (length t + k) mod 4 \<noteq> 0)) \<and> (\<exists>x. base64_do_decode (init_base64_table url_symbols64) t = Inr x)"
    using url.decodable [of t] by (auto simp: is_base64url_def is_base64_impl_def k Let_def list_all_iff)
  then show ?thesis
    by (cases "length t mod 4 = 1") (auto simp: base64url_decode_def is_base64url_def is_base64_impl_def k)
qed

text \<open>The secure version decodes the same, and what it writes fits into its buffer.\<close>

lemma decoded_fits: "base64_do_decode table s = Inr x \<Longrightarrow> length x \<le> (length s + 3) div 4 * 3"
proof (induction "length s" arbitrary: s x rule: less_induct)
  case less
  show ?case
  proof (cases "s = []")
    case True
    with less.prems show ?thesis by (simp add: base64_do_decode.simps)
  next
    case False
    then have "length (drop 4 s) < length s" by simp
    have "drop (min (length s) 4) s = drop 4 s"
      by (simp add: min_def)
    then obtain y where "base64_do_decode table (drop 4 s) = Inr y" "length x \<le> 3 + length y"
      using less.prems False
      by (subst (asm) base64_do_decode.simps) (auto simp: Let_def split: option.splits if_splits sum.splits)
    then have "length x \<le> 3 + (length (drop 4 s) + 3) div 4 * 3"
      using less.hyps [OF \<open>length (drop 4 s) < length s\<close>] by fastforce
    then show ?thesis
      using False by (cases "4 \<le> length s") (auto simp: not_le Suc_le_eq le_div_geq)
  qed
qed

lemma base64_decode_secure_same: "base64_decode_secure s = base64_decode s"
  by (simp add: base64_decode_secure_def base64_decode_def memcpy_at_def Let_def split: sum.split)

section \<open>Base 32 decodes what it encodes\<close>

text \<open>
  The bits of the characters are the bits of the bytes, with zeros at the end. Both loops keep the
  bits that are not used yet in the low part of \<open>c\<close>.
\<close>

lemma and_31: "x AND 31 = take_bit 5 x" and and_ff_32: "x AND 255 = take_bit 8 x" for x :: u32
  by (simp_all add: take_bit_eq_mask mask_eq_exp_minus_1)

lemma bits_of_take_bit: "n \<le> m \<Longrightarrow> bits_of n (take_bit m x) = bits_of n x"
  by (auto simp: bits_of_eq_iff bit_take_bit_iff)

lemma bits_of_shift: "n + 8 \<le> 32 \<Longrightarrow> bits_of (n + 8) (push_bit 8 c OR ucast x) = bits_of n (c :: u32) @ bits_of 8 (x :: u8)"
  by (subst bits_of_join) (auto simp: bits_of_ucast bit_simps dest: bit_u8_less)

lemma base32_emit_bits:
  "len < 16 \<Longrightarrow> \<exists>vs :: u32 list. base32_emit symbols c len = (map (\<lambda>v. symbols ! unat v) vs, len mod 5) \<and>
     list_all (\<lambda>v. v < 32) vs \<and> concat (map (bits_of 5) vs) @ bits_of (len mod 5) c = bits_of len (c :: u32)"
proof (induction len rule: less_induct)
  case (less len)
  show ?case
  proof (cases "5 \<le> len")
    case True
    have m: "(len - 5) mod 5 = len mod 5"
      using True by (simp add: le_mod_geq)
    obtain vs :: "u32 list" where vs: "base32_emit symbols c (len - 5) = (map (\<lambda>v. symbols ! unat v) vs, len mod 5)"
        "list_all (\<lambda>v. v < 32) vs" "concat (map (bits_of 5) vs) @ bits_of (len mod 5) c = bits_of (len - 5) c"
      using less.IH [of "len - 5"] less.prems True by (auto simp only: m diff_less_mono2 zero_less_numeral) fastforce
    define v where "v = drop_bit (len - 5) c AND 31"
    have "bits_of len c = bits_of 5 v @ bits_of (len - 5) c"
      using bits_of_append [of 5 "len - 5" c] True by (simp add: v_def and_31 bits_of_take_bit)
    moreover have "v < 32"
      by (simp add: v_def and_31 word_less_nat_alt unsigned_take_bit_eq take_bit_nat_def)
    moreover have "base32_emit symbols c len = (map (\<lambda>v. symbols ! unat v) (v # vs), len mod 5)"
      using True vs(1) by (subst base32_emit.simps) (simp add: v_def)
    ultimately show ?thesis
      using vs(2,3) by (intro exI [of _ "v # vs"]) simp
  qed (simp add: base32_emit.simps)
qed

lemma base32_encode_bits:
  "len < 5 \<Longrightarrow> \<exists>(vs :: u32 list) k. base32_encode_loop symbols input c len = map (\<lambda>v. symbols ! unat v) vs \<and>
     list_all (\<lambda>v. v < 32) vs \<and> k < 5 \<and>
     concat (map (bits_of 5) vs) = bits_of len c @ concat (map (bits_of 8) input) @ replicate k False"
proof (induction input arbitrary: c len)
  case Nil
  show ?case
  proof (cases "len = 0")
    case True
    then show ?thesis
      by (intro exI [of _ "[]"] exI [of _ 0]) (simp add: bits_of_def)
  next
    case False
    define v where "v = push_bit (5 - len) c AND 31"
    have "bits_of 5 v = bits_of (len + (5 - len)) (push_bit (5 - len) c OR 0)"
      using Nil by (simp add: v_def and_31 bits_of_take_bit)
    also have "\<dots> = bits_of len c @ replicate (5 - len) False"
      using Nil by (subst bits_of_join) (auto simp: bits_of_zero)
    finally show ?thesis
      using False Nil
      by (intro exI [of _ "[v]"] exI [of _ "5 - len"])
        (simp add: v_def and_31 word_less_nat_alt unsigned_take_bit_eq take_bit_nat_def)
  qed
next
  case (Cons x input)
  define c' where "c' = push_bit 8 c OR ucast x"
  obtain vs :: "u32 list" where vs: "base32_emit symbols c' (len + 8) = (map (\<lambda>v. symbols ! unat v) vs, (len + 8) mod 5)"
      "list_all (\<lambda>v. v < 32) vs" "concat (map (bits_of 5) vs) @ bits_of ((len + 8) mod 5) c' = bits_of (len + 8) c'"
    using base32_emit_bits [of "len + 8" symbols c'] Cons.prems by auto
  obtain ws k where ws: "base32_encode_loop symbols input c' ((len + 8) mod 5) = map (\<lambda>v. symbols ! unat v) ws"
      "list_all (\<lambda>v. v < 32) ws" "k < 5"
      "concat (map (bits_of 5) (ws :: u32 list)) = bits_of ((len + 8) mod 5) c' @ concat (map (bits_of 8) input) @ replicate k False"
    using Cons.IH [of "(len + 8) mod 5" c'] by auto
  have "bits_of (len + 8) c' = bits_of len c @ bits_of 8 x"
    unfolding c'_def using Cons.prems by (intro bits_of_shift) simp
  moreover have "concat (map (bits_of 5) (vs @ ws)) =
      (concat (map (bits_of 5) vs) @ bits_of ((len + 8) mod 5) c') @ concat (map (bits_of 8) input) @ replicate k False"
    by (simp add: ws(4))
  ultimately have "concat (map (bits_of 5) (vs @ ws)) = bits_of len c @ concat (map (bits_of 8) (x # input)) @ replicate k False"
    by (simp only: vs(3) append.assoc list.map concat.simps)
  then show ?case
    using vs ws by (intro exI [of _ "vs @ ws"] exI [of _ k]) (simp add: c'_def [symmetric] Let_def)
qed

lemma base32_take_one:
  "8 \<le> len \<Longrightarrow> len < 16 \<Longrightarrow> base32_take c len = ([ucast (drop_bit (len - 8) c)], len - 8)"
  by (subst base32_take.simps, subst base32_take.simps)
    (auto simp: and_ff_32 bit_simps intro!: bit_word_eqI)

lemma base32_take_none: "len < 8 \<Longrightarrow> base32_take c len = ([], len)"
  by (subst base32_take.simps) simp

lemma base32_values:
  "i < 32 \<Longrightarrow> b32_char_to_value ! unat (symbols32_lc ! i) = i \<and> b32_char_to_value ! unat (symbols32_uc ! i) = i"
proof -
  define l where "l = ascii ''abcdefghijklmnopqrstuvwxyzABCDEFGHIJKLMNOPQRSTUVWXYZ234567''"
  have l: "distinct l" "length l = 58"
    by (simp_all add: l_def ascii_def)
  have lc: "symbols32_lc = take 26 l @ drop 52 l" and uc: "symbols32_uc = drop 26 l"
    by (simp_all add: l_def ascii_def symbols32_lc_def symbols32_uc_def)
  have nth: "symbols32_lc ! i = l ! (if i < 26 then i else i + 26)" "symbols32_uc ! i = l ! (i + 26)" if "i < 32" for i
    unfolding lc uc using that l(2) by (auto simp: nth_append add.commute)
  have sep: "symbols32_lc ! n \<noteq> symbols32_lc ! i" "symbols32_lc ! n \<noteq> symbols32_uc ! i"
      "symbols32_uc ! n \<noteq> symbols32_lc ! i" "symbols32_uc ! n \<noteq> symbols32_uc ! i" if "i < n" "n < 32" for i n
    using that by (simp_all add: nth nth_eq_iff_index_eq [OF l(1)] l(2))
  have "n \<le> 32 \<Longrightarrow> let t = fold (\<lambda>i t. t [unat (symbols32_lc ! i) := i, unat (symbols32_uc ! i) := i]) [0..<n] (replicate 256 32) in
      length t = 256 \<and> (\<forall>i<n. t ! unat (symbols32_lc ! i) = i \<and> t ! unat (symbols32_uc ! i) = i)" for n
  proof (induction n)
    case (Suc n)
    with sep [of _ n] show ?case
      by (auto simp: Let_def nth_list_update less_Suc_eq simp flip: word_unat_eq_iff)
  qed simp
  from this [of 32] show "i < 32 \<Longrightarrow> ?thesis"
    by (simp add: b32_char_to_value_def Let_def)
qed

lemma five_bits: "v < 32 \<Longrightarrow> bit v i \<Longrightarrow> i < 5" for v :: u32
proof -
  assume "v < 32" "bit v i"
  then have "take_bit 5 v = v"
    by (intro unsigned_word_eqI [where 'a = nat]) (simp add: unsigned_take_bit_eq take_bit_nat_eq_self word_less_nat_alt)
  with \<open>bit v i\<close> show "i < 5"
    by (metis bit_take_bit_iff)
qed

lemma base32_decode_bits:
  assumes "\<And>i. i < 32 \<Longrightarrow> b32_char_to_value ! unat (symbols ! i) = i"
  shows "\<lbrakk>list_all (\<lambda>v. v < 32) vs; len < 8; k < 8;
     bits_of len c @ concat (map (bits_of 5) (vs :: u32 list)) = concat (map (bits_of 8) xs) @ replicate k False\<rbrakk> \<Longrightarrow>
     base32_decode_loop (map (\<lambda>v. symbols ! unat v) vs) c len = Inr xs"
proof (induction vs arbitrary: c len xs)
  case Nil
  then have "length (bits_of len c) = 8 * length xs + k"
    by (simp add: length_concat comp_def sum_list_triv)
  then have xs: "xs = []" "k = len"
    using Nil.prems(2) by (cases xs; simp)+
  with Nil.prems have "bits_of len c = bits_of len 0"
    by (simp add: bits_of_zero)
  then have "c AND mask len = 0"
    by (auto simp: bits_of_eq_iff bit_simps intro!: bit_word_eqI)
  then show ?case
    by (simp add: xs mask_eq_exp_minus_1 push_bit_of_1)
next
  case (Cons v vs)
  have v: "unat v < 32" "word_of_nat (unat v) = v"
    using Cons.prems(1) by (simp_all add: word_less_nat_alt)
  then have val: "b32_char_to_value ! unat (symbols ! unat v) = unat v"
    by (intro assms)
  define c' where "c' = push_bit 5 c OR v"
  have "\<And>i. bit v i \<Longrightarrow> i < 5"
    using Cons.prems(1) five_bits [of v] by auto
  then have c': "bits_of (len + 5) c' = bits_of len c @ bits_of 5 v"
    unfolding c'_def using Cons.prems(2) by (intro bits_of_join) auto
  have bits: "bits_of (len + 5) c' @ concat (map (bits_of 5) vs) = concat (map (bits_of 8) xs) @ replicate k False"
    using Cons.prems(4) by (simp add: c')
  show ?case
  proof (cases "len + 5 < 8")
    case True
    then show ?thesis
      using Cons.IH [of "len + 5" c' xs] Cons.prems(1,3) bits v
      by (simp add: val Let_def c'_def [symmetric] base32_take_none)
  next
    case False
    have "8 \<le> length (concat (map (bits_of 8) xs) @ replicate k False)"
      using False by (simp only: bits [symmetric]) simp
    then obtain x ys where xs: "xs = x # ys"
      using Cons.prems(3) by (cases xs) auto
    define e where "e = (ucast (drop_bit (len - 3) c') :: u8)"
    have e: "bits_of (len + 5) c' = bits_of 8 e @ bits_of (len - 3) c'"
      using bits_of_append [of 8 "len - 3" c'] False by (simp add: e_def bits_of_ucast add.commute)
    then have "bits_of 8 e = bits_of 8 x" "bits_of (len - 3) c' @ concat (map (bits_of 5) vs) = concat (map (bits_of 8) ys) @ replicate k False"
      using bits by (simp_all add: xs)
    moreover from this have "e = x"
      by (simp add: bits_of_u8_inject)
    moreover have "base32_take c' (len + 5) = ([e], len - 3)"
      using False Cons.prems(2) by (simp add: base32_take_one e_def)
    ultimately show ?thesis
      using Cons.IH [of "len - 3" c' ys] Cons.prems(1,2,3) v
      by (simp add: val Let_def c'_def [symmetric] xs)
  qed
qed

lemma base32_decode_encode: "base32_decode (base32_encode input upper_case) = Inr input"
proof -
  define symbols where "symbols = (if upper_case then symbols32_uc else symbols32_lc)"
  obtain vs k where vs: "base32_encode input upper_case = map (\<lambda>v. symbols ! unat v) vs" "list_all (\<lambda>v. v < 32) vs"
      "k < 5" "concat (map (bits_of 5) (vs :: u32 list)) = concat (map (bits_of 8) input) @ replicate k False"
    using base32_encode_bits [of 0 symbols input 0] by (auto simp: base32_encode_def symbols_def bits_of_def)
  have "base32_decode_loop (map (\<lambda>v. symbols ! unat v) vs) 0 0 = Inr input"
    by (rule base32_decode_bits [where k = k]) (use vs base32_values in \<open>auto simp: symbols_def bits_of_def\<close>)
  then show ?thesis
    by (simp add: base32_decode_def vs(1))
qed

section \<open>Properties\<close>

text \<open>
  C22: \<open>base64_decode\<close> is strict: it accepts a text exactly when it is the encoding of the bytes it
  returns, with its padding and with zeros in the unused bits. The URL alphabet may leave the padding
  out. \<open>is_base64\<close> and \<open>is_base64url\<close> tell which texts are accepted, the variant for secrets decodes alike,
  and base 32 gives back what was encoded.
\<close>

theorem base64_exact:
  "(base64_decode s = Inr x \<longleftrightarrow> s = base64_encode x) \<and>
   (base64url_decode s = Inr x \<longleftrightarrow>
      s = base64url_encode x \<or> s = base64url_encode x @ replicate ((3 - length x mod 3) mod 3) 0x3d) \<and>
   (is_base64 s \<longleftrightarrow> (\<exists>y. s = base64_encode y)) \<and> (is_base64url s \<longleftrightarrow> (\<exists>y. base64url_decode s = Inr y)) \<and>
   base64_decode_secure s = base64_decode s \<and> base32_decode (base32_encode x upper_case) = Inr x"
  by (simp only: base64_decode_iff base64url_decode_iff is_base64_iff is_base64url_iff base64_decode_secure_same
      base32_decode_encode simp_thms)

end
