(* ===== verification/Checksum.thy ===== *)
theory Checksum
  imports Text
begin

text \<open>
  The cyclic redundancy checks of \<open>td/utils/crypto.cpp\<close>: \<open>crc16\<close>, which protects addresses and
  public keys, and \<open>crc64\<close>. Both work byte by byte with a table of 256 words. They are compared with
  the shift register of the polynomial, one bit at a time; that the register is linear and that it can
  be run backwards gives what the addresses need: two messages of one length that differ in a short
  run have different checks.
\<close>

type_synonym u16 = "16 word"

section \<open>The code\<close>

definition crc16_table :: "u16 list" where
  "crc16_table =
   [0x0000, 0x1021, 0x2042, 0x3063, 0x4084, 0x50A5, 0x60C6, 0x70E7, 0x8108, 0x9129, 0xA14A, 0xB16B,
    0xC18C, 0xD1AD, 0xE1CE, 0xF1EF, 0x1231, 0x0210, 0x3273, 0x2252, 0x52B5, 0x4294, 0x72F7, 0x62D6,
    0x9339, 0x8318, 0xB37B, 0xA35A, 0xD3BD, 0xC39C, 0xF3FF, 0xE3DE, 0x2462, 0x3443, 0x0420, 0x1401,
    0x64E6, 0x74C7, 0x44A4, 0x5485, 0xA56A, 0xB54B, 0x8528, 0x9509, 0xE5EE, 0xF5CF, 0xC5AC, 0xD58D,
    0x3653, 0x2672, 0x1611, 0x0630, 0x76D7, 0x66F6, 0x5695, 0x46B4, 0xB75B, 0xA77A, 0x9719, 0x8738,
    0xF7DF, 0xE7FE, 0xD79D, 0xC7BC, 0x48C4, 0x58E5, 0x6886, 0x78A7, 0x0840, 0x1861, 0x2802, 0x3823,
    0xC9CC, 0xD9ED, 0xE98E, 0xF9AF, 0x8948, 0x9969, 0xA90A, 0xB92B, 0x5AF5, 0x4AD4, 0x7AB7, 0x6A96,
    0x1A71, 0x0A50, 0x3A33, 0x2A12, 0xDBFD, 0xCBDC, 0xFBBF, 0xEB9E, 0x9B79, 0x8B58, 0xBB3B, 0xAB1A,
    0x6CA6, 0x7C87, 0x4CE4, 0x5CC5, 0x2C22, 0x3C03, 0x0C60, 0x1C41, 0xEDAE, 0xFD8F, 0xCDEC, 0xDDCD,
    0xAD2A, 0xBD0B, 0x8D68, 0x9D49, 0x7E97, 0x6EB6, 0x5ED5, 0x4EF4, 0x3E13, 0x2E32, 0x1E51, 0x0E70,
    0xFF9F, 0xEFBE, 0xDFDD, 0xCFFC, 0xBF1B, 0xAF3A, 0x9F59, 0x8F78, 0x9188, 0x81A9, 0xB1CA, 0xA1EB,
    0xD10C, 0xC12D, 0xF14E, 0xE16F, 0x1080, 0x00A1, 0x30C2, 0x20E3, 0x5004, 0x4025, 0x7046, 0x6067,
    0x83B9, 0x9398, 0xA3FB, 0xB3DA, 0xC33D, 0xD31C, 0xE37F, 0xF35E, 0x02B1, 0x1290, 0x22F3, 0x32D2,
    0x4235, 0x5214, 0x6277, 0x7256, 0xB5EA, 0xA5CB, 0x95A8, 0x8589, 0xF56E, 0xE54F, 0xD52C, 0xC50D,
    0x34E2, 0x24C3, 0x14A0, 0x0481, 0x7466, 0x6447, 0x5424, 0x4405, 0xA7DB, 0xB7FA, 0x8799, 0x97B8,
    0xE75F, 0xF77E, 0xC71D, 0xD73C, 0x26D3, 0x36F2, 0x0691, 0x16B0, 0x6657, 0x7676, 0x4615, 0x5634,
    0xD94C, 0xC96D, 0xF90E, 0xE92F, 0x99C8, 0x89E9, 0xB98A, 0xA9AB, 0x5844, 0x4865, 0x7806, 0x6827,
    0x18C0, 0x08E1, 0x3882, 0x28A3, 0xCB7D, 0xDB5C, 0xEB3F, 0xFB1E, 0x8BF9, 0x9BD8, 0xABBB, 0xBB9A,
    0x4A75, 0x5A54, 0x6A37, 0x7A16, 0x0AF1, 0x1AD0, 0x2AB3, 0x3A92, 0xFD2E, 0xED0F, 0xDD6C, 0xCD4D,
    0xBDAA, 0xAD8B, 0x9DE8, 0x8DC9, 0x7C26, 0x6C07, 0x5C64, 0x4C45, 0x3CA2, 0x2C83, 0x1CE0, 0x0CC1,
    0xEF1F, 0xFF3E, 0xCF5D, 0xDF7C, 0xAF9B, 0xBFBA, 0x8FD9, 0x9FF8, 0x6E17, 0x7E36, 0x4E55, 0x5E74,
    0x2E93, 0x3EB2, 0x0ED1, 0x1EF0]"

text \<open>The variable \<open>crc\<close> has 32 bits; what is shifted out of the low half stays in the high half.\<close>

definition crc16_step :: "u8 \<Rightarrow> u32 \<Rightarrow> u32" where
  "crc16_step c crc =
     (let t = (ucast c XOR drop_bit 8 crc) AND 0xff
      in ucast (crc16_table ! unat t) XOR push_bit 8 crc)"

definition crc16 :: "bytes \<Rightarrow> u16" where
  "crc16 data = ucast (fold crc16_step data 0)"

definition crc64_table :: "u64 list" where
  "crc64_table =
   [0x0000000000000000, 0xB32E4CBE03A75F6F, 0xF4843657A840A05B, 0x47AA7AE9ABE7FF34,
    0x7BD0C384FF8F5E33, 0xC8FE8F3AFC28015C, 0x8F54F5D357CFFE68, 0x3C7AB96D5468A107,
    0xF7A18709FF1EBC66, 0x448FCBB7FCB9E309, 0x0325B15E575E1C3D, 0xB00BFDE054F94352,
    0x8C71448D0091E255, 0x3F5F08330336BD3A, 0x78F572DAA8D1420E, 0xCBDB3E64AB761D61,
    0x7D9BA13851336649, 0xCEB5ED8652943926, 0x891F976FF973C612, 0x3A31DBD1FAD4997D,
    0x064B62BCAEBC387A, 0xB5652E02AD1B6715, 0xF2CF54EB06FC9821, 0x41E11855055BC74E,
    0x8A3A2631AE2DDA2F, 0x39146A8FAD8A8540, 0x7EBE1066066D7A74, 0xCD905CD805CA251B,
    0xF1EAE5B551A2841C, 0x42C4A90B5205DB73, 0x056ED3E2F9E22447, 0xB6409F5CFA457B28,
    0xFB374270A266CC92, 0x48190ECEA1C193FD, 0x0FB374270A266CC9, 0xBC9D3899098133A6,
    0x80E781F45DE992A1, 0x33C9CD4A5E4ECDCE, 0x7463B7A3F5A932FA, 0xC74DFB1DF60E6D95,
    0x0C96C5795D7870F4, 0xBFB889C75EDF2F9B, 0xF812F32EF538D0AF, 0x4B3CBF90F69F8FC0,
    0x774606FDA2F72EC7, 0xC4684A43A15071A8, 0x83C230AA0AB78E9C, 0x30EC7C140910D1F3,
    0x86ACE348F355AADB, 0x3582AFF6F0F2F5B4, 0x7228D51F5B150A80, 0xC10699A158B255EF,
    0xFD7C20CC0CDAF4E8, 0x4E526C720F7DAB87, 0x09F8169BA49A54B3, 0xBAD65A25A73D0BDC,
    0x710D64410C4B16BD, 0xC22328FF0FEC49D2, 0x85895216A40BB6E6, 0x36A71EA8A7ACE989,
    0x0ADDA7C5F3C4488E, 0xB9F3EB7BF06317E1, 0xFE5991925B84E8D5, 0x4D77DD2C5823B7BA,
    0x64B62BCAEBC387A1, 0xD7986774E864D8CE, 0x90321D9D438327FA, 0x231C512340247895,
    0x1F66E84E144CD992, 0xAC48A4F017EB86FD, 0xEBE2DE19BC0C79C9, 0x58CC92A7BFAB26A6,
    0x9317ACC314DD3BC7, 0x2039E07D177A64A8, 0x67939A94BC9D9B9C, 0xD4BDD62ABF3AC4F3,
    0xE8C76F47EB5265F4, 0x5BE923F9E8F53A9B, 0x1C4359104312C5AF, 0xAF6D15AE40B59AC0,
    0x192D8AF2BAF0E1E8, 0xAA03C64CB957BE87, 0xEDA9BCA512B041B3, 0x5E87F01B11171EDC,
    0x62FD4976457FBFDB, 0xD1D305C846D8E0B4, 0x96797F21ED3F1F80, 0x2557339FEE9840EF,
    0xEE8C0DFB45EE5D8E, 0x5DA24145464902E1, 0x1A083BACEDAEFDD5, 0xA9267712EE09A2BA,
    0x955CCE7FBA6103BD, 0x267282C1B9C65CD2, 0x61D8F8281221A3E6, 0xD2F6B4961186FC89,
    0x9F8169BA49A54B33, 0x2CAF25044A02145C, 0x6B055FEDE1E5EB68, 0xD82B1353E242B407,
    0xE451AA3EB62A1500, 0x577FE680B58D4A6F, 0x10D59C691E6AB55B, 0xA3FBD0D71DCDEA34,
    0x6820EEB3B6BBF755, 0xDB0EA20DB51CA83A, 0x9CA4D8E41EFB570E, 0x2F8A945A1D5C0861,
    0x13F02D374934A966, 0xA0DE61894A93F609, 0xE7741B60E174093D, 0x545A57DEE2D35652,
    0xE21AC88218962D7A, 0x5134843C1B317215, 0x169EFED5B0D68D21, 0xA5B0B26BB371D24E,
    0x99CA0B06E7197349, 0x2AE447B8E4BE2C26, 0x6D4E3D514F59D312, 0xDE6071EF4CFE8C7D,
    0x15BB4F8BE788911C, 0xA6950335E42FCE73, 0xE13F79DC4FC83147, 0x521135624C6F6E28,
    0x6E6B8C0F1807CF2F, 0xDD45C0B11BA09040, 0x9AEFBA58B0476F74, 0x29C1F6E6B3E0301B,
    0xC96C5795D7870F42, 0x7A421B2BD420502D, 0x3DE861C27FC7AF19, 0x8EC62D7C7C60F076,
    0xB2BC941128085171, 0x0192D8AF2BAF0E1E, 0x4638A2468048F12A, 0xF516EEF883EFAE45,
    0x3ECDD09C2899B324, 0x8DE39C222B3EEC4B, 0xCA49E6CB80D9137F, 0x7967AA75837E4C10,
    0x451D1318D716ED17, 0xF6335FA6D4B1B278, 0xB199254F7F564D4C, 0x02B769F17CF11223,
    0xB4F7F6AD86B4690B, 0x07D9BA1385133664, 0x4073C0FA2EF4C950, 0xF35D8C442D53963F,
    0xCF273529793B3738, 0x7C0979977A9C6857, 0x3BA3037ED17B9763, 0x888D4FC0D2DCC80C,
    0x435671A479AAD56D, 0xF0783D1A7A0D8A02, 0xB7D247F3D1EA7536, 0x04FC0B4DD24D2A59,
    0x3886B22086258B5E, 0x8BA8FE9E8582D431, 0xCC0284772E652B05, 0x7F2CC8C92DC2746A,
    0x325B15E575E1C3D0, 0x8175595B76469CBF, 0xC6DF23B2DDA1638B, 0x75F16F0CDE063CE4,
    0x498BD6618A6E9DE3, 0xFAA59ADF89C9C28C, 0xBD0FE036222E3DB8, 0x0E21AC88218962D7,
    0xC5FA92EC8AFF7FB6, 0x76D4DE52895820D9, 0x317EA4BB22BFDFED, 0x8250E80521188082,
    0xBE2A516875702185, 0x0D041DD676D77EEA, 0x4AAE673FDD3081DE, 0xF9802B81DE97DEB1,
    0x4FC0B4DD24D2A599, 0xFCEEF8632775FAF6, 0xBB44828A8C9205C2, 0x086ACE348F355AAD,
    0x34107759DB5DFBAA, 0x873E3BE7D8FAA4C5, 0xC094410E731D5BF1, 0x73BA0DB070BA049E,
    0xB86133D4DBCC19FF, 0x0B4F7F6AD86B4690, 0x4CE50583738CB9A4, 0xFFCB493D702BE6CB,
    0xC3B1F050244347CC, 0x709FBCEE27E418A3, 0x3735C6078C03E797, 0x841B8AB98FA4B8F8,
    0xADDA7C5F3C4488E3, 0x1EF430E13FE3D78C, 0x595E4A08940428B8, 0xEA7006B697A377D7,
    0xD60ABFDBC3CBD6D0, 0x6524F365C06C89BF, 0x228E898C6B8B768B, 0x91A0C532682C29E4,
    0x5A7BFB56C35A3485, 0xE955B7E8C0FD6BEA, 0xAEFFCD016B1A94DE, 0x1DD181BF68BDCBB1,
    0x21AB38D23CD56AB6, 0x9285746C3F7235D9, 0xD52F0E859495CAED, 0x6601423B97329582,
    0xD041DD676D77EEAA, 0x636F91D96ED0B1C5, 0x24C5EB30C5374EF1, 0x97EBA78EC690119E,
    0xAB911EE392F8B099, 0x18BF525D915FEFF6, 0x5F1528B43AB810C2, 0xEC3B640A391F4FAD,
    0x27E05A6E926952CC, 0x94CE16D091CE0DA3, 0xD3646C393A29F297, 0x604A2087398EADF8,
    0x5C3099EA6DE60CFF, 0xEF1ED5546E415390, 0xA8B4AFBDC5A6ACA4, 0x1B9AE303C601F3CB,
    0x56ED3E2F9E224471, 0xE5C372919D851B1E, 0xA26908783662E42A, 0x114744C635C5BB45,
    0x2D3DFDAB61AD1A42, 0x9E13B115620A452D, 0xD9B9CBFCC9EDBA19, 0x6A978742CA4AE576,
    0xA14CB926613CF817, 0x1262F598629BA778, 0x55C88F71C97C584C, 0xE6E6C3CFCADB0723,
    0xDA9C7AA29EB3A624, 0x69B2361C9D14F94B, 0x2E184CF536F3067F, 0x9D36004B35545910,
    0x2B769F17CF112238, 0x9858D3A9CCB67D57, 0xDFF2A94067518263, 0x6CDCE5FE64F6DD0C,
    0x50A65C93309E7C0B, 0xE388102D33392364, 0xA4226AC498DEDC50, 0x170C267A9B79833F,
    0xDCD7181E300F9E5E, 0x6FF954A033A8C131, 0x28532E49984F3E05, 0x9B7D62F79BE8616A,
    0xA707DB9ACF80C06D, 0x14299724CC279F02, 0x5383EDCD67C06036, 0xE0ADA17364673F59]"

text \<open>The elements of the slice are of type \<open>char\<close> and are sign-extended before the mask.\<close>

definition crc64_partial :: "bytes \<Rightarrow> u64 \<Rightarrow> u64" where
  "crc64_partial data crc =
     fold (\<lambda>p crc. crc64_table ! unat ((crc XOR scast p) AND 0xff) XOR drop_bit 8 crc) data crc"

definition crc64 :: "bytes \<Rightarrow> u64" where
  "crc64 data = crc64_partial data (-1) XOR -1"

section \<open>Shift registers\<close>

definition crc16_bit :: "u16 \<Rightarrow> u16" where
  "crc16_bit s = (if bit s 15 then push_bit 1 s XOR 0x1021 else push_bit 1 s)"

definition crc16_byte :: "u8 \<Rightarrow> u16 \<Rightarrow> u16" where
  "crc16_byte c s = (crc16_bit ^^ 8) (s XOR push_bit 8 (ucast c))"

definition crc64_bit :: "u64 \<Rightarrow> u64" where
  "crc64_bit s = (if bit s 0 then drop_bit 1 s XOR 0xC96C5795D7870F42 else drop_bit 1 s)"

definition crc64_byte :: "u8 \<Rightarrow> u64 \<Rightarrow> u64" where
  "crc64_byte c s = (crc64_bit ^^ 8) (s XOR ucast c)"

text \<open>A register is linear, and after \<open>n\<close> steps it still is.\<close>

lemma push_bit_xor_word: "push_bit n (x XOR y) = push_bit n x XOR push_bit n (y :: 'a::len word)"
  by (rule bit_word_eqI) (auto simp: bit_simps)

lemma drop_bit_xor_word: "drop_bit n (x XOR y) = drop_bit n x XOR drop_bit n (y :: 'a::len word)"
  by (rule bit_word_eqI) (auto simp: bit_simps)

lemma linear_funpow:
  fixes f :: "'a::len word \<Rightarrow> 'a word"
  assumes "\<And>x y. f (x XOR y) = f x XOR f y"
  shows "(f ^^ n) (x XOR y) = (f ^^ n) x XOR (f ^^ n) y"
  by (induction n) (simp_all add: assms)

lemma crc16_bit_xor: "crc16_bit (x XOR y) = crc16_bit x XOR crc16_bit y"
  by (simp add: crc16_bit_def push_bit_xor_word bit_xor_iff xor_simps)

lemma crc64_bit_xor: "crc64_bit (x XOR y) = crc64_bit x XOR crc64_bit y"
  by (simp add: crc64_bit_def drop_bit_xor_word bit_xor_iff xor_simps)

lemmas crc_linear = linear_funpow [of crc16_bit, OF crc16_bit_xor] linear_funpow [of crc64_bit, OF crc64_bit_xor]

text \<open>
  The tables hold eight steps of the register. A table of a linear function is spanned by its values at
  the powers of two.
\<close>

fun xor_span :: "'a::len word list \<Rightarrow> 'a word list" where
  "xor_span [] = [0]"
| "xor_span (b # bs) = (let l = xor_span bs in l @ map (\<lambda>x. x XOR b) l)"

lemma funpow_8: "(f ^^ 8) x = f (f (f (f (f (f (f (f x)))))))"
  by (simp add: numeral_eq_Suc)

lemma crc16_basis:
  "map (\<lambda>b. (crc16_bit ^^ 8) b) [0x8000, 0x4000, 0x2000, 0x1000, 0x800, 0x400, 0x200, 0x100] =
   [0x9188, 0x48C4, 0x2462, 0x1231, 0x8108, 0x4084, 0x2042, 0x1021]"
  by (simp add: funpow_8 crc16_bit_def)

lemma crc16_table_span: "crc16_table = xor_span [0x9188, 0x48C4, 0x2462, 0x1231, 0x8108, 0x4084, 0x2042, 0x1021]"
  unfolding crc16_table_def by (simp only: xor_span.simps Let_def list.map append.simps) simp

lemma crc64_basis:
  "map (\<lambda>b. (crc64_bit ^^ 8) b) [0x80, 0x40, 0x20, 0x10, 0x8, 0x4, 0x2, 0x1] =
   [0xC96C5795D7870F42, 0x64B62BCAEBC387A1, 0xFB374270A266CC92, 0x7D9BA13851336649,
    0xF7A18709FF1EBC66, 0x7BD0C384FF8F5E33, 0xF4843657A840A05B, 0xB32E4CBE03A75F6F]"
  by (simp add: funpow_8 crc64_bit_def)

lemma crc64_table_span:
  "crc64_table = xor_span [0xC96C5795D7870F42, 0x64B62BCAEBC387A1, 0xFB374270A266CC92, 0x7D9BA13851336649,
    0xF7A18709FF1EBC66, 0x7BD0C384FF8F5E33, 0xF4843657A840A05B, 0xB32E4CBE03A75F6F]"
  unfolding crc64_table_def by (simp only: xor_span.simps Let_def list.map append.simps) simp

lemma word_of_nat_top_bit:
  assumes "2 ^ n \<le> i" "i < 2 ^ Suc n"
  shows "word_of_nat (i - 2 ^ n) XOR push_bit n 1 = (word_of_nat i :: 'a::len word)"
proof -
  obtain j where i: "i = j + 2 ^ n" "j < 2 ^ n"
    using assms by (metis add.commute le_add_diff_inverse less_diff_conv2 mult_2 power_Suc)
  have "\<not> bit j n"
    using i(2) by (simp add: bit_iff_odd)
  then have "i = j XOR push_bit n 1"
    unfolding i(1) by (intro bit_eqI)
      (metis (no_types) and_exp_eq_0_iff_not_bit disjunctive_add_eq_xor push_bit_of_1)
  then have "word_of_nat i = (word_of_nat (j XOR push_bit n 1) :: 'a word)"
    by simp
  also have "\<dots> = word_of_nat j XOR push_bit n 1"
    by (rule bit_word_eqI) (auto simp: bit_simps)
  finally show ?thesis
    by (simp add: i(1))
qed

lemma xor_span_nth:
  fixes f :: "'a::len word \<Rightarrow> 'b::len word"
  assumes "\<And>x y. f (x XOR y) = f x XOR f y" "i < 2 ^ n"
  shows "xor_span (map (\<lambda>k. f (push_bit k 1)) (rev [0..<n])) ! i = f (word_of_nat i)"
proof -
  have zero: "f 0 = 0"
    using assms(1) [of 0 0] by simp
  have len: "length (xor_span bs) = 2 ^ length bs" for bs :: "'b word list"
    by (induction bs) (simp_all add: Let_def)
  show ?thesis
    using assms(2)
  proof (induction n arbitrary: i)
    case (Suc n)
    show ?case
    proof (cases "i < 2 ^ n")
      case False
      then have "i - 2 ^ n < 2 ^ n"
        using Suc.prems by simp
      with False show ?thesis
        using Suc.IH [of "i - 2 ^ n"] Suc.prems word_of_nat_top_bit [of n i, where 'a = 'a]
        by (simp add: nth_append len Let_def assms(1) [symmetric])
    qed (use Suc.IH in \<open>simp add: nth_append len Let_def\<close>)
  qed (simp add: zero)
qed

lemma crc16_table_nth: "crc16_table ! unat c = (crc16_bit ^^ 8) (push_bit 8 (ucast c))" for c :: u8
proof -
  have b: "map (\<lambda>k. (crc16_bit ^^ 8) (push_bit 8 (push_bit k 1))) (rev [0..<8]) =
      [0x9188, 0x48C4, 0x2462, 0x1231, 0x8108, 0x4084, 0x2042, 0x1021]"
    using crc16_basis by (simp add: upt_rec)
  have "xor_span (map (\<lambda>k. (crc16_bit ^^ 8) (push_bit 8 (push_bit k 1))) (rev [0..<8])) ! unat c =
      (crc16_bit ^^ 8) (push_bit 8 (word_of_nat (unat c)))"
    by (rule xor_span_nth) (simp_all add: crc_linear push_bit_xor_word)
  then show ?thesis
    by (simp only: b crc16_table_span of_nat_unat)
qed

lemma crc64_table_nth: "crc64_table ! unat c = (crc64_bit ^^ 8) (ucast c)" for c :: u8
proof -
  have b: "map (\<lambda>k. (crc64_bit ^^ 8) (push_bit k 1)) (rev [0..<8]) =
      map (\<lambda>b. (crc64_bit ^^ 8) b) [0x80, 0x40, 0x20, 0x10, 0x8, 0x4, 0x2, 0x1]"
    by (simp add: upt_rec)
  have "xor_span (map (\<lambda>k. (crc64_bit ^^ 8) (push_bit k 1)) (rev [0..<8])) ! unat c =
      (crc64_bit ^^ 8) (word_of_nat (unat c))"
    by (rule xor_span_nth) (simp_all add: crc_linear)
  then show ?thesis
    by (simp only: b crc64_basis crc64_table_span of_nat_unat)
qed

section \<open>The code computes the register\<close>

lemma crc16_bit_shift: "\<lbrakk>n + k \<le> 16; \<And>i. bit s i \<Longrightarrow> i < n\<rbrakk> \<Longrightarrow> (crc16_bit ^^ k) s = push_bit k s"
proof (induction k)
  case (Suc k)
  have "\<not> bit s (15 - k)"
  proof
    assume "bit s (15 - k)"
    then have "15 - k < n" by (rule Suc.prems(2))
    with Suc.prems(1) show False by simp
  qed
  then have "(crc16_bit ^^ k) s = push_bit k s" "\<not> bit (push_bit k s) 15"
    using Suc by (auto simp: bit_simps)
  then show ?case
    by (simp add: crc16_bit_def [of "push_bit k s"])
qed simp

lemma crc64_bit_shift: "\<lbrakk>\<And>i. bit s i \<Longrightarrow> k \<le> i\<rbrakk> \<Longrightarrow> (crc64_bit ^^ k) s = drop_bit k s"
proof (induction k)
  case (Suc k)
  have "(crc64_bit ^^ k) s = drop_bit k s"
    by (rule Suc.IH) (use Suc.prems in fastforce)
  moreover have "\<not> bit (drop_bit k s) 0"
    using Suc.prems [of k] by (auto simp: bit_simps)
  ultimately show ?case
    by (simp add: crc64_bit_def [of "drop_bit k s"] drop_bit_drop_bit)
qed simp

lemma crc16_step_register: "ucast (crc16_step c crc) = crc16_byte c (ucast crc)"
proof -
  define s :: u16 where "s = ucast crc"
  have i: "unat ((ucast c XOR drop_bit 8 crc) AND 0xff) = unat (c XOR ucast (drop_bit 8 s))"
    by (simp only: unat_and_ff) (rule arg_cong [of _ _ unat], rule bit_word_eqI, auto simp: bit_simps s_def)
  have "ucast (crc16_step c crc) = crc16_table ! unat (c XOR ucast (drop_bit 8 s)) XOR push_bit 8 s"
    by (simp only: crc16_step_def Let_def i) (rule bit_word_eqI, auto simp: bit_simps s_def)
  also have "\<dots> = (crc16_bit ^^ 8) (push_bit 8 (ucast (c XOR ucast (drop_bit 8 s)))) XOR (crc16_bit ^^ 8) (take_bit 8 s)"
    by (subst crc16_bit_shift [where n = 8]) (auto simp: crc16_table_nth bit_simps intro!: bit_word_eqI)
  also have "\<dots> = crc16_byte c s"
    unfolding crc16_byte_def crc_linear(1) [symmetric]
    by (rule arg_cong [of _ _ "crc16_bit ^^ 8"], rule bit_word_eqI) (auto simp: bit_simps)
  finally show ?thesis
    by (simp only: s_def)
qed

lemma crc16_register: "crc16 data = fold crc16_byte data 0"
proof -
  have "ucast (fold crc16_step data crc) = fold crc16_byte data (ucast crc)" for crc
    by (induction data arbitrary: crc) (simp_all add: crc16_step_register)
  from this [of 0] show ?thesis
    by (simp add: crc16_def)
qed

lemma crc64_register: "crc64 data = fold crc64_byte data (-1) XOR -1"
proof -
  have step: "crc64_table ! unat ((crc XOR scast p) AND 0xff) XOR drop_bit 8 crc = crc64_byte p crc" for crc and p :: u8
  proof -
    have "(crc XOR scast p) AND 0xff = take_bit 8 (crc XOR scast p)"
      by (simp add: take_bit_eq_mask mask_eq_exp_minus_1)
    also have "\<dots> = ucast (ucast crc XOR p)"
    proof (rule bit_word_eqI)
      show "bit (take_bit 8 (crc XOR scast p)) n = bit (ucast (ucast crc XOR p) :: u64) n" for n
        by (cases "n = 7") (auto simp: bit_simps min_def dest: bit_u8_less)
    qed
    finally have "unat ((crc XOR scast p) AND 0xff) = unat (ucast crc XOR p)"
      by (simp add: unsigned_ucast_eq take_bit_nat_eq_self less_trans [OF unat_u8_less])
    moreover have "(crc64_bit ^^ 8) (push_bit 8 (drop_bit 8 crc)) = drop_bit 8 crc"
      by (subst crc64_bit_shift) (auto simp: bit_simps intro!: bit_word_eqI dest!: bit_imp_le_length [of crc])
    ultimately have "crc64_table ! unat ((crc XOR scast p) AND 0xff) XOR drop_bit 8 crc =
        (crc64_bit ^^ 8) (ucast (ucast crc XOR p)) XOR (crc64_bit ^^ 8) (push_bit 8 (drop_bit 8 crc))"
      by (simp add: crc64_table_nth)
    also have "\<dots> = crc64_byte p crc"
      unfolding crc64_byte_def crc_linear(2) [symmetric]
      by (rule arg_cong [of _ _ "crc64_bit ^^ 8"], rule bit_word_eqI) (auto simp: bit_simps)
    finally show ?thesis .
  qed
  have "crc64_partial data crc = fold crc64_byte data crc" for crc
    by (induction data arbitrary: crc) (simp_all add: crc64_partial_def step)
  then show ?thesis
    by (simp add: crc64_def)
qed


section \<open>Bursts of errors\<close>

text \<open>
  A message as a sequence of bits, the most significant bit of each byte first, and the register fed
  with one bit at a time.
\<close>

definition crc16_in :: "bool \<Rightarrow> u16 \<Rightarrow> u16" where
  "crc16_in b s = crc16_bit (s XOR (if b then 0x8000 else 0))"

fun at_top :: "bool list \<Rightarrow> u16" where
  "at_top [] = 0"
| "at_top (b # bs) = (if b then 0x8000 else 0) XOR drop_bit 1 (at_top bs)"

lemma bit_u16_beyond [simp]: "16 \<le> n \<Longrightarrow> \<not> bit (x :: u16) n"
  by (auto dest: bit_imp_le_length)

lemma bit_0x8000: "bit (0x8000 :: u16) i \<longleftrightarrow> i = 15"
  using bit_exp_iff [of 15 i, where 'a = u16] by auto

lemma bit_at_top: "length bs \<le> 16 \<Longrightarrow> bit (at_top bs) i \<longleftrightarrow> i < 16 \<and> 15 - i < length bs \<and> bs ! (15 - i)"
proof (induction bs arbitrary: i)
  case (Cons b bs)
  have "bit (at_top (b # bs)) i \<longleftrightarrow> (b \<and> i = 15) \<noteq> bit (at_top bs) (Suc i)"
    by (cases b) (simp_all only: at_top.simps if_True if_False bit_xor_iff bit_drop_bit_eq bit_0x8000 o_apply
      plus_1_eq_Suc xor.left_neutral simp_thms not_True_eq_False)
  also have "\<dots> \<longleftrightarrow> i < 16 \<and> 15 - i < length (b # bs) \<and> (b # bs) ! (15 - i)"
  proof -
    consider "i < 15" | "i = 15" | "15 < i" by linarith
    then show ?thesis
    proof cases
      case 1
      then have "15 - i = Suc (14 - i)" "15 - Suc i = 14 - i" by simp_all
      with 1 show ?thesis
        using Cons by simp
    qed simp_all
  qed
  finally show ?case .
qed simp

lemma crc16_bit_drop: "\<not> bit x 0 \<Longrightarrow> crc16_bit (drop_bit 1 x) = x"
proof -
  assume "\<not> bit x 0"
  then have "push_bit 1 (drop_bit 1 x) = x"
    by (intro bit_word_eqI, case_tac n) (simp_all only: bit_push_bit_iff bit_drop_bit_eq o_apply, simp_all)
  then show ?thesis
    by (simp add: crc16_bit_def bit_drop_bit_eq)
qed

lemma crc16_in_fold: "length bs \<le> 16 \<Longrightarrow> fold crc16_in bs s = (crc16_bit ^^ length bs) (s XOR at_top bs)"
proof (induction bs arbitrary: s)
  case (Cons b bs)
  define t where "t = drop_bit 1 (at_top bs)"
  have "crc16_bit t = at_top bs"
    unfolding t_def by (rule crc16_bit_drop) (use Cons.prems in \<open>simp add: bit_at_top\<close>)
  then have "crc16_in b s XOR at_top bs = crc16_bit (s XOR ((if b then 0x8000 else 0) XOR t))"
    unfolding crc16_in_def by (metis crc16_bit_xor xor.assoc)
  then have "fold crc16_in (b # bs) s = (crc16_bit ^^ length bs) (crc16_bit (s XOR at_top (b # bs)))"
    using Cons by (simp add: t_def)
  then show ?case
    by (simp only: list.size add_Suc_right add_0_right funpow_Suc_right o_apply)
qed simp

lemma crc16_byte_bits: "crc16_byte c s = fold crc16_in (bits_of 8 c) s"
proof -
  have "at_top (bits_of 8 c) = push_bit 8 (ucast c)"
    by (rule bit_word_eqI) (auto simp: bit_at_top bits_of_def bit_simps)
  then show ?thesis
    by (simp add: crc16_in_fold crc16_byte_def bits_of_def)
qed

lemma crc16_bits: "fold crc16_byte data s = fold crc16_in (concat (map (bits_of 8) data)) s"
  by (induction data arbitrary: s) (simp_all add: crc16_byte_bits)

lemma crc16_bit_inj: "crc16_bit s = 0 \<Longrightarrow> s = 0"
proof -
  assume 0: "crc16_bit s = 0"
  have "\<not> bit (push_bit 1 s) 0" "bit (0x1021 :: u16) 0"
    by (simp_all only: bit_push_bit_iff) simp_all
  then have "bit (push_bit 1 s XOR 0x1021) 0"
    by (simp only: bit_xor_iff) simp
  with 0 have 15: "\<not> bit s 15"
    using bit_0 [of 0] by (metis crc16_bit_def even_zero)
  with 0 have push: "push_bit 1 s = 0"
    by (simp only: crc16_bit_def if_False)
  show "s = 0"
  proof (rule bit_word_eqI)
    fix n assume "n < LENGTH(16)"
    then have "n = 15 \<or> bit (push_bit 1 s) (Suc n) = bit s n"
      by (simp only: bit_push_bit_iff) auto
    with 15 show "bit s n = bit 0 n"
      by (auto simp only: push bit_0_eq bot_apply bot_bool_def)
  qed
qed

lemma crc16_steps_inj: "(crc16_bit ^^ n) s = 0 \<Longrightarrow> s = 0"
  by (induction n) (auto dest: crc16_bit_inj)

lemma crc16_in_xor: "crc16_in b s XOR crc16_in d t = crc16_in (b \<noteq> d) (s XOR t)"
  by (auto simp: crc16_in_def crc16_bit_xor crc16_bit_def [of 0] xor_simps)

lemma crc16_fold_xor:
  "length bs = length ds \<Longrightarrow>
   fold crc16_in bs s XOR fold crc16_in ds t = fold crc16_in (map2 (\<noteq>) bs ds) (s XOR t)"
  by (induction bs ds arbitrary: s t rule: list_induct2) (simp_all add: crc16_in_xor)

lemma crc16_zeros: "crc16_in False ^^ n = crc16_bit ^^ n"
  by (rule arg_cong [of _ _ "\<lambda>f. f ^^ n"]) (simp add: crc16_in_def fun_eq_iff)

lemma map2_same: "map2 (\<noteq>) q q = replicate (length q) False"
  by (induction q) simp_all

text \<open>
  The register tells any two messages of one length apart that differ only inside a window of at most
  16 bits, whatever the state before and whatever follows.
\<close>

lemma crc16_detects_burst:
  assumes "fold crc16_in (p @ bs @ q) s = fold crc16_in (p @ ds @ q) s"
    and "length bs = length ds" "length bs \<le> 16"
  shows "bs = ds"
proof -
  define t where "t = fold crc16_in p s"
  have "fold crc16_in q (fold crc16_in bs t) XOR fold crc16_in q (fold crc16_in ds t) = 0"
    using assms(1) by (simp add: t_def)
  then have "(crc16_in False ^^ length q) (fold crc16_in bs t XOR fold crc16_in ds t) = 0"
    by (simp only: crc16_fold_xor map2_same fold_replicate)
  then have "fold crc16_in bs t XOR fold crc16_in ds t = 0"
    by (simp only: crc16_zeros crc16_steps_inj)
  then have "fold crc16_in (map2 (\<noteq>) bs ds) 0 = 0"
    by (simp add: crc16_fold_xor assms)
  then have z: "at_top (map2 (\<noteq>) bs ds) = 0"
    using assms by (auto simp: crc16_in_fold dest: crc16_steps_inj)
  show ?thesis
  proof (rule nth_equalityI)
    fix i assume "i < length bs"
    then have "\<not> map2 (\<noteq>) bs ds ! i"
      using bit_at_top [of "map2 (\<noteq>) bs ds" "15 - i", unfolded z] assms(2,3) by simp
    then show "bs ! i = ds ! i"
      using \<open>i < length bs\<close> assms(2) by simp
  qed (fact assms)
qed

text \<open>A message followed by its check leaves the register empty, and no other check does.\<close>

lemma word_xor_eq_0: "x XOR y = 0 \<longleftrightarrow> x = y" for x y :: "'a::len word"
  by (metis xor.right_neutral xor_cancel_left xor_self_word)

lemma crc16_append:
  "crc16 (data @ [a, b]) = 0 \<longleftrightarrow> crc16 data = push_bit 8 (ucast a) XOR ucast b"
proof -
  define s where "s = crc16 data"
  have "(crc16_bit ^^ 8) (ucast b) = push_bit 8 (ucast b)"
    by (rule crc16_bit_shift [where n = 8]) (auto simp: bit_simps dest: bit_u8_less)
  then have "crc16_byte b (crc16_byte a s) = (crc16_bit ^^ 8) ((crc16_bit ^^ 8) (s XOR (push_bit 8 (ucast a) XOR ucast b)))"
    by (simp add: crc16_byte_def crc_linear xor_simps)
  also have "\<dots> = 0 \<longleftrightarrow> s XOR (push_bit 8 (ucast a) XOR ucast b) = 0"
    using crc16_bit_shift [where n = 0 and s = 0] by (auto dest!: crc16_steps_inj)
  finally show ?thesis
    by (simp add: crc16_register s_def word_xor_eq_0)
qed

section \<open>Properties\<close>

text \<open>
  C24: the checksums by tables are shift registers: \<open>crc16\<close> has the polynomial \<open>0x1021\<close> and
  starts from zero, \<open>crc64\<close> is reflected and inverts its register before and after. Two bytes after the data make
  \<open>crc16\<close> zero exactly when they are its value, the upper byte first.
\<close>

theorem checksums_are_registers:
  "crc16 data = fold crc16_byte data 0 \<and> crc64 data = fold crc64_byte data (-1) XOR -1 \<and>
   (crc16 (data @ [a, b]) = 0 \<longleftrightarrow> crc16 data = push_bit 8 (ucast a) XOR ucast b)"
  by (intro conjI crc16_register crc64_register crc16_append)

end
