(* ===== verification/Buff_Base64.thy ===== *)
theory Buff_Base64
  imports Base64 Checksum
begin

text \<open>
  \<open>crypto/common/util.cpp\<close>: the second coder for base 64 of the library, which works on buffers and
  knows both alphabets at once, and the text form of ADNL identifiers. Sizes are numbers of type
  \<open>size_t\<close>, here of 64 bits; the one subtraction that can wrap around is written out. \<open>None\<close> is an
  access outside a buffer or a failed \<open>CHECK\<close>.
\<close>

section \<open>The code\<close>

definition compute_base64_encoded_size :: "nat \<Rightarrow> nat" where
  "compute_base64_encoded_size bindata_size = push_bit 2 ((bindata_size + 2) div 3)"

definition base64_table :: bytes where
  "base64_table = ascii ''ABCDEFGHIJKLMNOPQRSTUVWXYZabcdefghijklmnopqrstuvwxyz0123456789+/''"

definition base64_url_table :: bytes where
  "base64_url_table = ascii ''ABCDEFGHIJKLMNOPQRSTUVWXYZabcdefghijklmnopqrstuvwxyz0123456789-_''"

text \<open>The first half of the table; the entries without an initialiser are zero.\<close>

definition base64_dec_ascii :: bytes where
  "base64_dec_ascii =
   [0, 0, 0, 0, 0, 0, 0, 0, 0, 0, 0, 0, 0, 0, 0, 0,
    0, 0, 0, 0, 0, 0, 0, 0, 0, 0, 0, 0, 0, 0, 0, 0,
    0, 0, 0, 0, 0, 0, 0, 0, 0, 0, 0, 0x7E, 0, 0xBE, 0, 0x7F,
    0xF4, 0xF5, 0xF6, 0xF7, 0xF8, 0xF9, 0xFA, 0xFB, 0xFC, 0xFD, 0, 0, 0, 1, 0, 0,
    0, 0xC0, 0xC1, 0xC2, 0xC3, 0xC4, 0xC5, 0xC6, 0xC7, 0xC8, 0xC9, 0xCA, 0xCB, 0xCC, 0xCD, 0xCE,
    0xCF, 0xD0, 0xD1, 0xD2, 0xD3, 0xD4, 0xD5, 0xD6, 0xD7, 0xD8, 0xD9, 0, 0, 0, 0, 0xBF,
    0, 0xDA, 0xDB, 0xDC, 0xDD, 0xDE, 0xDF, 0xE0, 0xE1, 0xE2, 0xE3, 0xE4, 0xE5, 0xE6, 0xE7, 0xE8,
    0xE9, 0xEA, 0xEB, 0xEC, 0xED, 0xEE, 0xEF, 0xF0, 0xF1, 0xF2, 0xF3, 0, 0, 0, 0, 0]"

definition base64_dec_table :: bytes where
  "base64_dec_table = base64_dec_ascii @ replicate 128 0"

text \<open>The loop over groups of three bytes, from the index \<open>i\<close> on; the bound is \<open>orig_size - 2\<close>.\<close>

function buff_encode_loop :: "bytes \<Rightarrow> bytes \<Rightarrow> nat \<Rightarrow> nat \<Rightarrow> (bytes \<times> nat) option" where
  "buff_encode_loop table raw bound i =
     (if i < bound then
        if i + 2 < length raw then
          let x = push_bit 16 (ucast (raw ! i)) OR push_bit 8 (ucast (raw ! (i + 1))) OR ucast (raw ! (i + 2)) :: u32
          in case buff_encode_loop table raw bound (i + 3) of
               None \<Rightarrow> None
             | Some (out, i) \<Rightarrow> Some (table ! unat (drop_bit 18 x AND 0x3f) # table ! unat (drop_bit 12 x AND 0x3f) #
                 table ! unat (drop_bit 6 x AND 0x3f) # table ! unat (x AND 0x3f) # out, i)
        else None
      else Some ([], i))"
  by pat_completeness auto
termination
  by (relation "measure (\<lambda>(_, raw, _, i). length raw - i)") auto

declare buff_encode_loop.simps [simp del]

definition buff_encode_tail :: "bytes \<Rightarrow> bytes \<Rightarrow> nat \<Rightarrow> bytes" where
  "buff_encode_tail table raw i =
     (if length raw - i = 1 then
        let x = push_bit 16 (ucast (raw ! i)) :: u32
        in [table ! unat (drop_bit 18 x AND 0x3f), table ! unat (drop_bit 12 x AND 0x3f), 0x3d, 0x3d]
      else if length raw - i = 2 then
        let x = push_bit 16 (ucast (raw ! i)) OR push_bit 8 (ucast (raw ! (i + 1))) :: u32
        in [table ! unat (drop_bit 18 x AND 0x3f), table ! unat (drop_bit 12 x AND 0x3f),
            table ! unat (drop_bit 6 x AND 0x3f), 0x3d]
      else [])"

definition buff_base64_encode :: "bytes \<Rightarrow> bytes \<Rightarrow> bool \<Rightarrow> (nat \<times> bytes) option" where
  "buff_base64_encode buffer raw base64_url =
     (let orig_size = length raw; res_size = compute_base64_encoded_size orig_size in
      if res_size > length buffer then Some (0, buffer)
      else
        let table = (if base64_url then base64_url_table else base64_table);
            bound = (orig_size + 2 ^ 64 - 2) mod 2 ^ 64
        in case buff_encode_loop table raw bound 0 of
             None \<Rightarrow> None
           | Some (out, i) \<Rightarrow>
               let out = out @ buff_encode_tail table raw i
               in if length out = res_size then Some (res_size, memcpy_at buffer 0 out) else None)"

definition str_base64_encode :: "bytes \<Rightarrow> bool \<Rightarrow> bytes option" where
  "str_base64_encode raw base64_url =
     (let res_size = compute_base64_encoded_size (length raw);
          s = replicate res_size 0
      in if res_size \<noteq> 0 then map_option snd (buff_base64_encode s raw base64_url) else Some s)"

definition decode_mode :: "bool \<Rightarrow> u8" where
  "decode_mode allow_base64_url = (if allow_base64_url then 0xc0 else 0x40)"

definition is_valid_base64 :: "bytes \<Rightarrow> bool \<Rightarrow> bool" where
  "is_valid_base64 encoded allow_base64_url =
     (if length encoded mod 4 \<noteq> 0 then False
      else let mode = decode_mode allow_base64_url;
               rest = dropWhile (\<lambda>c. base64_dec_table ! unat c AND mode \<noteq> 0) encoded
           in if length rest > 2 then False else dropWhile (\<lambda>c. c = 0x3d) rest = [])"

definition decoded_base64_size :: "bytes \<Rightarrow> bool \<Rightarrow> int" where
  "decoded_base64_size encoded allow_base64_url =
     (let n = length encoded in
      if n mod 4 \<noteq> 0 then -1
      else if n > 2 ^ 31 - 1 then -1
      else if n = 0 then 0
      else let s = int (n div 4 * 3) in
        if encoded ! (n - 1) = 0x3d then if encoded ! (n - 2) = 0x3d then s - 2 else s - 1 else s)"

text \<open>
  The four characters of a group. In the last group the \<open>q\<close> characters at the end are not looked at;
  everywhere else \<open>z\<close> has to belong to the alphabet or to be 1, the entry of \<open>=\<close>.
\<close>

definition buff_decode_char :: "u8 \<Rightarrow> nat \<Rightarrow> bool \<Rightarrow> u8 \<Rightarrow> nat \<Rightarrow> u32 \<Rightarrow> u32 option" where
  "buff_decode_char mode q is_last c j x =
     (let z = base64_dec_table ! unat c in
      if z AND mode = 0 \<and> z \<noteq> 1 \<and> (\<not> is_last \<or> j + q < 4) then None
      else Some (push_bit 6 x OR ucast (z AND 0x3f)))"

definition buff_decode_group :: "u8 \<Rightarrow> nat \<Rightarrow> bool \<Rightarrow> bytes \<Rightarrow> u32 option" where
  "buff_decode_group mode q is_last g =
     fold (\<lambda>j x. Option.bind x (buff_decode_char mode q is_last (g ! j) j)) [0..<4] (Some 0)"

text \<open>The bytes written before the loop ends, and whether it ended without an error.\<close>

fun buff_decode_loop :: "u8 \<Rightarrow> nat \<Rightarrow> bytes \<Rightarrow> bytes \<times> bool" where
  "buff_decode_loop mode q (a # b # c # d # rest) =
     (case buff_decode_group mode q (rest = []) [a, b, c, d] of
        None \<Rightarrow> ([], False)
      | Some x \<Rightarrow>
          if rest \<noteq> [] then
            let (out, ok) = buff_decode_loop mode q rest
            in (ucast (drop_bit 16 x) # ucast (drop_bit 8 x) # ucast x # out, ok)
          else (map (\<lambda>k. ucast (drop_bit 16 (push_bit (8 * k) x))) [0..<3 - q], True))"
| "buff_decode_loop mode q _ = ([], True)"

definition trailing_equals :: "bytes \<Rightarrow> nat" where
  "trailing_equals encoded =
     (let n = length encoded in if encoded ! (n - 1) = 0x3d then if encoded ! (n - 2) = 0x3d then 2 else 1 else 0)"

definition buff_base64_decode :: "bytes \<Rightarrow> bytes \<Rightarrow> bool \<Rightarrow> (nat \<times> bytes) option" where
  "buff_base64_decode buffer encoded allow_base64_url =
     (if length encoded mod 4 \<noteq> 0 \<or> length encoded = 0 then Some (0, buffer)
      else
        let n = length encoded div 4; q = trailing_equals encoded in
        if length buffer + q < n * 3 then Some (0, buffer)
        else
          let (out, ok) = buff_decode_loop (decode_mode allow_base64_url) q encoded in
          if length out > length buffer then None
          else Some (if ok then length out else 0, memcpy_at buffer 0 out))"

definition str_base64_decode :: "bytes \<Rightarrow> bool \<Rightarrow> bytes option" where
  "str_base64_decode encoded allow_base64_url =
     (let s = decoded_base64_size encoded allow_base64_url in
      if s \<le> 0 then Some []
      else case buff_base64_decode (replicate (nat s) 0) encoded allow_base64_url of
             None \<Rightarrow> None
           | Some (r, res) \<Rightarrow> if r = 0 then Some [] else if r = nat s then Some res else None)"

text \<open>\<open>td::base64_decode\<close> of this file returns a \<open>BufferSlice\<close>; otherwise it is the same.\<close>

definition base64_decode_slice :: "bytes \<Rightarrow> bool \<Rightarrow> bytes option" where
  "base64_decode_slice encoded allow_base64_url =
     (let s = decoded_base64_size encoded allow_base64_url in
      if s \<le> 0 then Some []
      else case buff_base64_decode (replicate (nat s) 0) encoded allow_base64_url of
             None \<Rightarrow> None
           | Some (r, res) \<Rightarrow> if r = 0 then Some [] else if r = nat s then Some res else None)"

definition adnl_id_encode :: "bytes \<Rightarrow> bool \<Rightarrow> bytes text_result" where
  "adnl_id_encode adnl_id upper_case =
     (if length adnl_id \<noteq> 32 then Inl Wrong_adnl_id_size
      else let buf = 0x2d # adnl_id;
               hash = crc16 (take 33 buf);
               buf = buf @ [ucast (drop_bit 8 hash AND 255), ucast (hash AND 255)]
           in Inr (drop 1 (base32_encode buf upper_case)))"

definition adnl_id_decode :: "bytes \<Rightarrow> bytes text_result" where
  "adnl_id_decode adnl_id =
     (if length adnl_id \<noteq> 55 then Inl Wrong_adnl_id_size
      else case base32_decode (0x66 # adnl_id) of
        Inl e \<Rightarrow> Inl e
      | Inr decoded \<Rightarrow>
          if decoded ! 0 \<noteq> 0x2d then Inl Invalid_first_byte
          else let got_hash = push_bit 8 (ucast (decoded ! 33)) OR ucast (decoded ! 34) :: u16;
                   hash = crc16 (take 33 decoded)
               in if hash \<noteq> got_hash then Inl Checksum_mismatch else Inr (take 32 (drop 1 decoded)))"

section \<open>The encoder\<close>

lemma drop_18_and: "drop_bit 18 (push_bit 16 (ucast (a :: u8)) :: u32) AND 63 = drop_bit 18 (push_bit 16 (ucast a))"
  by (rule bit_word_eqI) (auto simp: and_63 bit_simps dest: bit_u8_less)

lemma drop_18_join: "drop_bit 18 (push_bit 16 (ucast a) OR x OR y) AND 63 = drop_bit 18 (push_bit 16 (ucast (a :: u8)) :: u32)"
  if "x = push_bit 8 (ucast (b :: u8))" "y = ucast (d :: u8)"
  unfolding that by (rule bit_word_eqI) (auto simp: and_63 bit_simps dest: bit_u8_less)

lemma drop_18_two: "drop_bit 18 (push_bit 16 (ucast a) OR push_bit 8 (ucast b)) AND 63 = drop_bit 18 (push_bit 16 (ucast (a :: u8)) :: u32)" for b :: u8
  by (rule bit_word_eqI) (auto simp: and_63 bit_simps dest: bit_u8_less)

lemma drop_12_join: "drop_bit 12 (x OR ucast (d :: u8)) AND 63 = drop_bit 12 x AND 63" for x :: u32
  by (rule bit_word_eqI) (auto simp: and_63 bit_simps dest: bit_u8_less)

lemma encode_three:
  fixes a b d :: u8
  defines "x \<equiv> push_bit 16 (ucast a) OR push_bit 8 (ucast b) OR ucast d :: u32"
  shows "base64_encode_loop table True (a # b # d # r) =
    table ! unat (drop_bit 18 x AND 0x3f) # table ! unat (drop_bit 12 x AND 0x3f) #
    table ! unat (drop_bit 6 x AND 0x3f) # table ! unat (x AND 0x3f) # base64_encode_loop table True r"
proof -
  have "base64_encode_loop table True (a # b # d # r) =
      base64_encode_round table True (a # b # d # r) @ base64_encode_loop table True r"
    by (subst base64_encode_loop.simps) simp
  moreover have "drop_bit 18 x AND 63 = drop_bit 18 (push_bit 16 (ucast a))"
    unfolding x_def by (rule drop_18_join) (rule refl)+
  moreover have "x = push_bit 16 (ucast a) OR push_bit 8 (ucast b) OR ucast d"
    by (simp only: x_def)
  moreover have "drop_bit 12 x AND 63 = drop_bit 12 (push_bit 16 (ucast a) OR push_bit 8 (ucast b)) AND 63"
    unfolding x_def or.assoc [symmetric] by (rule drop_12_join)
  ultimately show ?thesis
    by (simp add: base64_encode_round_def Let_def or.assoc del: drop_bit_or)
qed

lemma encode_tail:
  "length raw - i = k \<Longrightarrow> k \<le> 2 \<Longrightarrow> buff_encode_tail table raw i = base64_encode_loop table True (drop i raw)"
proof -
  assume k: "length raw - i = k" "k \<le> 2"
  then consider "drop i raw = []" "k = 0" | a where "drop i raw = [a]" "k = 1" "raw ! i = a"
    | a b where "drop i raw = [a, b]" "k = 2" "raw ! i = a" "raw ! (i + 1) = b"
  proof -
    have "k = 0 \<or> k = 1 \<or> k = 2"
      using k(2) by linarith
    then show ?thesis
      using k that Cons_nth_drop_Suc [of i raw] Cons_nth_drop_Suc [of "i + 1" raw] by fastforce
  qed
  then show ?thesis
  proof cases
    case 1
    with k show ?thesis
      by (simp add: buff_encode_tail_def base64_encode_loop.simps)
  next
    case 2
    with k show ?thesis
      by (subst base64_encode_loop.simps)
        (simp add: buff_encode_tail_def base64_encode_round_def Let_def drop_18_and base64_encode_loop.simps [of _ _ "[]"] del: drop_bit_or)
  next
    case 3
    with k show ?thesis
      by (subst base64_encode_loop.simps)
        (simp add: buff_encode_tail_def base64_encode_round_def Let_def drop_18_two base64_encode_loop.simps [of _ _ "[]"] del: drop_bit_or)
  qed
qed

lemma buff_encode_loop_result:
  "length raw - 2 = bound \<Longrightarrow> 2 \<le> length raw \<Longrightarrow> i \<le> length raw \<Longrightarrow>
   \<exists>out j. buff_encode_loop table raw bound i = Some (out, j) \<and>
     out @ buff_encode_tail table raw j = base64_encode_loop table True (drop i raw)"
proof (induction table raw bound i rule: buff_encode_loop.induct)
  case (1 table raw bound i)
  show ?case
  proof (cases "i < bound")
    case False
    then have "buff_encode_tail table raw i = base64_encode_loop table True (drop i raw)"
      using 1(2-4) by (intro encode_tail) auto
    with False show ?thesis
      by (simp add: buff_encode_loop.simps)
  next
    case True
    then have i: "i + 2 < length raw"
      using 1(2) by simp
    then have "drop i raw = raw ! i # raw ! (i + 1) # raw ! (i + 2) # drop (i + 3) raw"
      by (simp add: Cons_nth_drop_Suc [symmetric] numeral_eq_Suc)
    then show ?thesis
      using 1(1) [OF True i refl 1(2,3)] i True
      by (subst buff_encode_loop.simps) (auto simp: encode_three Let_def)
  qed
qed

lemma base64_tables: "base64_table = symbols64" "base64_url_table = url_symbols64"
  by (simp_all add: base64_table_def symbols64_def base64_url_table_def url_symbols64_def)

lemma encoded_length: "length (base64_encode_loop table True x) = compute_base64_encoded_size (length x)"
proof (induction "length x" arbitrary: x rule: less_induct)
  case less
  consider "x = []" | a where "x = [a]" | a b where "x = [a, b]" | a b d r where "x = a # b # d # r"
    by (metis list.exhaust)
  then show ?case
  proof cases
    case (4 a b d r)
    have "(length x + 2) div 3 = (length r + 2) div 3 + 1"
      using 4 by simp
    then show ?thesis
      using less [of r] 4 by (simp add: encode_three compute_base64_encoded_size_def push_bit_eq_mult)
  qed (simp_all add: base64_encode_loop.simps [of _ _ "[]"] base64_encode_loop.simps [of _ _ "_ # _"]
      base64_encode_round_def Let_def compute_base64_encoded_size_def push_bit_eq_mult)
qed

lemma buff_base64_encode_result:
  assumes "2 \<le> length raw" "length raw < 2 ^ 64" "compute_base64_encoded_size (length raw) \<le> length buffer"
  shows "buff_base64_encode buffer raw base64_url =
    Some (compute_base64_encoded_size (length raw),
      memcpy_at buffer 0 (base64_encode_loop (if base64_url then url_symbols64 else symbols64) True raw))"
proof -
  have bound: "(length raw + 2 ^ 64 - 2) mod 2 ^ 64 = length raw - 2"
    using assms(1,2) by (simp add: mod_if)
  obtain out j where out: "buff_encode_loop (if base64_url then url_symbols64 else symbols64) raw (length raw - 2) 0 = Some (out, j)"
      "out @ buff_encode_tail (if base64_url then url_symbols64 else symbols64) raw j =
        base64_encode_loop (if base64_url then url_symbols64 else symbols64) True raw"
    using buff_encode_loop_result [OF refl assms(1), of 0 "if base64_url then url_symbols64 else symbols64"] by auto
  then show ?thesis
    unfolding buff_base64_encode_def bound Let_def base64_tables
    using assms(3) by (simp only: out prod.case option.case encoded_length if_True refl not_less [symmetric] if_False)
qed

lemma str_base64_encode_result:
  assumes "length raw < 2 ^ 64"
  shows "str_base64_encode raw base64_url =
    (if length raw = 1 then None else Some (base64_encode_loop (if base64_url then url_symbols64 else symbols64) True raw))"
proof -
  consider "raw = []" | "length raw = 1" | "2 \<le> length raw"
    by (cases raw; cases "tl raw") auto
  then show ?thesis
  proof cases
    case 1
    then show ?thesis
      by (simp add: str_base64_encode_def compute_base64_encoded_size_def base64_encode_loop.simps)
  next
    case 2
    then have "buff_encode_loop table raw (2 ^ 64 - 1) 0 = None" for table
      by (subst buff_encode_loop.simps) simp
    with 2 show ?thesis
      by (simp add: str_base64_encode_def compute_base64_encoded_size_def buff_base64_encode_def Let_def push_bit_eq_mult)
  next
    case 3
    then have "compute_base64_encoded_size (length raw) \<noteq> 0"
      by (simp add: compute_base64_encoded_size_def push_bit_eq_mult)
    with 3 show ?thesis
      using buff_base64_encode_result [OF 3 assms, of "replicate (compute_base64_encoded_size (length raw)) 0"]
      by (simp add: str_base64_encode_def Let_def memcpy_at_def encoded_length)
  qed
qed
section \<open>The decoder\<close>

text \<open>The value of a character is the low half of its entry.\<close>

definition char_value :: "u8 \<Rightarrow> u32" where
  "char_value c = ucast (base64_dec_table ! unat c AND 0x3f)"

text \<open>The bits that a text carries, six for a character.\<close>

definition text_bits :: "bytes \<Rightarrow> bool list" where
  "text_bits s = concat (map (\<lambda>c. bits_of 6 (char_value c)) s)"

definition byte_bits :: "bytes \<Rightarrow> bool list" where
  "byte_bits b = concat (map (bits_of 8) b)"

lemma text_bits_simps [simp]: "text_bits [] = []" "text_bits (c # s) = bits_of 6 (char_value c) @ text_bits s"
  "text_bits (s @ t) = text_bits s @ text_bits t" "length (text_bits s) = 6 * length s"
  by (simp_all add: text_bits_def) (induction s; simp)

lemma byte_bits_simps [simp]: "byte_bits [] = []" "byte_bits (c # s) = bits_of 8 c @ byte_bits s"
  "byte_bits (s @ t) = byte_bits s @ byte_bits t" "length (byte_bits s) = 8 * length s"
  by (simp_all add: byte_bits_def) (induction s; simp)

lemma byte_bits_inject: "byte_bits b = byte_bits d \<longleftrightarrow> b = d"
proof
  show "byte_bits b = byte_bits d \<Longrightarrow> b = d"
  proof (induction b arbitrary: d)
    case Nil
    then have "length (byte_bits d) = 0"
      by (metis byte_bits_simps(1) list.size(3))
    then show ?case by simp
  next
    case (Cons x b)
    then have "8 * length d = 8 + 8 * length b"
      by (metis byte_bits_simps(2,4) length_append length_bits_of)
    then obtain y e where d: "d = y # e"
      by (cases d) auto
    with Cons show ?case
      by (simp add: bits_of_u8_inject)
  qed
qed simp

lemma byte_bits_take: "byte_bits (take k b) = take (8 * k) (byte_bits b)"
proof (induction b arbitrary: k)
  case (Cons x b)
  then show ?case
    by (cases k) simp_all
qed simp

definition group_bytes :: "u32 \<Rightarrow> bytes" where
  "group_bytes x = [ucast (drop_bit 16 x), ucast (drop_bit 8 x), ucast x]"

lemma bits_of_24:
  "bits_of 24 x = bits_of 6 (drop_bit 18 x) @ bits_of 6 (drop_bit 12 x) @ bits_of 6 (drop_bit 6 x) @ bits_of 6 (x :: u32)"
  "bits_of 24 x = byte_bits (group_bytes x)"
  using bits_of_append [of 6 18 x] bits_of_append [of 6 12 x] bits_of_append [of 6 6 x]
    bits_of_append [of 8 16 x] bits_of_append [of 8 8 x]
  by (simp_all add: group_bytes_def bits_of_ucast)

lemma group_tail: "q \<le> 3 \<Longrightarrow> map (\<lambda>k. ucast (drop_bit 16 (push_bit (8 * k) x))) [0..<3 - q] = take (3 - q) (group_bytes x)"
proof -
  have "map (\<lambda>k. ucast (drop_bit 16 (push_bit (8 * k) x))) [0..<3] = group_bytes x"
    by (auto simp: group_bytes_def upt_rec bit_simps intro!: bit_word_eqI)
  moreover have "map f [0..<3 - q] = take (3 - q) (map f [0..<3])" for f :: "nat \<Rightarrow> u8"
    by (subst take_map, subst take_upt) (simp_all only: add_0 diff_le_self)
  ultimately show ?thesis
    by (simp only:)
qed

lemma low_63: "z AND 0x3f = take_bit 6 z" for z :: u8
  by (simp add: take_bit_eq_mask mask_eq_exp_minus_1)

lemma char_value_less: "char_value c < 64"
proof -
  have "take_bit 6 (char_value c) = char_value c"
    by (rule bit_word_eqI) (auto simp: char_value_def low_63 bit_simps)
  then show ?thesis
    by (simp add: six_bits)
qed

lemma decode_char_value: "buff_decode_char mode q is_last c j x = Some y \<Longrightarrow> y = push_bit 6 x OR char_value c"
  by (auto simp: buff_decode_char_def char_value_def Let_def split: if_splits)

lemma decode_group_value:
  assumes "buff_decode_group mode q is_last [a, b, c, d] = Some x"
  shows "bits_of 24 x = text_bits [a, b, c, d]"
proof -
  have "x = join_values (char_value a) (char_value b) (char_value c) (char_value d)"
    using assms
    by (auto simp: buff_decode_group_def upt_rec bind_eq_Some_conv join_values_def push_bit_push_bit or.assoc
        dest!: decode_char_value)
  then show ?thesis
    using split_values [OF char_value_less char_value_less char_value_less char_value_less, of a b c d]
    by (simp add: bits_of_24(1)) (metis and_63 bits_of_take_bit order_refl)
qed

lemma decode_loop_bits:
  "\<lbrakk>buff_decode_loop mode q s = (out, True); length s mod 4 = 0; s \<noteq> []; q \<le> 2\<rbrakk> \<Longrightarrow>
   length out = 3 * (length s div 4) - q \<and> byte_bits out = take (8 * length out) (text_bits s)"
proof (induction mode q s arbitrary: out rule: buff_decode_loop.induct)
  case (1 mode q a b c d rest)
  then obtain x where x: "buff_decode_group mode q (rest = []) [a, b, c, d] = Some x"
    by (cases "buff_decode_group mode q (rest = []) [a, b, c, d]") auto
  note bits = decode_group_value [OF x]
  show ?case
  proof (cases "rest = []")
    case True
    then have out: "out = take (3 - q) (group_bytes x)"
      using 1(2,5) x by (simp add: group_tail)
    then have "length out = 3 - q"
      using 1(5) by (simp add: group_bytes_def)
    then show ?thesis
      using True by (simp only: out byte_bits_take bits_of_24(2) [symmetric] bits) simp
  next
    case False
    then obtain o' where o: "buff_decode_loop mode q rest = (o', True)" "out = group_bytes x @ o'"
      using 1(2) x by (auto simp: group_bytes_def split: prod.splits)
    have "length rest mod 4 = 0"
      using 1(3) by simp
    then have IH: "length o' = 3 * (length rest div 4) - q" "byte_bits o' = take (8 * length o') (text_bits rest)"
      using 1(1) [OF x False o(1)] False 1(5) by auto
    obtain k where k: "length rest = 4 * k"
      using \<open>length rest mod 4 = 0\<close> by (auto elim!: dvdE simp: mod_eq_0_iff_dvd)
    moreover have "k > 0"
      using False k by (cases k) auto
    ultimately have "length out = 3 * (length (a # b # c # d # rest) div 4) - q"
      using IH(1) k 1(5) by (simp add: o(2) group_bytes_def)
    moreover have "byte_bits out = take (8 * length out) (text_bits (a # b # c # d # rest))"
      using IH(2) bits by (simp add: o(2) bits_of_24(2) [symmetric]) (simp add: group_bytes_def)
    ultimately show ?thesis by simp
  qed
qed simp_all
lemma trailing_equals_le: "trailing_equals s \<le> 2"
  by (simp add: trailing_equals_def Let_def)

text \<open>What a successful call has written.\<close>

lemma buff_base64_decode_Some:
  assumes "buff_base64_decode buffer s allow = Some (r, buffer')" "r \<noteq> 0"
  obtains out where "length out = r" "r = 3 * (length s div 4) - trailing_equals s" "r \<le> length buffer"
    "buffer' = memcpy_at buffer 0 out" "byte_bits out = take (8 * r) (text_bits s)" "length s mod 4 = 0"
proof -
  define q where "q = trailing_equals s"
  obtain out ok where out: "buff_decode_loop (decode_mode allow) q s = (out, ok)"
    by (cases "buff_decode_loop (decode_mode allow) q s")
  have *: "length s mod 4 = 0" "s \<noteq> []" "ok" "r = length out" "buffer' = memcpy_at buffer 0 out" "length out \<le> length buffer"
    using assms out by (auto simp: buff_base64_decode_def q_def [symmetric] Let_def split: if_splits)
  then have "length out = 3 * (length s div 4) - q \<and> byte_bits out = take (8 * length out) (text_bits s)"
    using decode_loop_bits [of "decode_mode allow" q s out] out trailing_equals_le [of s] by (simp add: q_def)
  then show thesis
    using * by (intro that [of out]) (simp_all add: q_def)
qed

text \<open>No call writes outside its buffer, and the check at the end never fails.\<close>

lemma buff_decode_loop_length:
  "s \<noteq> [] \<Longrightarrow> length s mod 4 = 0 \<Longrightarrow> q \<le> 2 \<Longrightarrow> length (fst (buff_decode_loop mode q s)) \<le> 3 * (length s div 4) - q"
proof (induction mode q s rule: buff_decode_loop.induct)
  case (1 mode q a b c d rest)
  show ?case
  proof (cases "buff_decode_group mode q (rest = []) [a, b, c, d]")
    case (Some x)
    show ?thesis
    proof (cases "rest = []")
      case False
      then have "0 < length rest div 4"
        using 1(3) by (cases "length rest div 4") (auto simp: div_eq_0_iff)
      moreover have "length (fst (buff_decode_loop mode q rest)) \<le> 3 * (length rest div 4) - q"
        using 1(1) [OF Some False] 1(3,4) False by simp
      moreover have "length (a # b # c # d # rest) div 4 = Suc (length rest div 4)"
        by simp
      ultimately have "3 + length (fst (buff_decode_loop mode q rest)) \<le> 3 * (length (a # b # c # d # rest) div 4) - q"
        using 1(4) by simp
      then show ?thesis
        using Some False by (simp add: case_prod_beta)
    qed (use Some in simp)
  qed simp
qed simp_all

lemma buff_base64_decode_not_None: "buff_base64_decode buffer s allow \<noteq> None"
proof (cases "length s mod 4 \<noteq> 0 \<or> s = [] \<or> length buffer + trailing_equals s < length s div 4 * 3")
  case False
  then have "length s div 4 * 3 \<le> length buffer + trailing_equals s" "length s mod 4 = 0" "s \<noteq> []"
    by auto
  then have "length (fst (buff_decode_loop (decode_mode allow) (trailing_equals s) s)) \<le> length buffer"
    using buff_decode_loop_length [of s "trailing_equals s" "decode_mode allow"] trailing_equals_le [of s] by linarith
  with False show ?thesis
    by (simp add: buff_base64_decode_def Let_def case_prod_beta)
qed (auto simp: buff_base64_decode_def Let_def)

section \<open>The encoder and the decoder\<close>

text \<open>The entry of a character of either alphabet.\<close>

lemma length_dec_ascii: "length base64_dec_ascii = 128"
  by (simp add: base64_dec_ascii_def)

lemma dec_table_ascii: "k < 128 \<Longrightarrow> base64_dec_table ! k = base64_dec_ascii ! k"
  by (simp add: base64_dec_table_def nth_append length_dec_ascii)

lemma dec_table_std:
  "list_all2 (\<lambda>i z. z AND 0x40 \<noteq> 0 \<and> z AND 0xc0 \<noteq> 0 \<and> unat (z AND 0x3f) = i) [0..<64]
     (map (\<lambda>c. base64_dec_table ! unat c) symbols64)"
  by (simp add: symbols64_def ascii_def dec_table_ascii) (simp add: base64_dec_ascii_def upt_rec)

lemma dec_table_url:
  "list_all2 (\<lambda>i z. z AND 0xc0 \<noteq> 0 \<and> unat (z AND 0x3f) = i) [0..<64]
     (map (\<lambda>c. base64_dec_table ! unat c) url_symbols64)"
  by (simp add: url_symbols64_def ascii_def dec_table_ascii) (simp add: base64_dec_ascii_def upt_rec)

definition sym_of :: "bool \<Rightarrow> bytes" where
  "sym_of base64_url = (if base64_url then url_symbols64 else symbols64)"

lemma sym_of_char:
  assumes "v < 64"
  shows "char_value (sym_of url ! unat v) = v" "base64_dec_table ! unat (sym_of url ! unat v) AND 0xc0 \<noteq> 0"
    "\<not> url \<Longrightarrow> base64_dec_table ! unat (sym_of url ! unat v) AND 0x40 \<noteq> 0" "sym_of url ! unat v \<noteq> 0x3d"
proof -
  have v: "unat v < 64"
    using assms by (simp add: word_less_nat_alt)
  have "list_all2 (\<lambda>i z. (url \<or> z AND 0x40 \<noteq> 0) \<and> z AND 0xc0 \<noteq> 0 \<and> unat (z AND 0x3f) = i) [0..<64]
     (map (\<lambda>c. base64_dec_table ! unat c) (sym_of url))"
    unfolding sym_of_def by (cases url) (auto intro: list_all2_mono [OF dec_table_std] list_all2_mono [OF dec_table_url])
  then have *: "(url \<or> base64_dec_table ! unat (sym_of url ! unat v) AND 0x40 \<noteq> 0) \<and>
      base64_dec_table ! unat (sym_of url ! unat v) AND 0xc0 \<noteq> 0 \<and>
      unat (base64_dec_table ! unat (sym_of url ! unat v) AND 0x3f) = unat v"
    using v std.length_symbols url.length_symbols
    by (auto dest!: list_all2_nthD [where p = "unat v"] simp: sym_of_def split: if_splits)
  then show "base64_dec_table ! unat (sym_of url ! unat v) AND 0xc0 \<noteq> 0"
    "\<not> url \<Longrightarrow> base64_dec_table ! unat (sym_of url ! unat v) AND 0x40 \<noteq> 0"
    by auto
  have "unat (base64_dec_table ! unat (sym_of url ! unat v) AND 0x3f) = unat v"
    using * by blast
  then show "char_value (sym_of url ! unat v) = v"
    by (simp only: char_value_def word_unat_eq_iff unsigned_ucast_eq)
      (use v in \<open>simp add: take_bit_nat_eq_self\<close>)
  show "sym_of url ! unat v \<noteq> 0x3d"
    using std.no_equals url.no_equals v std.length_symbols url.length_symbols nth_mem
    by (metis sym_of_def)
qed

text \<open>Without a remainder nothing is padded, and the text carries the bits of the bytes.\<close>

lemma encode_text:
  "length raw mod 3 = 0 \<Longrightarrow>
   text_bits (base64_encode_loop (sym_of url) True raw) = byte_bits raw \<and>
   (\<forall>c\<in>set (base64_encode_loop (sym_of url) True raw). base64_dec_table ! unat c AND 0xc0 \<noteq> 0 \<and> c \<noteq> 0x3d \<and>
      (\<not> url \<longrightarrow> base64_dec_table ! unat c AND 0x40 \<noteq> 0))"
proof (induction "length raw" arbitrary: raw rule: less_induct)
  case less
  consider "raw = []" | a b d r where "raw = a # b # d # r"
    using less.prems by (cases raw; cases "tl raw"; cases "tl (tl raw)") auto
  then show ?case
  proof cases
    case 1
    then show ?thesis
      by (simp add: base64_encode_loop.simps)
  next
    case (2 a b d r)
    define x :: u32 where "x = push_bit 16 (ucast a) OR push_bit 8 (ucast b) OR ucast d"
    have v: "drop_bit 18 x AND 63 < 64" "drop_bit 12 x AND 63 < 64" "drop_bit 6 x AND 63 < 64" "x AND 63 < 64"
      by (simp_all add: six_bits and_63 take_bit_take_bit)
    have "byte_bits [a, b, d] = bits_of 24 x"
      using split_bytes [of a b d] by (simp add: bits_of_24(2) group_bytes_def x_def join_bytes_def)
    moreover have "length r mod 3 = 0"
      using less.prems 2 by (simp add: numeral_3_eq_3 [symmetric])
    ultimately show ?thesis
      using less.hyps [of r] 2
      by (simp add: encode_three x_def [symmetric] sym_of_char v)
        (simp add: bits_of_24(1) and_63 bits_of_take_bit)
  qed
qed

text \<open>A text of the alphabet is decoded whatever the padding.\<close>

lemma decode_group_ok:
  assumes "\<And>c. c \<in> set g \<Longrightarrow> base64_dec_table ! unat c AND mode \<noteq> 0" "length g = 4"
  shows "\<exists>x. buff_decode_group mode q is_last g = Some x"
proof -
  have "\<And>j. j < 4 \<Longrightarrow> base64_dec_table ! unat (g ! j) AND mode \<noteq> 0"
    using assms by simp
  then show ?thesis
    by (simp add: buff_decode_group_def buff_decode_char_def upt_rec Let_def)
qed

lemma decode_loop_ok:
  "\<lbrakk>\<And>c. c \<in> set s \<Longrightarrow> base64_dec_table ! unat c AND mode \<noteq> 0\<rbrakk> \<Longrightarrow> snd (buff_decode_loop mode q s)"
proof (induction mode q s rule: buff_decode_loop.induct)
  case (1 mode q a b c d rest)
  obtain x where x: "buff_decode_group mode q (rest = []) [a, b, c, d] = Some x"
    using decode_group_ok [of "[a, b, c, d]" mode q "rest = []"] 1(2) by auto
  then show ?case
    using 1 by (auto split: prod.splits)
qed simp_all

lemma buff_decode_encode:
  assumes "length raw mod 3 = 0" "raw \<noteq> []" "length raw \<le> length buffer" "url \<longrightarrow> allow"
  shows "buff_base64_decode buffer (base64_encode_loop (sym_of url) True raw) allow =
    Some (length raw, memcpy_at buffer 0 raw)"
proof -
  define s where "s = base64_encode_loop (sym_of url) True raw"
  have bits: "text_bits s = byte_bits raw" and chars: "\<And>c. c \<in> set s \<Longrightarrow> c \<noteq> 0x3d"
    and mode: "\<And>c. c \<in> set s \<Longrightarrow> base64_dec_table ! unat c AND decode_mode allow \<noteq> 0"
    using encode_text [OF assms(1), of url] assms(4) by (auto simp: s_def decode_mode_def)
  obtain k where k: "length raw = 3 * k"
    using assms(1) by (auto simp: mod_eq_0_iff_dvd elim!: dvdE)
  have "k > 0"
    using k assms(2) by (cases k) auto
  note k = k this
  have len: "length s = 4 * k"
    using encoded_length [of "sym_of url" raw] k by (simp add: s_def compute_base64_encoded_size_def push_bit_eq_mult)
  have q: "trailing_equals s = 0"
    using chars nth_mem [of "length s - 1" s] k len by (auto simp: trailing_equals_def Let_def)
  obtain out where out: "buff_decode_loop (decode_mode allow) 0 s = (out, True)"
    using decode_loop_ok [of s "decode_mode allow" 0] mode by (metis prod.collapse)
  have "s \<noteq> []"
    using len k by auto
  then have "length out = length raw" "byte_bits out = byte_bits raw"
    using decode_loop_bits [OF out] len k by (auto simp: bits)
  then show ?thesis
    unfolding s_def [symmetric] using len k assms(3) out
    by (auto simp: buff_base64_decode_def q Let_def byte_bits_inject)
qed

section \<open>ADNL identifiers\<close>

lemma base32_decode_length:
  "base32_decode_loop s c len = Inr x \<Longrightarrow> len < 8 \<Longrightarrow> length x = (len + 5 * length s) div 8"
proof (induction s arbitrary: c len x)
  case (Cons y s)
  define c' where "c' = push_bit 5 c OR (word_of_nat (b32_char_to_value ! unat y) :: u32)"
  show ?case
  proof (cases "len + 5 < 8")
    case True
    then have "base32_decode_loop s c' (len + 5) = Inr x"
      using Cons.prems by (auto simp: Let_def c'_def base32_take_none split: if_splits sum.splits)
    then show ?thesis
      using Cons.IH [of c' "len + 5" x] True by (simp add: algebra_simps)
  next
    case False
    then have "base32_take c' (len + 5) = ([ucast (drop_bit (len - 3) c')], len - 3)"
      using Cons.prems(2) by (simp add: base32_take_one)
    then obtain r where "base32_decode_loop s c' (len - 3) = Inr r" "length x = Suc (length r)"
      using Cons.prems by (auto simp: Let_def c'_def split: if_splits sum.splits)
    moreover have "(len + 5 * length (y # s)) div 8 = Suc ((len - 3 + 5 * length s) div 8)"
      using False by (simp add: le_div_geq algebra_simps)
    ultimately show ?thesis
      using Cons.IH [of c' "len - 3" r] Cons.prems(2) by simp
  qed
qed (auto split: if_splits)

text \<open>The decoder of an identifier reads inside the 35 bytes that its 56 characters give.\<close>

lemma adnl_decoded_length: "length t = 55 \<Longrightarrow> base32_decode (0x66 # t) = Inr decoded \<Longrightarrow> length decoded = 35"
  using base32_decode_length [of "0x66 # t" 0 0 decoded] by (simp add: base32_decode_def)

lemma base32_encode_first:
  "base32_encode (0x2d # r) upper_case = (if upper_case then 0x46 else 0x66) # drop 1 (base32_encode (0x2d # r) upper_case)"
proof -
  have "base32_emit sym 0x2d 8 = ([sym ! 5], 3)" for sym
    by (simp add: base32_emit.simps)
  then show ?thesis
    by (simp add: base32_encode_def symbols32_lc_def symbols32_uc_def ascii_def)
qed

lemma base32_encode_length: "length input = 35 \<Longrightarrow> length (base32_encode input upper_case) = 56"
proof -
  assume len: "length input = 35"
  obtain vs k where vs: "base32_encode input upper_case = map (\<lambda>v. (if upper_case then symbols32_uc else symbols32_lc) ! unat v) (vs :: u32 list)"
      "k < 5" "concat (map (bits_of 5) vs) = concat (map (bits_of 8) input) @ replicate k False"
    using base32_encode_bits [of 0 "if upper_case then symbols32_uc else symbols32_lc" input 0]
    by (auto simp: base32_encode_def bits_of_def)
  have "length (concat (map (bits_of 5) vs)) = 5 * length vs" "length (concat (map (bits_of 8) input)) = 8 * length input"
    by (induction vs) (simp_all, induction input, simp_all)
  then have "5 * length vs = 280 + k"
    using vs(3) len by simp
  then have "length vs = 56"
    using vs(2) by presburger
  then show ?thesis
    by (simp add: vs(1))
qed

lemma adnl_id_decode_encode:
  assumes "length adnl_id = 32"
  shows "\<exists>t. adnl_id_encode adnl_id upper_case = Inr t \<and> length t = 55 \<and> adnl_id_decode t = Inr adnl_id"
proof -
  define hash where "hash = crc16 (0x2d # adnl_id)"
  define tail where "tail = [ucast (drop_bit 8 hash AND 255), ucast (hash AND 255) :: u8]"
  define e where "e = base32_encode (0x2d # adnl_id @ tail) upper_case"
  have take: "take 33 (0x2d # adnl_id @ x) = 0x2d # adnl_id" "take 32 (adnl_id @ x) = adnl_id" for x
    using assms by simp_all
  have enc: "adnl_id_encode adnl_id upper_case = Inr (drop 1 e)"
    using assms take [of "[]"] by (simp add: adnl_id_encode_def Let_def e_def tail_def hash_def)
  have len: "length e = 56"
    unfolding e_def by (rule base32_encode_length) (simp add: assms tail_def)
  have e: "e = (if upper_case then 0x46 else 0x66) # drop 1 e"
    unfolding e_def by (rule base32_encode_first)
  have v: "b32_char_to_value ! unat (0x46 :: u8) = b32_char_to_value ! unat (0x66 :: u8)"
    using base32_values [of 5] by (simp add: symbols32_lc_def symbols32_uc_def ascii_def)
  have "base32_decode (0x66 # drop 1 e) = base32_decode e"
    by (subst (2) e) (simp add: base32_decode_def v [simplified])
  also have "\<dots> = Inr (0x2d # adnl_id @ tail)"
    by (simp add: e_def base32_decode_encode)
  finally have dec: "base32_decode (0x66 # drop 1 e) = Inr (0x2d # adnl_id @ tail)" .
  have "push_bit 8 (ucast (ucast (drop_bit 8 hash AND 255) :: u8)) OR ucast (ucast (hash AND 255) :: u8) = hash"
  proof -
    have a: "x AND 255 = take_bit 8 x" for x :: u16
      by (simp add: take_bit_eq_mask mask_eq_exp_minus_1)
    show ?thesis
      by (rule bit_word_eqI) (auto simp: a bit_simps)
  qed
  then have "adnl_id_decode (drop 1 e) = Inr adnl_id"
    using assms len dec take by (simp add: adnl_id_decode_def Let_def nth_append tail_def hash_def)
  with enc len show ?thesis by auto
qed

section \<open>Properties\<close>



end
