(* ===== verification/Address.thy ===== *)
theory Address
  imports Buff_Base64
begin

text \<open>
  Accounts and public keys as the user sees them: \<open>PublicKey\<close> and \<open>StdAddress\<close> of
  \<open>crypto/block/block.cpp\<close>. A packed address is the base 64 text of a tag, a workchain, 32 bytes and a
  CRC-16; a raw address is a decimal workchain, a colon and 64 hexadecimal digits. Buffers on the stack
  and the bytes of a new address are not initialised by the code, so they are arguments here. \<open>None\<close>
  stands for a failed \<open>CHECK\<close>.
\<close>

datatype address_error =
    Wrong_key_size
  | Wrong_serialized_size
  | Not_base64
  | Wrong_crc16
  | Not_a_public_key
  | Not_an_ed25519_key
  | Invalid_account_address

section \<open>Public keys\<close>

definition PublicKey_from_bytes :: "bytes \<Rightarrow> address_error + bytes" where
  "PublicKey_from_bytes key = (if length key \<noteq> 32 then Inl Wrong_key_size else Inr key)"

definition PublicKey_parse :: "bytes \<Rightarrow> bytes \<Rightarrow> (address_error + bytes) option" where
  "PublicKey_parse stack key =
     (if length key \<noteq> 48 then Some (Inl Wrong_serialized_size)
      else case buff_base64_decode stack key True of
        None \<Rightarrow> None
      | Some (r, buf) \<Rightarrow>
          if r = 0 then Some (Inl Not_base64)
          else let hash = push_bit 8 (ucast (buf ! 34)) + ucast (buf ! 35) :: u16 in
            if hash \<noteq> crc16 (take 34 buf) then Some (Inl Wrong_crc16)
            else if buf ! 0 \<noteq> 0x3e then Some (Inl Not_a_public_key)
            else if buf ! 1 \<noteq> 0xe6 then Some (Inl Not_an_ed25519_key)
            else Some (PublicKey_from_bytes (take 32 (drop 2 buf))))"

definition PublicKey_serialize :: "bytes \<Rightarrow> bool \<Rightarrow> bytes option" where
  "PublicKey_serialize key base64_url =
     (if length key \<noteq> 32 then None
      else let bytes = [0x3e, 0xe6] @ key;
               hash = crc16 bytes;
               buf = bytes @ [ucast (drop_bit 8 hash), ucast (hash AND 255)]
           in map_option snd (buff_base64_encode (replicate 48 0) buf base64_url))"

section \<open>Packed addresses\<close>

text \<open>\<open>StdAddress\<close>; the workchain is an \<open>int32\<close>.\<close>

record StdAddress =
  workchain :: int
  bounceable :: bool
  testnet :: bool
  addr :: bytes

definition workchainInvalid :: int where
  "workchainInvalid = - (2 ^ 31)"

definition StdAddress_new :: "bytes \<Rightarrow> StdAddress" where
  "StdAddress_new uninitialised =
     \<lparr>workchain = workchainInvalid, bounceable = True, testnet = False, addr = uninitialised\<rparr>"

definition invalidate :: "StdAddress \<Rightarrow> bool \<times> StdAddress" where
  "invalidate a = (False, a\<lparr>workchain := workchainInvalid\<rparr>)"

definition is_valid_address :: "StdAddress \<Rightarrow> bool" where
  "is_valid_address a \<longleftrightarrow> workchain a \<noteq> workchainInvalid"

definition pack_std_smc_addr_to :: "bytes \<Rightarrow> bool \<Rightarrow> int \<Rightarrow> bytes \<Rightarrow> bool \<Rightarrow> bool \<Rightarrow> (bool \<times> bytes) option" where
  "pack_std_smc_addr_to result base64_url wc account bounce test =
     (if wc < -128 \<or> wc \<ge> 128 then Some (False, result)
      else
        let tag = word_of_int (0x51 - (if bounce then 0x40 else 0) + (if test then 0x80 else 0)) :: u8;
            buffer = [tag, word_of_int wc] @ take 32 account;
            crc = crc16 buffer;
            buffer = buffer @ [ucast (drop_bit 8 crc), ucast (crc AND 0xff)]
        in case buff_base64_encode result buffer base64_url of
             None \<Rightarrow> None
           | Some (r, result) \<Rightarrow> if r = 48 then Some (True, result) else None)"

definition pack_std_smc_addr :: "bytes \<Rightarrow> bool \<Rightarrow> int \<Rightarrow> bytes \<Rightarrow> bool \<Rightarrow> bool \<Rightarrow> bytes option" where
  "pack_std_smc_addr result base64_url wc account bounce test =
     (case pack_std_smc_addr_to result base64_url wc account bounce test of
        None \<Rightarrow> None
      | Some (ok, result) \<Rightarrow> Some (if ok then result else []))"

text \<open>The function writes through references to the four fields; \<open>stack\<close> is its buffer of 36 bytes.\<close>

definition unpack_std_smc_addr :: "bytes \<Rightarrow> bytes \<Rightarrow> StdAddress \<Rightarrow> (bool \<times> StdAddress) option" where
  "unpack_std_smc_addr stack packed a =
     (let a = a\<lparr>workchain := workchainInvalid\<rparr> in
      case buff_base64_decode stack packed True of
        None \<Rightarrow> None
      | Some (r, buffer) \<Rightarrow>
          if r = 0 then Some (False, a)
          else let crc = crc16 (take 34 buffer) in
            if buffer ! 34 \<noteq> ucast (drop_bit 8 crc) \<or> buffer ! 35 \<noteq> ucast (crc AND 0xff) then Some (False, a)
            else if buffer ! 0 AND 0x3f \<noteq> 0x11 then Some (False, a)
            else Some (True, a\<lparr>testnet := (buffer ! 0 AND 0x80 \<noteq> 0), bounceable := (buffer ! 0 AND 0x40 = 0),
              workchain := sint (buffer ! 1), addr := take 32 (drop 2 buffer)\<rparr>))"

definition rserialize :: "bytes \<Rightarrow> StdAddress \<Rightarrow> bool \<Rightarrow> bytes option" where
  "rserialize stack a base64_url =
     (case pack_std_smc_addr_to stack base64_url (workchain a) (addr a) (bounceable a) (testnet a) of
        None \<Rightarrow> None
      | Some (ok, buffer) \<Rightarrow> Some (if ok then buffer else []))"

definition rdeserialize :: "bytes \<Rightarrow> bytes \<Rightarrow> StdAddress \<Rightarrow> (bool \<times> StdAddress) option" where
  "rdeserialize stack from a = (if length from = 48 then unpack_std_smc_addr stack from a else Some (False, a))"

section \<open>Raw addresses\<close>

definition parse_hex_digit :: "int \<Rightarrow> int" where
  "parse_hex_digit c =
     (if c \<ge> 0x30 \<and> c \<le> 0x39 then c - 0x30
      else let c = c OR 0x20 in if c \<ge> 0x61 \<and> c \<le> 0x7a then c - 0x61 + 10 else -1)"

text \<open>One round of the loop: half of a byte is replaced, the upper half first.\<close>

definition set_nibble :: "bytes \<Rightarrow> nat \<Rightarrow> int \<Rightarrow> bytes" where
  "set_nibble account i x =
     (let x = word_of_int x :: u32;
          (x, m) = (if i AND 1 = 0 then (push_bit 4 x, push_bit 4 15) else (x, 15))
      in account [drop_bit 1 i := ucast ((ucast (account ! drop_bit 1 i) AND NOT m) OR x)])"

fun parse_nibbles :: "nat \<Rightarrow> bytes \<Rightarrow> bytes \<Rightarrow> bool \<times> bytes" where
  "parse_nibbles i [] account = (True, account)"
| "parse_nibbles i (c # s) account =
     (let x = parse_hex_digit (sint c) in
      if x < 0 then (False, account) else parse_nibbles (i + 1) s (set_nibble account i x))"

definition parse_addr :: "bytes \<Rightarrow> bytes \<Rightarrow> StdAddress \<Rightarrow> (bool \<times> StdAddress) option" where
  "parse_addr stack acc_string a =
     (case rdeserialize stack acc_string a of
        None \<Rightarrow> None
      | Some (True, a) \<Rightarrow> Some (True, a)
      | Some (False, a) \<Rightarrow>
          let a = a\<lparr>testnet := False, bounceable := True\<rparr>;
              digits = (\<lambda>a pos.
                if length acc_string \<noteq> pos + 64 then invalidate a
                else let (ok, b) = parse_nibbles 0 (drop pos acc_string) (addr a)
                     in if ok then (True, a\<lparr>addr := b\<rparr>) else invalidate (a\<lparr>addr := b\<rparr>))
          in Some (case find_byte 0x3a acc_string of
               None \<Rightarrow> digits a 0
             | Some pos \<Rightarrow>
                 if pos > 10 then invalidate a
                 else case to_integer_safe (take pos acc_string) of
                   Inl _ \<Rightarrow> invalidate a
                 | Inr wc \<Rightarrow>
                     let a = a\<lparr>workchain := wc\<rparr> in
                     if workchain a = workchainInvalid then invalidate a else digits a (pos + 1)))"

definition StdAddress_parse :: "bytes \<Rightarrow> bytes \<Rightarrow> bytes \<Rightarrow> (address_error + StdAddress) option" where
  "StdAddress_parse stack uninitialised acc_string =
     (case parse_addr stack acc_string (StdAddress_new uninitialised) of
        None \<Rightarrow> None
      | Some (ok, res) \<Rightarrow> Some (if ok then Inr res else Inl Invalid_account_address))"

definition parse_std_account_addr :: "bytes \<Rightarrow> bytes \<Rightarrow> bytes \<Rightarrow> (int \<times> bytes \<times> bool \<times> bool) option option" where
  "parse_std_account_addr stack uninitialised acc_string =
     (case parse_addr stack acc_string (StdAddress_new uninitialised) of
        None \<Rightarrow> None
      | Some (ok, a) \<Rightarrow> Some (if ok then Some (workchain a, addr a, bounceable a, testnet a) else None))"

section \<open>Packing\<close>

text \<open>The 36 bytes of a packed text: 34 bytes and their check.\<close>

definition with_check :: "bytes \<Rightarrow> bytes" where
  "with_check body = body @ [ucast (drop_bit 8 (crc16 body)), ucast (crc16 body AND 0xff)]"

definition address_tag :: "bool \<Rightarrow> bool \<Rightarrow> u8" where
  "address_tag bounce test = word_of_int (0x51 - (if bounce then 0x40 else 0) + (if test then 0x80 else 0))"

definition address_body :: "StdAddress \<Rightarrow> bytes" where
  "address_body a = [address_tag (bounceable a) (testnet a), word_of_int (workchain a)] @ addr a"

definition packable :: "StdAddress \<Rightarrow> bool" where
  "packable a \<longleftrightarrow> -128 \<le> workchain a \<and> workchain a < 128 \<and> length (addr a) = 32"

lemma and_ff_16: "c AND 255 = take_bit 8 c" for c :: u16
  by (simp add: take_bit_eq_mask mask_eq_exp_minus_1)

lemma check_halves:
  fixes c :: u16 and a :: u8 and b :: u8
  shows "c = push_bit 8 (ucast a) XOR ucast b \<longleftrightarrow> a = ucast (drop_bit 8 c) \<and> b = ucast (c AND 0xff)"
proof
  assume c: "c = push_bit 8 (ucast a) XOR ucast b"
  show "a = ucast (drop_bit 8 c) \<and> b = ucast (c AND 0xff)"
    unfolding c and_ff_16 by (auto simp: bit_simps intro!: bit_word_eqI dest: bit_u8_less)
next
  assume *: "a = ucast (drop_bit 8 c) \<and> b = ucast (c AND 0xff)"
  have "push_bit 8 (ucast (ucast (drop_bit 8 c) :: u8)) XOR ucast (ucast (c AND 0xff) :: u8) = c"
  proof (rule bit_word_eqI)
    show "bit (push_bit 8 (ucast (ucast (drop_bit 8 c) :: u8)) XOR ucast (ucast (c AND 0xff) :: u8) :: u16) n = bit c n"
      if "n < LENGTH(16)" for n
      using that by (cases "n < 8") (auto simp: and_ff_16 bit_simps)
  qed
  with * show "c = push_bit 8 (ucast a) XOR ucast b"
    by simp
qed

lemma crc16_with_check: "crc16 (with_check body) = 0"
  by (simp only: with_check_def crc16_append check_halves)

lemma crc16_zero_iff:
  assumes "length b = 36"
  shows "crc16 b = 0 \<longleftrightarrow> b ! 34 = ucast (drop_bit 8 (crc16 (take 34 b))) \<and> b ! 35 = ucast (crc16 (take 34 b) AND 0xff)"
proof -
  have "b = take 34 b @ [b ! 34, b ! 35]"
    using assms take_Suc_conv_app_nth [of 34 b] take_Suc_conv_app_nth [of 35 b] by simp
  then have "crc16 b = 0 \<longleftrightarrow> crc16 (take 34 b) = push_bit 8 (ucast (b ! 34)) XOR ucast (b ! 35)"
    by (metis crc16_append)
  then show ?thesis
    by (simp only: check_halves)
qed

lemma with_check_length: "length body = 34 \<Longrightarrow> length (with_check body) = 36"
  by (simp add: with_check_def)

text \<open>Every 36 bytes are written as 48 characters.\<close>

lemma encode_36:
  assumes "length b = 36" "length buffer = 48"
  shows "buff_base64_encode buffer b url = Some (48, base64_encode_loop (sym_of url) True b)"
    and "length (base64_encode_loop (sym_of url) True b) = 48"
proof -
  show l: "length (base64_encode_loop (sym_of url) True b) = 48"
    by (simp add: encoded_length assms compute_base64_encoded_size_def push_bit_eq_mult)
  show "buff_base64_encode buffer b url = Some (48, base64_encode_loop (sym_of url) True b)"
    using assms l by (subst buff_base64_encode_result)
      (auto simp: compute_base64_encoded_size_def push_bit_eq_mult memcpy_at_def sym_of_def)
qed

lemma rserialize_result:
  assumes "packable a" "length stack = 48"
  shows "rserialize stack a url = Some (base64_encode_loop (sym_of url) True (with_check (address_body a)))"
proof -
  have "length (with_check (address_body a)) = 36"
    using assms by (simp add: with_check_length address_body_def packable_def)
  then show ?thesis
    using assms encode_36(1) [of "with_check (address_body a)" stack url]
    by (auto simp: rserialize_def pack_std_smc_addr_to_def packable_def Let_def with_check_def address_body_def address_tag_def)
qed

section \<open>Unpacking\<close>

text \<open>What \<open>unpack_std_smc_addr\<close> makes of 36 bytes with a correct check.\<close>

definition unpack_body :: "bytes \<Rightarrow> StdAddress \<Rightarrow> bool \<times> StdAddress" where
  "unpack_body body a =
     (if body ! 0 AND 0x3f \<noteq> 0x11 then (False, a\<lparr>workchain := workchainInvalid\<rparr>)
      else (True, a\<lparr>workchain := sint (body ! 1), testnet := (body ! 0 AND 0x80 \<noteq> 0),
        bounceable := (body ! 0 AND 0x40 = 0), addr := take 32 (drop 2 body)\<rparr>))"

lemma unpack_accepts:
  assumes "buff_base64_decode stack packed True = Some (r, b)" "r \<noteq> 0" "length b = 36"
  shows "unpack_std_smc_addr stack packed a =
    Some (if crc16 b = 0 then unpack_body (take 34 b) a else (False, a\<lparr>workchain := workchainInvalid\<rparr>))"
  using assms crc16_zero_iff [OF assms(3)]
  by (auto simp: unpack_std_smc_addr_def unpack_body_def Let_def drop_take)

lemma address_tag_bits:
  "address_tag b t AND 0x3f = 0x11" "address_tag b t AND 0x80 \<noteq> 0 \<longleftrightarrow> t" "address_tag b t AND 0x40 = 0 \<longleftrightarrow> b"
  by (cases b; cases t; simp add: address_tag_def)+

lemma sint_int8: "-128 \<le> w \<Longrightarrow> w < 128 \<Longrightarrow> sint (word_of_int w :: u8) = w"
  by (simp add: signed_of_int signed_take_bit_int_eq_self)

lemma unpack_body_address:
  assumes "packable a"
  shows "unpack_body (address_body a) c = (True, a)"
  using assms by (simp add: unpack_body_def address_body_def address_tag_bits packable_def sint_int8)

lemma unpack_packed:
  assumes "packable a" "length stack = 36"
  shows "unpack_std_smc_addr stack (base64_encode_loop (sym_of url) True (with_check (address_body a))) c = Some (True, a)"
proof -
  define b where "b = with_check (address_body a)"
  have l: "length (address_body a) = 34"
    using assms by (simp add: address_body_def packable_def)
  have b: "length b = 36" "crc16 b = 0" "take 34 b = address_body a"
    by (simp_all add: b_def with_check_length l crc16_with_check) (simp add: with_check_def l)
  have "buff_base64_decode stack (base64_encode_loop (sym_of url) True b) True = Some (36, b)"
    using buff_decode_encode [of b stack url True] b assms(2) by (force simp: memcpy_at_def)
  then show ?thesis
    using unpack_accepts [OF _ _ b(1)] b unpack_body_address [OF assms(1)] by (simp add: b_def [symmetric])
qed

lemma parse_packed:
  assumes "packable a" "length stack = 36"
  shows "parse_addr stack (base64_encode_loop (sym_of url) True (with_check (address_body a))) c = Some (True, a)"
proof -
  have "length (with_check (address_body a)) = 36"
    using assms by (simp add: with_check_length address_body_def packable_def)
  then have "length (base64_encode_loop (sym_of url) True (with_check (address_body a))) = 48"
    by (intro encode_36(2) [of _ "replicate 48 0"]) simp_all
  then show ?thesis
    using unpack_packed [OF assms] by (simp add: parse_addr_def rdeserialize_def)
qed

section \<open>Mistyped addresses\<close>

lemma text_bits_take: "text_bits (take k s) = take (6 * k) (text_bits s)"
proof (induction s arbitrary: k)
  case (Cons c s)
  then show ?case
    by (cases k) simp_all
qed simp

text \<open>A text that differs in two neighbouring characters, split at them.\<close>

lemma split_at_two:
  fixes s :: bytes
  assumes "length s = length s'" "\<And>j. j < length s \<Longrightarrow> j \<noteq> i \<Longrightarrow> j \<noteq> i + 1 \<Longrightarrow> s' ! j = s ! j"
  shows "s = take i s @ take 2 (drop i s) @ drop (i + 2) s" "s' = take i s @ take 2 (drop i s') @ drop (i + 2) s"
proof -
  have split: "l = take i l @ take 2 (drop i l) @ drop (i + 2) l" for l :: bytes
    by (metis add.commute append_take_drop_id drop_drop)
  show "s = take i s @ take 2 (drop i s) @ drop (i + 2) s"
    by (rule split)
  have "take i s' = take i s" "drop (i + 2) s' = drop (i + 2) s"
    using assms by (auto intro!: nth_equalityI)
  with split [of s'] show "s' = take i s @ take 2 (drop i s') @ drop (i + 2) s"
    by simp
qed

lemma mistyped_bytes:
  fixes b :: bytes and url :: bool
  defines "s \<equiv> base64_encode_loop (sym_of url) True b"
  assumes "length b = 36" "crc16 b = 0" "length s' = 48" "length stack = 36"
    and same: "\<And>j. j < 48 \<Longrightarrow> j \<noteq> i \<Longrightarrow> j \<noteq> i + 1 \<Longrightarrow> s' ! j = s ! j"
    and dec: "buff_base64_decode stack s' True = Some (r, b')" "r \<noteq> 0" and crc: "crc16 b' = 0"
  shows "length b' = 36 \<and> take 34 b' = take 34 b"
proof -
  have s: "text_bits s = byte_bits b" "\<And>c. c \<in> set s \<Longrightarrow> c \<noteq> 0x3d" "length s = 48"
    using encode_text [of b url] encode_36(2) [OF assms(2), of "replicate 48 0" url] assms(2) by (auto simp: s_def)
  obtain out where out: "length out = r" "r = 36 - trailing_equals s'" "b' = memcpy_at stack 0 out"
      "byte_bits out = take (8 * r) (text_bits s')" "r \<le> 36"
    by (rule buff_base64_decode_Some [OF dec]) (use assms(4,5) in simp)
  have b': "length b' = 36"
    using out assms(5) by simp
  note split = split_at_two [of s s' i, OF _ same]
  show ?thesis
  proof (cases "trailing_equals s' = 0")
    case True
    then have "b' = out" "byte_bits b' = text_bits s'"
      using out assms(4,5) by (simp_all add: memcpy_at_def)
    then have eq: "fold crc16_in (text_bits s') 0 = fold crc16_in (text_bits s) 0"
      using crc assms(3) s(1) by (simp add: crc16_register crc16_bits byte_bits_def)
    have "text_bits (take 2 (drop i s')) = text_bits (take 2 (drop i s))"
    proof (rule crc16_detects_burst [of "text_bits (take i s)" _ "text_bits (drop (i + 2) s)" 0])
      show "fold crc16_in (text_bits (take i s) @ text_bits (take 2 (drop i s')) @ text_bits (drop (i + 2) s)) 0 =
          fold crc16_in (text_bits (take i s) @ text_bits (take 2 (drop i s)) @ text_bits (drop (i + 2) s)) 0"
        using eq split assms(4) s(3) by (metis text_bits_simps(3))
    qed (use assms(4) s(3) in auto)
    then have "text_bits s' = text_bits s"
      using split assms(4) s(3) by (metis text_bits_simps(3))
    then show ?thesis
      using \<open>byte_bits b' = text_bits s'\<close> s(1) byte_bits_inject b' by metis
  next
    case False
    then have "s' ! 47 = 0x3d"
      using assms(4) by (auto simp: trailing_equals_def Let_def split: if_splits)
    then have "s' ! 47 \<noteq> s ! 47"
      using s(2) [of "s ! 47"] s(3) by auto
    then have i: "46 \<le> i"
      using same [of 47] by fastforce
    have "take 46 s' = take 46 s"
      using i same s(3) assms(4) by (intro nth_equalityI) auto
    then have t: "take 276 (text_bits s') = take 276 (text_bits s)"
      using text_bits_take [of 46 s'] text_bits_take [of 46 s] by simp
    have r: "34 \<le> r"
      using out(2) trailing_equals_le [of s'] by simp
    have "take 34 b' = take 34 out"
      using out(1,3) r by (simp add: memcpy_at_def)
    moreover have "byte_bits (take 34 out) = byte_bits (take 34 b)"
    proof -
      have "byte_bits (take 34 out) = take 272 (take 276 (text_bits s'))"
        using r by (simp add: byte_bits_take out(4) min_def)
      also have "\<dots> = byte_bits (take 34 b)"
        by (simp add: t byte_bits_take s(1))
      finally show ?thesis .
    qed
    ultimately show ?thesis
      using b' by (simp add: byte_bits_inject)
  qed
qed

lemma parse_packed_length:
  assumes "length s = 48" "length stack = 36" "parse_addr stack s c = Some (True, a)"
  obtains r b where "buff_base64_decode stack s True = Some (r, b)" "r \<noteq> 0" "crc16 b = 0"
    "unpack_std_smc_addr stack s c = Some (True, a)"
proof -
  obtain r b where d: "buff_base64_decode stack s True = Some (r, b)"
    using buff_base64_decode_not_None [of stack s True] by auto
  have u: "unpack_std_smc_addr stack s c = Some (True, a)"
    using assms(1,3)
    by (auto simp: parse_addr_def rdeserialize_def invalidate_def Let_def
        split: option.splits bool.splits sum.splits if_splits prod.splits)
  then have "r \<noteq> 0"
    using d by (auto simp: unpack_std_smc_addr_def Let_def split: if_splits)
  obtain out where "length out = r" "r \<le> 36" "b = memcpy_at stack 0 out"
    by (rule buff_base64_decode_Some [OF d \<open>r \<noteq> 0\<close>]) (use assms(2) in simp)
  then have "length b = 36"
    using assms(2) by simp
  then show thesis
    using that [OF d \<open>r \<noteq> 0\<close> _ u] u unpack_accepts [OF d \<open>r \<noteq> 0\<close>] by (auto split: if_splits)
qed

lemma mistyped_address_lemma:
  assumes "packable a" "length stack = 36" "length s' = 48"
    and "\<And>j. j < 48 \<Longrightarrow> j \<noteq> i \<Longrightarrow> j \<noteq> i + 1 \<Longrightarrow>
      s' ! j = base64_encode_loop (sym_of url) True (with_check (address_body a)) ! j"
    and "parse_addr stack s' c = Some (True, a')"
  shows "a' = a"
proof -
  have l: "length (address_body a) = 34"
    using assms(1) by (simp add: address_body_def packable_def)
  obtain r b where d: "buff_base64_decode stack s' True = Some (r, b)" "r \<noteq> 0" "crc16 b = 0"
      "unpack_std_smc_addr stack s' c = Some (True, a')"
    by (rule parse_packed_length [OF assms(3,2,5)])
  have "length b = 36 \<and> take 34 b = take 34 (with_check (address_body a))"
    by (rule mistyped_bytes [where i = i, OF _ crc16_with_check assms(3,2,4) d(1-3)]) (simp_all add: l with_check_length)
  moreover have "take 34 (with_check (address_body a)) = address_body a"
    by (simp add: with_check_def l)
  ultimately show ?thesis
    using d unpack_accepts [OF d(1,2), of c] unpack_body_address [OF assms(1), of c] by simp
qed

section \<open>Raw addresses\<close>

lemma unat_or_0x20: "unat (c OR 0x20) = (if bit c 5 then unat c else unat c + 32)" for c :: u8
proof (cases "bit c 5")
  case False
  then have "\<not> bit (unat c) 5"
    by (simp add: bit_unsigned_iff)
  then have "even (unat c div 32)"
    by (simp add: bit_iff_odd)
  then have "unat c div 32 \<noteq> 7"
    by auto
  moreover have "unat c div 32 < 8"
    using less_mult_imp_div_less [of "unat c" 8 32] by simp
  ultimately have "unat c < 224"
    using div_le_mono [of 224 "unat c" 32] by (cases "unat c < 224") simp_all
  then show ?thesis
    using False by (simp add: or_0x20 unat_word_ariths)
qed (simp add: or_0x20)

lemma int_or_32: "x OR 32 = (if bit x 5 then x else x + 32)" for x :: int
proof (cases "bit x 5")
  case True
  have "x OR 2 ^ 5 = x"
    by (rule bit_eqI) (use True in \<open>auto simp only: bit_or_iff bit_exp_iff\<close>)
  with True show ?thesis by simp
next
  case False
  then have "x AND 2 ^ 5 = 0"
    by (simp only: and_exp_eq_0_iff_not_bit not_False_eq_True)
  then show ?thesis
    using False disjunctive_add_eq_or [of x "2 ^ 5"] by simp
qed

lemma hex_digit_codes:
  "(0 \<le> parse_hex_digit (sint c) \<longleftrightarrow> is_alnum c) \<and>
   (hex_to_int c \<noteq> 16 \<longrightarrow> parse_hex_digit (sint c) = int (hex_to_int c) \<and> hex_to_int c < 16)"
proof -
  define n m where "n = unat c" and "m = unat (c OR 0x20)"
  have bit: "bit (sint c) 5 = bit c 5"
    by (simp add: bit_sint_iff)
  have sint: "sint c = (if n < 128 then int n else int n - 256)"
  proof -
    have "sint c = signed_take_bit 7 (int n)"
      by (simp add: sint_uint n_def)
    also have "\<dots> = (int n + 128) mod 256 - 128"
      by (simp add: signed_take_bit_eq_take_bit_shift take_bit_eq_mod)
    finally have s: "sint c = (int n + 128) mod 256 - 128" .
    have "n < 256"
      by (simp add: n_def)
    show ?thesis
    proof (cases "n < 128")
      case False
      have "(int n + 128) mod 256 = (int n - 128 + 256) mod 256"
        by (simp add: add.commute)
      also have "\<dots> = int n - 128"
        using False \<open>n < 256\<close> unfolding mod_add_self2 by (intro mod_pos_pos_trivial) simp_all
      finally show ?thesis
        using False s by simp
    qed (simp add: s)
  qed
  have alnum: "is_alnum c \<longleftrightarrow> 97 \<le> m \<and> m \<le> 122 \<or> 48 \<le> n \<and> n \<le> 57"
    by (simp add: is_alnum_def is_alpha_def is_digit_def Let_def word_le_nat_alt n_def m_def)
  have hex: "hex_to_int c = (if 48 \<le> n \<and> n \<le> 57 then n - 48 else if 97 \<le> m \<and> m \<le> 102 then m - 97 + 10 else 16)"
    by (simp add: hex_to_int_def is_digit_def Let_def word_le_nat_alt n_def m_def unat_sub)
  have or: "sint c OR 32 = (if bit c 5 then sint c else sint c + 32)"
    by (simp only: int_or_32 bit)
  have m: "m = (if bit c 5 then n else n + 32)"
    by (simp only: m_def n_def unat_or_0x20)
  have "m < 256"
    unfolding m_def by (rule unat_u8_less)
  then have "sint c OR 32 = (if n < 128 then int m else int m - 256)" "n \<le> m" "m < 256"
    unfolding or unfolding sint m by auto
  then show ?thesis
    using sint by (auto simp: parse_hex_digit_def Let_def alnum hex)
qed
lemma parse_nibbles_ok: "fst (parse_nibbles i s b) \<longleftrightarrow> list_all is_alnum s"
  by (induction s arbitrary: i b) (auto simp: Let_def not_less hex_digit_codes [THEN conjunct1, symmetric])

lemma nibbles_joined:
  fixes v :: u8
  assumes "x < 16" "y < 16"
  defines "u \<equiv> ucast ((ucast v AND NOT (push_bit 4 15 :: u32)) OR push_bit 4 (word_of_nat x)) :: u8"
  shows "ucast ((ucast u AND NOT (15 :: u32)) OR word_of_nat y) = (word_of_nat (x * 16 + y) :: u8)"
proof -
  have m: "(15 :: u32) = mask 4"
    by (simp add: mask_eq_exp_minus_1)
  have xy: "take_bit 4 x = x" "take_bit 4 y = y"
    using assms(1,2) by (simp_all add: take_bit_nat_eq_self)
  have bits: "bit x n \<Longrightarrow> n < 4" "bit y n \<Longrightarrow> n < 4" for n
    using bit_take_bit_iff [of 4 x n] bit_take_bit_iff [of 4 y n] unfolding xy by blast+
  have "push_bit 4 x AND y = 0"
    by (rule bit_eqI) (auto simp: bit_simps dest: bits)
  then have "x * 16 + y = push_bit 4 x OR y"
    using disjunctive_add_eq_or [of "push_bit 4 x" y] by (simp add: push_bit_eq_mult)
  then show ?thesis
    unfolding u_def m by (intro bit_word_eqI) (auto simp: bit_simps dest: bits)
qed

lemma set_nibble_pair:
  assumes "k < length b" "x < 16" "y < 16"
  shows "set_nibble (set_nibble b (2 * k) (int x)) (2 * k + 1) (int y) = b [k := word_of_nat (x * 16 + y)]"
proof -
  have i: "2 * k AND 1 = 0" "drop_bit 1 (2 * k) = k" "(2 * k + 1) AND 1 = 1" "drop_bit 1 (2 * k + 1) = k"
    by (simp_all add: and_one_eq drop_bit_eq_div)
  have xy: "take_bit 4 x = x" "take_bit 4 y = y"
    using assms by (simp_all add: take_bit_nat_eq_self)
  show ?thesis
    using assms(1) nibbles_joined [OF assms(2,3), of "b ! k"] by (simp add: set_nibble_def i i [simplified] Let_def)
qed

lemma parse_nibbles_hex:
  "\<lbrakk>hex_pairs s = Inr r; even (length s); 2 * k + length s \<le> 2 * length b\<rbrakk> \<Longrightarrow>
   parse_nibbles (2 * k) s b = (True, take k b @ r @ drop (k + length r) b)"
proof (induction s arbitrary: k b r rule: hex_pairs.induct)
  case (1 p q s)
  then obtain r' where r: "hex_to_int p \<noteq> 16" "hex_to_int q \<noteq> 16" "hex_pairs s = Inr r'"
      "r = word_of_nat (hex_to_int p * 16 + hex_to_int q) # r'"
    by (auto simp: Let_def split: if_splits sum.splits)
  have c: "parse_hex_digit (sint p) = int (hex_to_int p)" "parse_hex_digit (sint q) = int (hex_to_int q)"
      "hex_to_int p < 16" "hex_to_int q < 16"
    using hex_digit_codes r(1,2) by auto
  have k: "k < length b"
    using 1(4) by simp
  define b' where "b' = b [k := word_of_nat (hex_to_int p * 16 + hex_to_int q)]"
  have "parse_nibbles (2 * k) (p # q # s) b = parse_nibbles (2 * (k + 1)) s b'"
    using set_nibble_pair [OF k c(3,4)] by (simp add: c b'_def Let_def)
  also have "\<dots> = (True, take (k + 1) b' @ r' @ drop (k + 1 + length r') b')"
    by (rule 1(1) [OF refl refl]) (use 1(3,4) r in \<open>auto simp: b'_def\<close>)
  also have "take (k + 1) b' @ r' @ drop (k + 1 + length r') b' = take k b @ r @ drop (k + length r) b"
    using k by (simp add: b'_def r(4) take_Suc_conv_app_nth)
  finally show ?case .
qed auto

lemma no_colon:
  "list_all is_alnum h \<Longrightarrow> 0x3a \<notin> set h"
  "0x3a \<notin> set (print_int w)"
proof -
  have c: "\<not> is_alnum 0x3a" "\<not> is_digit 0x3a"
    by (simp_all add: is_alnum_def is_alpha_def is_digit_def)
  then show "list_all is_alnum h \<Longrightarrow> 0x3a \<notin> set h"
    by (auto simp: list_all_iff)
  show "0x3a \<notin> set (print_int w)"
    using c(2) print_uint_value(1) by (auto simp: print_int_def list_all_iff)
qed

lemma before_colon: "d \<notin> set p \<Longrightarrow> takeWhile (\<lambda>c. c \<noteq> d) (p @ d # h) = p"
  by (subst takeWhile_append2) auto

lemma find_colon: "d \<notin> set p \<Longrightarrow> find_byte d (p @ d # h) = Some (length p)"
  by (simp add: find_byte_def before_colon)

text \<open>A workchain and its colon; the number must fit the code's limit of ten characters.\<close>

definition workchain_text :: "int \<Rightarrow> bytes \<Rightarrow> bool" where
  "workchain_text w p \<longleftrightarrow> workchainInvalid < w \<and> w < 2 ^ 31 \<and> length p \<le> 10 \<and> p = print_int w"

lemma to_workchain:
  "length p \<le> 10 \<Longrightarrow> to_integer_safe p = Inr w \<and> w \<noteq> workchainInvalid \<longleftrightarrow> workchain_text w p"
  by (auto simp: to_integer_safe_iff workchain_text_def workchainInvalid_def)

lemma parse_raw_colon:
  assumes "0x3a \<notin> set p" "length (p @ 0x3a # h) \<noteq> 48"
  shows "(\<exists>a'. parse_addr stack (p @ 0x3a # h) a = Some (True, a')) \<longleftrightarrow>
    (\<exists>w. workchain_text w p) \<and> length h = 64 \<and> list_all is_alnum h"
proof (cases "length p \<le> 10")
  case True
  then show ?thesis
    using assms(2) parse_nibbles_ok [of 0 h "addr a"]
    by (auto simp: parse_addr_def rdeserialize_def find_colon [OF assms(1)] invalidate_def Let_def
        to_workchain [OF True, symmetric] split: sum.splits prod.splits if_splits)
next
  case False
  then show ?thesis
    using assms(2)
    by (auto simp: parse_addr_def rdeserialize_def find_colon [OF assms(1)] invalidate_def Let_def workchain_text_def)
qed

lemma parse_raw_plain:
  assumes "0x3a \<notin> set s" "length s \<noteq> 48"
  shows "(\<exists>a'. parse_addr stack s a = Some (True, a')) \<longleftrightarrow> length s = 64 \<and> list_all is_alnum s"
  using assms parse_nibbles_ok [of 0 s "addr a"]
  by (auto simp: parse_addr_def rdeserialize_def find_byte_def invalidate_def Let_def split: prod.splits if_splits)

lemma parse_raw:
  assumes "length s \<noteq> 48"
  shows "(\<exists>a'. parse_addr stack s a = Some (True, a')) \<longleftrightarrow>
    (\<exists>h. length h = 64 \<and> list_all is_alnum h \<and> (s = h \<or> (\<exists>w p. workchain_text w p \<and> s = p @ 0x3a # h)))"
proof (cases "0x3a \<in> set s")
  case True
  then obtain p h where s: "s = p @ 0x3a # h" "0x3a \<notin> set p"
    by (auto dest: split_list_first)
  have "p' = p \<and> h' = h" if "workchain_text w p'" "s = p' @ 0x3a # h'" for w p' h'
  proof -
    have "0x3a \<notin> set p'"
      using that(1) no_colon(2) by (simp add: workchain_text_def)
    then have "p' = p"
      using before_colon [of "0x3a" p' h'] before_colon [OF s(2)] s(1) that(2) by simp
    then show ?thesis
      using s(1) that(2) by simp
  qed
  moreover have "s \<noteq> h'" if "list_all is_alnum h'" for h'
    using no_colon(1) [OF that] True by auto
  ultimately show ?thesis
    using parse_raw_colon [OF s(2)] assms s(1) by metis
next
  case False
  then show ?thesis
    using parse_raw_plain [OF False assms] by auto
qed

lemma hex_pairs_length: "hex_pairs h = Inr b \<Longrightarrow> even (length h) \<Longrightarrow> length h = 2 * length b"
  by (induction h arbitrary: b rule: hex_pairs.induct) (auto simp: Let_def split: if_splits sum.splits)

lemma parse_raw_value:
  assumes "workchain_text w p" "hex_decode h = Inr b" "length b = 32" "length (addr a) = 32"
  shows "parse_addr stack (p @ 0x3a # h) a = Some (True, \<lparr>workchain = w, bounceable = True, testnet = False, addr = b\<rparr>)"
proof -
  have h: "hex_pairs h = Inr b" "even (length h)"
    using assms(2) by (auto simp: hex_decode_def split: if_splits)
  then have l: "length h = 64"
    using hex_pairs_length assms(3) by force
  have n: "parse_nibbles 0 h (addr a) = (True, b)"
    using parse_nibbles_hex [OF h, of 0 "addr a"] l assms(3,4) by simp
  have p: "0x3a \<notin> set p" "length p \<le> 10" "to_integer_safe p = Inr w" "w \<noteq> workchainInvalid"
    using assms(1) to_workchain no_colon(2) by (auto simp: workchain_text_def)
  show ?thesis
    using p l by (simp add: parse_addr_def rdeserialize_def find_colon Let_def n)
qed

text \<open>Whatever is refused leaves an address that is not valid.\<close>

lemma refused_invalid:
  assumes "parse_addr stack s a = Some (False, a')"
  shows "\<not> is_valid_address a'"
  using assms
  by (auto simp: parse_addr_def is_valid_address_def invalidate_def Let_def
      split: option.splits bool.splits sum.splits if_splits prod.splits)

text \<open>Without a workchain the one before stays, which for a new address is the invalid one.\<close>

lemma parse_raw_plain_value:
  assumes "hex_decode h = Inr b" "length b = 32" "length (addr a) = 32"
  shows "parse_addr stack h a = Some (True, \<lparr>workchain = workchain a, bounceable = True, testnet = False, addr = b\<rparr>)"
proof -
  have h: "hex_pairs h = Inr b" "even (length h)"
    using assms(1) by (auto simp: hex_decode_def split: if_splits)
  then have l: "length h = 64"
    using hex_pairs_length assms(2) by force
  have n: "parse_nibbles 0 h (addr a) = (True, b)"
    using parse_nibbles_hex [OF h, of 0 "addr a"] l assms(2,3) by simp
  then have "0x3a \<notin> set h"
    using parse_nibbles_ok [of 0 h "addr a"] no_colon(1) by simp
  then show ?thesis
    using l by (simp add: parse_addr_def rdeserialize_def find_byte_def Let_def n)
qed

lemma parse_addr_returns: "parse_addr stack s a \<noteq> None"
proof -
  have "unpack_std_smc_addr stack s a \<noteq> None"
    using buff_base64_decode_not_None [of stack s True]
    by (auto simp: unpack_std_smc_addr_def Let_def split: option.splits)
  then show ?thesis
    by (auto simp: parse_addr_def rdeserialize_def Let_def split: option.splits bool.splits)
qed

section \<open>Properties\<close>

text \<open>An address of the base chain, for the examples.\<close>

definition base_address :: StdAddress where
  "base_address = \<lparr>workchain = 0, bounceable = True, testnet = False, addr = replicate 32 0xA7\<rparr>"

lemma base_address_simps:
  "workchain base_address = 0" "length (addr base_address) = 32" "bounceable base_address"
  by (simp_all add: base_address_def)

text \<open>
  C14: an address whose workchain fits a byte is written as 48 characters, in either alphabet, and
  \<open>parse_addr\<close> reads it back with both flags, whatever its buffer and the address object held before. For
  any other workchain the result is the empty text.
\<close>

theorem address_roundtrip:
  assumes "length (addr a) = 32" "length stack = 48" "length stack' = 36"
  shows "\<exists>t. rserialize stack a base64_url = Some t \<and>
    (if -128 \<le> workchain a \<and> workchain a < 128 then length t = 48 \<and> parse_addr stack' t c = Some (True, a) else t = [])"
proof (cases "-128 \<le> workchain a \<and> workchain a < 128")
  case True
  with assms(1) have a: "packable a"
    by (simp add: packable_def)
  have "length (with_check (address_body a)) = 36"
    using a by (simp add: with_check_length address_body_def packable_def)
  then show ?thesis
    using True rserialize_result [OF a assms(2)] parse_packed [OF a assms(3)]
      encode_36(2) [of _ "replicate 48 0"] by simp
qed (auto simp: rserialize_def pack_std_smc_addr_to_def)

theorem address_roundtrip_witness:
  "\<exists>t. rserialize (replicate 48 0) (base_address\<lparr>workchain := -1\<rparr>) True = Some t \<and> length t = 48 \<and>
     parse_addr (replicate 36 0) t base_address = Some (True, base_address\<lparr>workchain := -1\<rparr>)"
  using address_roundtrip [of "base_address\<lparr>workchain := -1\<rparr>" "replicate 48 0" "replicate 36 0" True base_address]
  by (simp add: base_address_simps)

text \<open>
  C7: a packed address with two neighbouring characters replaced by any others, a swap of them
  included, is never taken for another account: it is refused, or still read as the same address.
\<close>

theorem mistyped_address:
  assumes "length (addr a) = 32" "length stack = 48" "length stack' = 36"
    and "rserialize stack a base64_url = Some t" "t \<noteq> []"
    and "length t' = 48" "\<forall>j<48. j \<noteq> i \<and> j \<noteq> i + 1 \<longrightarrow> t' ! j = t ! j"
  shows "parse_addr stack' t' c = Some (True, a) \<or>
    (\<exists>a'. parse_addr stack' t' c = Some (False, a') \<and> \<not> is_valid_address a')"
proof -
  have a: "packable a"
    using assms(1,4,5) by (auto simp: packable_def rserialize_def pack_std_smc_addr_to_def split: if_splits)
  have t: "t = base64_encode_loop (sym_of base64_url) True (with_check (address_body a))"
    using rserialize_result [OF a assms(2), of base64_url] assms(4) by simp
  obtain r a' where p: "parse_addr stack' t' c = Some (r, a')"
    using parse_addr_returns [of stack' t' c] by auto
  show ?thesis
  proof (cases r)
    case True
    have "a' = a"
      by (rule mistyped_address_lemma [OF a assms(3,6)]) (use assms(7) p True t in auto)
    with p True show ?thesis by simp
  next
    case False
    with p show ?thesis
      using refused_invalid by auto
  qed
qed

theorem mistyped_address_witness:
  "\<exists>t. rserialize (replicate 48 0) base_address True = Some t \<and>
    (parse_addr (replicate 36 0) (t [20 := t ! 21, 21 := t ! 20]) base_address = Some (True, base_address) \<or>
     (\<exists>a'. parse_addr (replicate 36 0) (t [20 := t ! 21, 21 := t ! 20]) base_address = Some (False, a') \<and>
        \<not> is_valid_address a'))"
proof -
  obtain t where t: "rserialize (replicate 48 0) base_address True = Some t" "length t = 48"
    using rserialize_result [of base_address "replicate 48 0" True] encode_36(2) [of "with_check (address_body base_address)" "replicate 48 0"]
    by (simp add: packable_def base_address_simps with_check_length address_body_def)
  then have "t \<noteq> []"
    by auto
  from mistyped_address [OF base_address_simps(2) _ _ t(1) this, of "replicate 36 0" "t [20 := t ! 21, 21 := t ! 20]" 20 base_address]
  show ?thesis
    using t by simp
qed

text \<open>
  C15: which raw addresses are accepted. There must be 64 characters, after a workchain as \<open>print_int\<close> writes
  it and a colon, or alone; but letters beyond f pass for digits. Real hexadecimal digits give the bytes
  they encode. Without a workchain the address keeps the workchain it had, which for a new one is invalid.
\<close>

theorem raw_address:
  assumes "length s \<noteq> 48" "length (addr a) = 32"
  shows "((\<exists>a'. parse_addr stack s a = Some (True, a')) \<longleftrightarrow>
      (\<exists>h. length h = 64 \<and> list_all is_alnum h \<and> (s = h \<or> (\<exists>w p. workchain_text w p \<and> s = p @ 0x3a # h)))) \<and>
    (hex_decode h = Inr b \<and> length b = 32 \<and> workchain_text w p \<longrightarrow>
      parse_addr stack (p @ 0x3a # h) a = Some (True, \<lparr>workchain = w, bounceable = True, testnet = False, addr = b\<rparr>) \<and>
      parse_addr stack h a = Some (True, \<lparr>workchain = workchain a, bounceable = True, testnet = False, addr = b\<rparr>))"
  using parse_raw [OF assms(1), of stack a] parse_raw_value [OF _ _ _ assms(2), of w p h b stack]
    parse_raw_plain_value [OF _ _ assms(2), of h b stack] by blast

theorem raw_address_witness:
  "(\<exists>a'. parse_addr [] (replicate 64 0x7A) base_address = Some (True, a')) \<and>
   parse_addr [] ([0x2D, 0x31, 0x3A] @ replicate 64 0x62) base_address =
     Some (True, \<lparr>workchain = -1, bounceable = True, testnet = False, addr = replicate 32 0xBB\<rparr>)"
proof -
  have z: "length (replicate 64 0x7A :: bytes) \<noteq> 48" "list_all is_alnum (replicate 64 0x7A)"
    by (simp_all add: list_all_iff is_alnum_def is_alpha_def Let_def)
  have h: "hex_decode (replicate 64 0x62) = Inr (replicate 32 0xBB)"
    by code_simp
  have w: "workchain_text (-1) [0x2D, 0x31]"
    by code_simp
  note raw = raw_address [OF z(1) base_address_simps(2), of "[]" "replicate 64 0x62" "replicate 32 0xBB" "-1" "[0x2D, 0x31]"]
  have "\<exists>h. length h = 64 \<and> list_all is_alnum h \<and> (replicate 64 0x7A = h \<or> P h)" for P
    by (rule exI [of _ "replicate 64 0x7A"]) (simp add: z(2))
  with raw show ?thesis
    using h w by simp
qed

end
