(* ===== verification/Spec2Isabelle.thy ===== *)
theory Spec2Isabelle
  imports Wallet_Passcode Key_Storage Address
begin

text \<open>
  Verification of the cryptographic core of the wallet: what happens to the secrets of a TON wallet
  between the words and the passcode that the user types and the bytes that the application stores,
  and how the accounts and public keys that the user types are read.

  \<^bold>\<open>The program.\<close> Two layers protect the secrets. The Android client
  (\<open>app/src/main/java/org/telegram/messenger\<close>) derives a key from the passcode and enciphers the
  wallet's data under it (\<open>TonController.java\<close>). It calls the entry points of \<open>app/jni/jni.c\<close> through
  the Java Native Interface; these call the C code of \<open>app/jni/boringssl/crypto\<close>: PBKDF2 over HMAC
  over SHA-512, and AES-256 in the infinite garble extension mode. What it protects in this way is the
  password and the secret of a key in the storage of the TON client library
  (\<open>app/jni/ton/tonlib/KeyStorage.cpp\<close>). This storage keeps the private keys themselves: each is
  derived from a mnemonic, serialised with its words, and encrypted under a key that is derived from a
  random secret and the password, with AES-256-CBC, HMAC-SHA-512 and PBKDF2, again from BoringSSL.
  This development models both layers down to the tables of the block cipher. The third part is the
  text form of accounts and public keys (\<open>app/jni/ton/crypto/block/block.cpp\<close>): base 64 with a checksum,
  or hexadecimal digits, which decides where money goes when an address was mistyped.

  \<^bold>\<open>Theories and sources of the C code\<close>, from the bottom; paths are relative to
  \<open>app/jni/boringssl/crypto\<close>.
  \<^item> \<open>Prelude\<close>: machine words, byte buffers, loads and stores (\<open>fipsmodule/modes/internal.h\<close>,
    \<open>internal.h\<close>), and the collections of lemmas that the proofs share.
  \<^item> \<open>FIPS197\<close>: the standard's AES, the abstract side.
  \<^item> \<open>AES_Tables\<close>, \<open>AES_Key\<close>, \<open>AES\<close>: the tables, the key schedules and the block functions of
    \<open>fipsmodule/aes/aes.c\<close>, one definition per function; the rounds are steps on the words \<open>s0 .. s3\<close>.
  \<^item> \<open>Memory\<close>: a flat byte memory for the routines whose buffers may overlap.
  \<^item> \<open>Block_Cipher\<close>: the locale \<open>block_cipher\<close>, what a mode of operation relies on, and AES as its
    instance.
  \<^item> \<open>AES_IGE\<close>: \<open>AES_ige_encrypt\<close> of \<open>fipsmodule/aes/aes_ige.c\<close>, with its two loops per direction.
  \<^item> \<open>AES_CBC\<close>: \<open>fipsmodule/modes/cbc.c\<close>, and its AES instance in \<open>fipsmodule/aes/mode_wrappers.c\<close>.
  \<^item> \<open>Hash_Blocks\<close>, \<open>SHA2_Rounds\<close>: what the hash functions share, among it the locale
    \<open>streaming_hash\<close> of a context that takes a message in pieces.
  \<^item> \<open>SHA512\<close>, \<open>SHA256\<close>: \<open>fipsmodule/sha/sha512.c\<close>, and \<open>fipsmodule/sha/sha256.c\<close> with the collector
    \<open>fipsmodule/digest/md32_common.h\<close>; instances of \<open>streaming_hash\<close>.
  \<^item> \<open>Digest\<close>: the generic interface of \<open>fipsmodule/digest/digest.c\<close> with allocation that may fail.
  \<^item> \<open>HMAC\<close>: \<open>fipsmodule/hmac/hmac.c\<close>; the keyed contexts are again a \<open>streaming_hash\<close>.
  \<^item> \<open>PBKDF2\<close>: \<open>evp/pbkdf.c\<close>.
  \<^item> \<open>Native_Entry\<close>: \<open>app/jni/jni.c\<close>.
  \<^item> \<open>Wallet_Passcode\<close>: the methods of \<open>TonController.java\<close> and \<open>Utilities.java\<close> on that path.

  \<^bold>\<open>Theories and sources of the storage of keys\<close>; paths are relative to \<open>app/jni/ton\<close>.
  \<^item> \<open>Td_Crypto\<close>: the wrappers of \<open>td/utils/crypto.cpp\<close> around hashes, HMAC, PBKDF2 and the CBC and CTR
    modes; their checks are modelled as the end of the process.
  \<^item> \<open>Simple_Encryption\<close>: \<open>tonlib/keys/SimpleEncryption.cpp\<close>, the authenticated encryption of data,
    and its version 2, which also serves pairs of Ed25519 keys.
  \<^item> \<open>TL_Storage\<close>: the storers and the parser of \<open>td/utils/tl_storers.h\<close>, \<open>tl_parsers.h\<close> and
    \<open>tl_helpers.h\<close>, as far as a key uses them.
  \<^item> \<open>Text\<close>: characters, decimal and hexadecimal text of \<open>td/utils/misc.h\<close>, \<open>misc.cpp\<close> and \<open>StringBuilder.cpp\<close>.
  \<^item> \<open>Mnemonic\<close>, \<open>Mnemonic_Creation\<close>: \<open>tonlib/keys/Mnemonic.cpp\<close>.
  \<^item> \<open>Local_Key\<close>: \<open>tonlib/keys/DecryptedKey.cpp\<close> and \<open>EncryptedKey.cpp\<close>.
  \<^item> \<open>Key_Value\<close>: the interface \<open>tonlib/KeyValue.h\<close> as a record of operations, its laws as the locales
    \<open>key_value_store\<close> and \<open>reliable_store\<close>, and the store in memory of \<open>KeyValue.cpp\<close> as their instance.
  \<^item> \<open>Key_Storage\<close>: \<open>tonlib/KeyStorage.cpp\<close>.

  \<^bold>\<open>Theories and sources of the addresses\<close>; paths are relative to \<open>app/jni/ton\<close>.
  \<^item> \<open>Checksum\<close>: CRC-16 and CRC-64 of \<open>td/utils/crypto.cpp\<close>, and the shift registers they stand for.
  \<^item> \<open>Base64\<close>: \<open>td/utils/base64.cpp\<close>; the locale \<open>alphabet\<close> holds what both alphabets share.
  \<^item> \<open>Buff_Base64\<close>: the other base 64 coder, in \<open>crypto/common/util.cpp\<close>, and ADNL identifiers.
  \<^item> \<open>Address\<close>: \<open>PublicKey\<close> and \<open>StdAddress\<close> of \<open>crypto/block/block.cpp\<close>.

  \<^bold>\<open>How the model corresponds to the code.\<close> A definition has the name of the function it models. A
  struct is a record, an enumeration of static method tables is a datatype, a machine integer is a
  word of its width, a \<open>size_t\<close> is a \<open>nat\<close> (the lemmas carry the bounds where a length could exceed
  64 bits), a buffer is the list of its bytes. A function that writes through a pointer returns the
  new contents. A function that returns a status returns the same integer; a \<open>td::Result\<close> is a sum of
  an error and a value. A pointer that the code compares with \<open>NULL\<close> is an option. Functions that may
  fail for lack of memory take the sequence of answers that the allocator is going to give; following
  a null pointer, a failed \<open>CHECK\<close> and a fatal log entry are the result \<open>None\<close>, and the lemmas show that
  no caller gets it. The random generator is the stream of bytes it is going to give.

  \<^bold>\<open>What the lemmas show.\<close> Every routine of the C code is shown equal to an independent statement of its
  standard: the table-driven AES to the cipher of FIPS 197, for every key size; the loops of the modes,
  over distinct and over identical buffers, to the recursion over blocks; the block functions with
  their rotating registers and their ring of schedule words to the compression functions of FIPS 180-4,
  and the streaming contexts to the hash of the concatenated input, including the carry of the
  bit counter; HMAC to FIPS 198-1; PBKDF2 to RFC 8018. The properties of \<open>Native_Entry\<close> and
  \<open>Wallet_Passcode\<close> compose these: what the application stored opens again with the same passcode
  and gives the same secret. For the storage of keys they are composed once more: what was encrypted
  decrypts, and nothing else does; a key is parsed as it was stored; a saved key is exported; the
  recovery phrase of a created key gives the key again; and \<open>export_decrypted_key\<close>, which also moves
  keys out of two older forms, never ends the process and never returns a key of another public key,
  whatever the files hold. For addresses, the tables of the checksums are shown to be shift registers,
  the decoders to accept exactly what the encoders write, or how far they depart from it; both are
  composed to the statements that an address reads back, and that two neighbouring mistyped characters
  never lead to another account, since the register tells bursts of up to 16 bits apart. Where the code departs from what it should do, the property states what it
  does: the ignored offset of the entry point for arrays, the all-zero key that a failed allocation
  leaves behind, the lengths from 2^31 on that the parser does not read back, the file that
  changing a password leaves behind, the single byte that the buffered base 64 coder cannot encode, and
  the malformed raw addresses that are accepted.

  \<^bold>\<open>Parameters and bounds.\<close> The accelerated implementations of AES, SHA-256 and SHA-512 are assembly
  that the build generates; they are the fields of \<open>aes_backend\<close> and \<open>cpu\<close>, and \<open>backend_ok\<close> and
  \<open>cpu_ok\<close> state that one that is reported as available computes the same (for the portable
  implementation this holds outright). The operations on Ed25519 keys, which the storage takes from
  the EVP interface, are the record \<open>ed25519\<close>. All loops of the model are structural recursion or have
  a termination proof. Buffers on the stack, and the bytes of an address that the code does not
  initialise, are arguments, so that the properties hold whatever they contain. The creation of a mnemonic draws words at most 5120 times, or 1310720 times with
  a password, as the code does; there is no other fuel.

  \<^bold>\<open>Not modelled.\<close> The assembly that the build generates. The rest of BoringSSL (X.509, TLS, the
  public-key algorithms and the big-number code under them), which the paths above do not reach, or
  reach through Ed25519 alone. The store in a directory (\<open>KeyValueDir\<close>), which calls the file system;
  keys in PEM. The rest of the TON client library: blocks, cells, the virtual machine and the network.
  CRC-32 and CRC-32C, which come from other libraries.
  The LZ4 codec, the animation player and the user interface. Side channels, and that memory is
  cleansed.
\<close>

end
